(* ===== verification/Nixvm_Base.thy ===== *)
theory Nixvm_Base
  imports Main "HOL-Library.Word" "HOL-Library.Finite_Map" "HOL-Library.Monad_Syntax"
begin

text \<open>
  The shared base of the development: names for the machine integers, Linux error numbers
  (\<^verbatim>\<open>src/abi/errno.rs\<close>), little-endian byte strings (\<^verbatim>\<open>u64::from_le_bytes\<close> and
  \<^verbatim>\<open>to_le_bytes\<close>), ordered maps (\<^verbatim>\<open>BTreeMap\<close>), and the notion of a machine whose
  steps keep an invariant, which every stateful component instantiates.

  Conventions of the whole development: a Rust \<^verbatim>\<open>u8\<close>, \<^verbatim>\<open>u32\<close> or \<^verbatim>\<open>u64\<close> that is
  combined bitwise or may wrap is a word of that width; a \<^verbatim>\<open>usize\<close> that indexes or counts is
  a \<^typ>\<open>nat\<close>; an \<^verbatim>\<open>i32\<close> is an \<^typ>\<open>int\<close> whose wrap-around, where the code adds, is
  written out with \<open>wrap_i32\<close>. A failed \<^verbatim>\<open>assert!\<close> (a panic) is the value \<^const>\<open>None\<close> of an
  outer option.
\<close>

unbundle bit_operations_syntax

type_synonym u8 = "8 word"
type_synonym u16 = "16 word"
type_synonym u32 = "32 word"
type_synonym u64 = "64 word"
type_synonym bytes = "u8 list"

named_theorems mem_simps \<open>rewrite rules of the memory components\<close>
named_theorems inv_intros \<open>preservation rules of the component invariants\<close>

subsection \<open>Linux error numbers\<close>

datatype errno = Errno int

fun errno_val :: "errno \<Rightarrow> int" where
  "errno_val (Errno n) = n"

definition errno_table :: "(string \<times> int) list" where
  "errno_table =
    [(''EPERM'', 1), (''ENOENT'', 2), (''ESRCH'', 3), (''EINTR'', 4), (''EIO'', 5),
     (''ENXIO'', 6), (''E2BIG'', 7), (''ENOEXEC'', 8), (''EBADF'', 9), (''ECHILD'', 10),
     (''EAGAIN'', 11), (''ENOMEM'', 12), (''EACCES'', 13), (''EFAULT'', 14), (''EBUSY'', 16),
     (''EEXIST'', 17), (''EXDEV'', 18), (''ENODEV'', 19), (''ENOTDIR'', 20), (''EISDIR'', 21),
     (''EINVAL'', 22), (''ENFILE'', 23), (''EMFILE'', 24), (''ENOTTY'', 25), (''EFBIG'', 27),
     (''ENOSPC'', 28), (''ESPIPE'', 29), (''EROFS'', 30), (''EMLINK'', 31), (''EPIPE'', 32),
     (''EDOM'', 33), (''ERANGE'', 34), (''EDEADLK'', 35), (''ENAMETOOLONG'', 36),
     (''ENOLCK'', 37), (''ENOSYS'', 38), (''ENOTEMPTY'', 39), (''ELOOP'', 40), (''ENOMSG'', 42),
     (''EIDRM'', 43), (''ENODATA'', 61), (''EPROTO'', 71), (''ETIME'', 62), (''EOVERFLOW'', 75),
     (''EBADFD'', 77), (''ENOTSOCK'', 88), (''EMSGSIZE'', 90), (''ENOPROTOOPT'', 92),
     (''EOPNOTSUPP'', 95), (''EAFNOSUPPORT'', 97), (''EADDRINUSE'', 98), (''ENOBUFS'', 105),
     (''EADDRNOTAVAIL'', 99), (''ETIMEDOUT'', 110), (''ECONNREFUSED'', 111), (''ESTALE'', 116)]"

definition errno_from_name :: "string \<Rightarrow> errno option" where
  "errno_from_name name = map_option Errno (map_of errno_table name)"

abbreviation "EPERM \<equiv> Errno 1"
abbreviation "ENOENT \<equiv> Errno 2"
abbreviation "ESRCH \<equiv> Errno 3"
abbreviation "EBADF \<equiv> Errno 9"
abbreviation "EAGAIN \<equiv> Errno 11"
abbreviation "ENOMEM \<equiv> Errno 12"
abbreviation "EACCES \<equiv> Errno 13"
abbreviation "EFAULT \<equiv> Errno 14"
abbreviation "EBUSY \<equiv> Errno 16"
abbreviation "EEXIST \<equiv> Errno 17"
abbreviation "EINVAL \<equiv> Errno 22"
abbreviation "EMFILE \<equiv> Errno 24"
abbreviation "ENOSPC \<equiv> Errno 28"
abbreviation "ENAMETOOLONG \<equiv> Errno 36"
abbreviation "ENOSYS \<equiv> Errno 38"
abbreviation "EMSGSIZE \<equiv> Errno 90"
abbreviation "EOPNOTSUPP \<equiv> Errno 95"
abbreviation "ETIMEDOUT \<equiv> Errno 110"

text \<open>The value a failing handler returns: the negated error number (\<^verbatim>\<open>kernel::err\<close>).\<close>

definition err :: "errno \<Rightarrow> int" where
  "err e = - errno_val e"

text \<open>The register encoding: the two's-complement negation as an unsigned word.\<close>

definition as_syscall_ret :: "errno \<Rightarrow> u64" where
  "as_syscall_ret e = word_of_int (- errno_val e)"

lemma err_Errno [simp]: "err (Errno n) = - n"
  by (simp add: err_def)

lemma sint_as_syscall_ret:
  assumes "0 \<le> errno_val e" "errno_val e < 4096"
  shows "sint (as_syscall_ret e) = err e"
proof -
  have "- (2 ^ 63) \<le> - errno_val e" "- errno_val e < 2 ^ 63"
    using assms by auto
  then have "signed_take_bit 63 (- errno_val e) = - errno_val e"
    by (intro signed_take_bit_int_eq_self) auto
  then show ?thesis
    by (simp add: as_syscall_ret_def err_def sint_sbintrunc' del: of_int_minus)
qed

subsection \<open>Signed 32-bit wrap-around\<close>

definition wrap_i32 :: "int \<Rightarrow> int" where
  "wrap_i32 n = (n + 2 ^ 31) mod 2 ^ 32 - 2 ^ 31"

lemma wrap_i32_id: "- (2 ^ 31) \<le> n \<Longrightarrow> n < 2 ^ 31 \<Longrightarrow> wrap_i32 n = n"
  by (simp add: wrap_i32_def)

lemma wrap_i32_range: "- (2 ^ 31) \<le> wrap_i32 n \<and> wrap_i32 n < 2 ^ 31"
proof -
  have "0 \<le> (n + 2 ^ 31) mod 2 ^ 32 \<and> (n + 2 ^ 31) mod 2 ^ 32 < (2 ^ 32 :: int)"
    by simp
  then show ?thesis by (simp add: wrap_i32_def)
qed

subsection \<open>Words and numbers\<close>

lemma unat_u8_less [simp]: "unat (b :: u8) < 256"
  using unsigned_less [of b] by simp

lemma unat_u16_less [simp]: "unat (w :: u16) < 65536"
  using unsigned_less [of w] by simp

lemma unat_u32_less [simp]: "unat (w :: u32) < 2 ^ 32"
  using unsigned_less [of w] by simp

lemma unat_u64_less [simp]: "unat (w :: u64) < 2 ^ 64"
  using unsigned_less [of w] by simp

lemma unat_word_of_nat_eq:
  "n < 2 ^ LENGTH('a) \<Longrightarrow> unat (word_of_nat n :: 'a::len word) = n"
  by (simp add: unsigned_of_nat take_bit_nat_eq_self)

lemma unat_word_of_nat_mod:
  "unat (word_of_nat n :: 'a::len word) = n mod 2 ^ LENGTH('a)"
  by (simp add: unsigned_of_nat take_bit_eq_mod)

lemma unat_add_less:
  "unat a + unat b < 2 ^ LENGTH('a) \<Longrightarrow> unat (a + b :: 'a::len word) = unat a + unat b"
  by (simp add: unat_word_ariths)

subsection \<open>Early returns\<close>

text \<open>
  The \<^verbatim>\<open>?\<close> operator on an optional value inside a computation that may panic: the outer option
  is the panic, the inner one the value's.
\<close>

definition try_opt :: "'a option option \<Rightarrow> ('a \<Rightarrow> 'b option option) \<Rightarrow> 'b option option" where
  "try_opt x f = (case x of None \<Rightarrow> None | Some None \<Rightarrow> Some None | Some (Some v) \<Rightarrow> f v)"

lemma try_opt_simps [simp]:
  "try_opt None f = None" "try_opt (Some None) f = Some None" "try_opt (Some (Some v)) f = f v"
  by (simp_all add: try_opt_def)

subsection \<open>Little-endian byte strings\<close>

fun from_le :: "bytes \<Rightarrow> nat" where
  "from_le [] = 0"
| "from_le (b # bs) = unat b + 256 * from_le bs"

fun to_le :: "nat \<Rightarrow> nat \<Rightarrow> bytes" where
  "to_le 0 v = []"
| "to_le (Suc n) v = word_of_nat (v mod 256) # to_le n (v div 256)"

lemma length_to_le [simp]: "length (to_le n v) = n"
  by (induction n arbitrary: v) auto

lemma from_le_less: "from_le bs < 256 ^ length bs"
proof (induction bs)
  case (Cons b bs)
  from Cons have "Suc (from_le bs) \<le> 256 ^ length bs" by simp
  then have "256 * Suc (from_le bs) \<le> 256 * 256 ^ length bs"
    by (rule mult_le_mono2)
  moreover have "unat b + 256 * from_le bs < 256 * Suc (from_le bs)"
    by simp
  ultimately have "unat b + 256 * from_le bs < 256 * 256 ^ length bs" by linarith
  then show ?case by simp
qed simp

lemma from_le_to_le: "from_le (to_le n v) = v mod 256 ^ n"
proof (induction n arbitrary: v)
  case (Suc n)
  have "from_le (to_le (Suc n) v) = v mod 256 + 256 * (v div 256 mod 256 ^ n)"
    by (simp add: Suc unat_word_of_nat_mod)
  also have "\<dots> = v mod 256 ^ Suc n"
    by (simp add: mod_mult2_eq)
  finally show ?case .
qed simp

lemma to_le_from_le [simp]: "to_le (length bs) (from_le bs) = bs"
proof (induction bs)
  case (Cons b bs)
  have "unat b < 256" by simp
  then have "(unat b + 256 * from_le bs) mod 256 = unat b"
    and "(unat b + 256 * from_le bs) div 256 = from_le bs"
    by simp_all
  with Cons show ?case by simp
qed simp

definition u64_to_le :: "u64 \<Rightarrow> bytes" where
  "u64_to_le w = to_le 8 (unat w)"

definition u64_from_le :: "bytes \<Rightarrow> u64" where
  "u64_from_le bs = word_of_nat (from_le bs)"

definition u32_to_le :: "u32 \<Rightarrow> bytes" where
  "u32_to_le w = to_le 4 (unat w)"

definition u32_from_le :: "bytes \<Rightarrow> u32" where
  "u32_from_le bs = word_of_nat (from_le bs)"

definition u16_from_le :: "bytes \<Rightarrow> u16" where
  "u16_from_le bs = word_of_nat (from_le bs)"

lemma length_u64_to_le [simp]: "length (u64_to_le w) = 8"
  by (simp add: u64_to_le_def)

lemma length_u32_to_le [simp]: "length (u32_to_le w) = 4"
  by (simp add: u32_to_le_def)

lemma u64_from_to_le [simp]: "u64_from_le (u64_to_le w) = w"
  using unat_u64_less [of w] by (simp add: u64_from_le_def u64_to_le_def from_le_to_le)

lemma u32_from_to_le [simp]: "u32_from_le (u32_to_le w) = w"
  using unat_u32_less [of w] by (simp add: u32_from_le_def u32_to_le_def from_le_to_le)

lemma u64_to_from_le: "length bs = 8 \<Longrightarrow> u64_to_le (u64_from_le bs) = bs"
proof -
  assume l: "length bs = 8"
  then have "from_le bs < 2 ^ 64" using from_le_less [of bs] by simp
  then have "unat (word_of_nat (from_le bs) :: u64) = from_le bs"
    by (simp add: unat_word_of_nat_eq)
  then show ?thesis
    using to_le_from_le [of bs] l by (simp add: u64_to_le_def u64_from_le_def)
qed

subsection \<open>Ordered maps\<close>

text \<open>
  A \<^verbatim>\<open>BTreeMap\<close> is a finite map; where the code iterates over one, or asks for its first key,
  the keys come in ascending order.
\<close>

definition fm_keys :: "('k::linorder, 'v) fmap \<Rightarrow> 'k list" where
  "fm_keys m = sorted_list_of_fset (fmdom m)"

lemma sorted_list_of_fset_empty [simp]: "sorted_list_of_fset {||} = []"
  by (simp add: sorted_list_of_fset.rep_eq)

lemma sorted_list_of_fset_finsert:
  "sorted_list_of_fset (finsert x A) = insort x (sorted_list_of_fset (A |-| {|x|}))"
  by (simp add: sorted_list_of_fset.rep_eq)

lemma set_fm_keys [simp]: "set (fm_keys m) = fset (fmdom m)"
  by (simp add: fm_keys_def)

lemma sorted_fm_keys [simp]: "sorted (fm_keys m)"
  by (simp add: fm_keys_def sorted_list_of_fset.rep_eq)

lemma distinct_fm_keys [simp]: "distinct (fm_keys m)"
  by (simp add: fm_keys_def sorted_list_of_fset.rep_eq)

lemma fm_keys_empty [simp]: "fm_keys fmempty = []"
  by (simp add: fm_keys_def)

lemma fm_keys_upd:
  "fm_keys (fmupd k v m) = insort k (fm_keys (fmdrop k m))"
  by (simp add: fm_keys_def sorted_list_of_fset_finsert)

lemma fm_keys_drop [simp]: "fm_keys (fmdrop k m) = filter (\<lambda>x. x \<noteq> k) (fm_keys m)"
proof (rule sorted_distinct_set_unique)
  show "set (fm_keys (fmdrop k m)) = set (filter (\<lambda>x. x \<noteq> k) (fm_keys m))"
    by auto
  show "sorted (filter (\<lambda>x. x \<noteq> k) (fm_keys m))"
    using sorted_filter [of "\<lambda>x. x" "fm_keys m"] by simp
qed auto

lemma length_fm_keys: "length (fm_keys m) = fcard (fmdom m)"
  by (metis distinct_card distinct_fm_keys fcard.rep_eq set_fm_keys)

lemma fm_keys_Nil_iff: "fm_keys m = [] \<longleftrightarrow> m = fmempty"
proof
  assume "fm_keys m = []"
  then have "fset (fmdom m) = {}" using set_fm_keys [of m] by simp
  then show "m = fmempty" by (metis bot_fset.rep_eq fmrestrict_fset_dom fmrestrict_fset_null fset_inject)
qed simp

lemma fmdom_notD': "x |\<notin>| fmdom m \<Longrightarrow> fmlookup m x = None"
  by (rule fmdom_notD)

subsection \<open>Machines with an invariant\<close>

text \<open>
  A component is a deterministic machine: a step function over a set of operations. An invariant
  that its start states have and every step keeps holds after every sequence of operations.
\<close>

fun run_ops :: "('s \<Rightarrow> 'op \<Rightarrow> 's) \<Rightarrow> 's \<Rightarrow> 'op list \<Rightarrow> 's" where
  "run_ops step s [] = s"
| "run_ops step s (x # xs) = run_ops step (step s x) xs"

lemma run_ops_append: "run_ops step s (xs @ ys) = run_ops step (run_ops step s xs) ys"
  by (induction xs arbitrary: s) auto

locale machine =
  fixes step :: "'s \<Rightarrow> 'op \<Rightarrow> 's"
    and inv :: "'s \<Rightarrow> bool"
  assumes step_inv: "inv s \<Longrightarrow> inv (step s x)"
begin

lemma run_inv: "inv s \<Longrightarrow> inv (run_ops step s xs)"
  by (induction xs arbitrary: s) (auto intro: step_inv)

lemma run_prefix_inv:
  assumes "inv s"
  shows "inv (run_ops step s (take n xs))"
  by (rule run_inv [OF assms])

end

text \<open>
  A machine with a measured resource: some quantity of the state never grows past a bound that
  the state carries, whatever the operations.
\<close>

locale bounded_machine = machine +
  fixes used :: "'s \<Rightarrow> nat"
    and bound :: "'s \<Rightarrow> nat"
  assumes inv_bound: "inv s \<Longrightarrow> used s \<le> bound s"
begin

lemma run_bound: "inv s \<Longrightarrow> used (run_ops step s xs) \<le> bound (run_ops step s xs)"
  by (rule inv_bound [OF run_inv])

end

end
