(* ===== verification/Phys_Frames.thy ===== *)
theory Phys_Frames
  imports Nixvm_Base
begin

text \<open>
  Guest-physical RAM and the frame allocator: \<^verbatim>\<open>src/vcpu/region.rs\<close> and
  \<^verbatim>\<open>src/vcpu/phys.rs\<close>. A pool is a size and a byte at every offset; an access outside the pool
  is a panic, the value \<^const>\<open>None\<close>. The allocator is a stack of free frame numbers (the head of
  the list is the end of the Rust vector, where it pushes and pops) and a reference count per
  frame, in which \<open>PINNED\<close> marks a frame that is never handed out. The invariant \<open>fa_inv\<close> says
  that the stack holds exactly the frames of count zero, each once, and that the live count is
  right; every operation used as its documentation asks keeps it, and what the operations promise
  their clients is the locale \<open>frame_pool\<close>.
\<close>

unbundle bit_operations_syntax

subsection \<open>Pool bytes\<close>

definition PAGE_SIZE :: nat where "PAGE_SIZE = 4096"
definition HOST_PAGE :: nat where "HOST_PAGE = 16384"

record physmem =
  pm_size :: nat
  pm_mem :: "nat \<Rightarrow> u8"

definition next_multiple_of :: "nat \<Rightarrow> nat \<Rightarrow> nat" where
  "next_multiple_of n k = (n + k - 1) div k * k"

definition region_len :: "nat \<Rightarrow> nat" where
  "region_len len = max (next_multiple_of len HOST_PAGE) HOST_PAGE"

definition phys_new :: "nat \<Rightarrow> physmem" where
  "phys_new sz =
     \<lparr>pm_size = region_len (max (next_multiple_of sz PAGE_SIZE) PAGE_SIZE), pm_mem = (\<lambda>_. 0)\<rparr>"

definition phys_nframes :: "physmem \<Rightarrow> nat" where
  "phys_nframes pm = pm_size pm div PAGE_SIZE"

definition in_bounds :: "physmem \<Rightarrow> u64 \<Rightarrow> nat \<Rightarrow> bool" where
  "in_bounds pm pa len \<longleftrightarrow> unat pa + len < 2 ^ 64 \<and> unat pa + len \<le> pm_size pm"

definition mem_store :: "(nat \<Rightarrow> u8) \<Rightarrow> nat \<Rightarrow> bytes \<Rightarrow> (nat \<Rightarrow> u8)" where
  "mem_store m a bs = (\<lambda>i. if a \<le> i \<and> i < a + length bs then bs ! (i - a) else m i)"

definition mem_load :: "(nat \<Rightarrow> u8) \<Rightarrow> nat \<Rightarrow> nat \<Rightarrow> bytes" where
  "mem_load m a n = map (\<lambda>i. m (a + i)) [0..<n]"

definition phys_read :: "physmem \<Rightarrow> u64 \<Rightarrow> nat \<Rightarrow> bytes option" where
  "phys_read pm pa n = (if in_bounds pm pa n then Some (mem_load (pm_mem pm) (unat pa) n) else None)"

definition phys_write :: "physmem \<Rightarrow> u64 \<Rightarrow> bytes \<Rightarrow> physmem option" where
  "phys_write pm pa bs =
     (if in_bounds pm pa (length bs)
      then Some (pm\<lparr>pm_mem := mem_store (pm_mem pm) (unat pa) bs\<rparr>) else None)"

definition phys_read_u64 :: "physmem \<Rightarrow> u64 \<Rightarrow> u64 option" where
  "phys_read_u64 pm pa = map_option u64_from_le (phys_read pm pa 8)"

definition phys_write_u64_atomic :: "physmem \<Rightarrow> u64 \<Rightarrow> u64 \<Rightarrow> physmem option" where
  "phys_write_u64_atomic pm pa val =
     (if in_bounds pm pa 8 \<and> unat pa mod 8 = 0
      then Some (pm\<lparr>pm_mem := mem_store (pm_mem pm) (unat pa) (u64_to_le val)\<rparr>) else None)"

definition phys_zero_frame :: "physmem \<Rightarrow> u64 \<Rightarrow> physmem option" where
  "phys_zero_frame pm pa =
     (if unat pa mod PAGE_SIZE = 0 \<and> in_bounds pm pa PAGE_SIZE
      then Some (pm\<lparr>pm_mem := mem_store (pm_mem pm) (unat pa) (replicate PAGE_SIZE 0)\<rparr>)
      else None)"

definition phys_copy_frame :: "physmem \<Rightarrow> u64 \<Rightarrow> u64 \<Rightarrow> physmem option" where
  "phys_copy_frame pm dst src =
     (if unat dst mod PAGE_SIZE = 0 \<and> unat src mod PAGE_SIZE = 0
        \<and> in_bounds pm dst PAGE_SIZE \<and> in_bounds pm src PAGE_SIZE
      then if dst = src then Some pm
           else Some (pm\<lparr>pm_mem := mem_store (pm_mem pm) (unat dst)
                                  (mem_load (pm_mem pm) (unat src) PAGE_SIZE)\<rparr>)
      else None)"

subsection \<open>Load and store laws\<close>

lemma length_mem_load [simp]: "length (mem_load m a n) = n"
  by (simp add: mem_load_def)

lemma nth_mem_load [simp]: "i < n \<Longrightarrow> mem_load m a n ! i = m (a + i)"
  by (simp add: mem_load_def)

lemma mem_load_store_same [mem_simps]: "mem_load (mem_store m a bs) a (length bs) = bs"
  by (rule nth_equalityI) (auto simp: mem_store_def)

lemma mem_load_store_disjoint [mem_simps]:
  "b + n \<le> a \<or> a + length bs \<le> b \<Longrightarrow> mem_load (mem_store m a bs) b n = mem_load m b n"
  by (rule nth_equalityI) (auto simp: mem_store_def)

lemma mem_store_outside: "i < a \<or> a + length bs \<le> i \<Longrightarrow> mem_store m a bs i = m i"
  by (auto simp: mem_store_def)

lemma mem_load_cong: "(\<And>i. a \<le> i \<Longrightarrow> i < a + n \<Longrightarrow> m i = m' i) \<Longrightarrow> mem_load m a n = mem_load m' a n"
  by (simp add: mem_load_def)

lemma mem_load_zero:
  "(\<And>i. a \<le> i \<Longrightarrow> i < a + n \<Longrightarrow> m i = 0) \<Longrightarrow> mem_load m a n = replicate n 0"
  by (rule nth_equalityI) auto

lemma from_le_zeros [simp]: "from_le (replicate n 0) = 0"
  by (induction n) auto

subsection \<open>The frame allocator\<close>

definition PINNED :: nat where "PINNED = 2 ^ 32 - 1"

record frame_alloc =
  fa_refcount :: "nat list"
  fa_free_list :: "nat list"
  fa_allocated :: nat
  fa_reserve :: nat
  fa_use_reserve :: bool

definition fa_new :: "nat \<Rightarrow> frame_alloc option" where
  "fa_new nframes =
     (if nframes \<ge> 1
      then Some \<lparr>fa_refcount = (replicate nframes 0)[0 := PINNED],
                 fa_free_list = [1..<nframes mod 2 ^ 32],
                 fa_allocated = 0, fa_reserve = 0, fa_use_reserve = False\<rparr>
      else None)"

definition frame_of :: "frame_alloc \<Rightarrow> u64 \<Rightarrow> nat option" where
  "frame_of fa pa =
     (if unat pa mod PAGE_SIZE \<noteq> 0 then None
      else let f = unat pa div PAGE_SIZE
           in if f < length (fa_refcount fa) then Some f else None)"

definition frame_pa :: "nat \<Rightarrow> u64" where
  "frame_pa f = word_of_nat (f * PAGE_SIZE)"

text \<open>
  \<^verbatim>\<open>alloc\<close>: an inner \<^const>\<open>None\<close> is exhaustion, an outer one a panic of
  \<^verbatim>\<open>zero_frame\<close>.
\<close>

definition fa_alloc ::
  "frame_alloc \<Rightarrow> physmem \<Rightarrow> (u64 option \<times> frame_alloc \<times> physmem) option" where
  "fa_alloc fa pm =
     (if \<not> fa_use_reserve fa \<and> length (fa_free_list fa) \<le> fa_reserve fa
      then Some (None, fa, pm)
      else case fa_free_list fa of
        [] \<Rightarrow> Some (None, fa, pm)
      | f # rest \<Rightarrow>
          let fa' = fa\<lparr>fa_free_list := rest, fa_refcount := (fa_refcount fa)[f := 1],
                       fa_allocated := fa_allocated fa + 1\<rparr>
          in do { pm' \<leftarrow> phys_zero_frame pm (frame_pa f);
                  Some (Some (frame_pa f), fa', pm') })"

definition fa_set_reserve :: "frame_alloc \<Rightarrow> nat \<Rightarrow> frame_alloc" where
  "fa_set_reserve fa n = fa\<lparr>fa_reserve := n\<rparr>"

definition fa_set_use_reserve :: "frame_alloc \<Rightarrow> bool \<Rightarrow> frame_alloc" where
  "fa_set_use_reserve fa b = fa\<lparr>fa_use_reserve := b\<rparr>"

definition fa_incref :: "frame_alloc \<Rightarrow> u64 \<Rightarrow> frame_alloc" where
  "fa_incref fa pa =
     (case frame_of fa pa of
        None \<Rightarrow> fa
      | Some f \<Rightarrow>
          let rc = fa_refcount fa ! f
          in if rc = PINNED then fa
             else fa\<lparr>fa_refcount := (fa_refcount fa)[f := min (rc + 1) (2 ^ 32 - 1)]\<rparr>)"

definition fa_decref :: "frame_alloc \<Rightarrow> u64 \<Rightarrow> frame_alloc" where
  "fa_decref fa pa =
     (case frame_of fa pa of
        None \<Rightarrow> fa
      | Some f \<Rightarrow>
          let rc = fa_refcount fa ! f
          in if rc = PINNED then fa
             else if rc = 0 then fa
             else let fa' = fa\<lparr>fa_refcount := (fa_refcount fa)[f := rc - 1]\<rparr>
                  in if rc = 1
                     then fa'\<lparr>fa_allocated := fa_allocated fa - 1, fa_free_list := f # fa_free_list fa\<rparr>
                     else fa')"

definition fa_free :: "frame_alloc \<Rightarrow> u64 \<Rightarrow> frame_alloc" where
  "fa_free fa pa = fa_decref fa pa"

definition fa_rc :: "frame_alloc \<Rightarrow> u64 \<Rightarrow> nat" where
  "fa_rc fa pa = (case frame_of fa pa of None \<Rightarrow> 0 | Some f \<Rightarrow> fa_refcount fa ! f)"

definition fa_pin1 :: "frame_alloc \<Rightarrow> nat \<Rightarrow> frame_alloc" where
  "fa_pin1 fa f =
     fa\<lparr>fa_allocated := (if fa_refcount fa ! f \<noteq> PINNED \<and> fa_refcount fa ! f \<ge> 1
                         then fa_allocated fa - 1 else fa_allocated fa),
        fa_refcount := (fa_refcount fa)[f := PINNED]\<rparr>"

fun fa_pin :: "frame_alloc \<Rightarrow> nat list \<Rightarrow> frame_alloc" where
  "fa_pin fa [] = fa"
| "fa_pin fa (f # fs) = fa_pin (fa_pin1 fa f) fs"

definition fa_reserve_range :: "frame_alloc \<Rightarrow> u64 \<Rightarrow> u64 \<Rightarrow> frame_alloc option" where
  "fa_reserve_range fa pa len =
     (if len = 0 then Some fa
      else if unat pa + unat len \<ge> 2 ^ 64 then None
      else let first = unat pa div PAGE_SIZE;
               end = (unat pa + unat len + PAGE_SIZE - 1) div PAGE_SIZE
           in if end > length (fa_refcount fa) then None
              else let fa' = fa_pin fa [first..<end]
                   in Some (fa'\<lparr>fa_free_list :=
                        filter (\<lambda>f. fa_refcount fa' ! f \<noteq> PINNED) (fa_free_list fa')\<rparr>))"

definition fa_alloc_count :: "frame_alloc \<Rightarrow> nat" where
  "fa_alloc_count fa = fa_allocated fa"

definition fa_free_count :: "frame_alloc \<Rightarrow> nat" where
  "fa_free_count fa = length (fa_free_list fa)"

subsection \<open>The allocator's invariant\<close>

definition live_frames :: "nat list \<Rightarrow> nat set" where
  "live_frames rcs = {f. f < length rcs \<and> 0 < rcs ! f \<and> rcs ! f \<noteq> PINNED}"

definition fa_inv :: "frame_alloc \<Rightarrow> bool" where
  "fa_inv fa \<longleftrightarrow>
     0 < length (fa_refcount fa) \<and> fa_refcount fa ! 0 = PINNED
   \<and> (\<forall>f < length (fa_refcount fa). fa_refcount fa ! f \<le> PINNED)
   \<and> distinct (fa_free_list fa)
   \<and> set (fa_free_list fa) = {f. f < length (fa_refcount fa) \<and> fa_refcount fa ! f = 0}
   \<and> fa_allocated fa = card (live_frames (fa_refcount fa))"

text \<open>The pool and the allocator describe the same frames, as \<^verbatim>\<open>new_split\<close> builds them.\<close>

definition pool_fits :: "frame_alloc \<Rightarrow> physmem \<Rightarrow> bool" where
  "pool_fits fa pm \<longleftrightarrow> length (fa_refcount fa) * PAGE_SIZE \<le> pm_size pm \<and> pm_size pm < 2 ^ 52"

lemma PINNED_pos [simp]: "0 < PINNED" "PINNED \<noteq> 0" "0 \<noteq> PINNED" "1 \<noteq> PINNED" "PINNED \<noteq> 1"
  "Suc 0 \<noteq> PINNED" "PINNED \<noteq> Suc 0"
  by (simp_all add: PINNED_def)

lemma finite_live [simp]: "finite (live_frames rcs)"
  by (rule finite_subset [of _ "{..<length rcs}"]) (auto simp: live_frames_def)

lemma live_frames_update:
  assumes "f < length rcs"
  shows "live_frames (rcs[f := v]) =
    (if 0 < v \<and> v \<noteq> PINNED then insert f (live_frames rcs) else live_frames rcs - {f})"
  using assms by (auto simp: live_frames_def nth_list_update)

lemma card_live_update:
  assumes "f < length rcs"
  shows "card (live_frames (rcs[f := v])) =
    (if 0 < v \<and> v \<noteq> PINNED
     then if f \<in> live_frames rcs then card (live_frames rcs) else Suc (card (live_frames rcs))
     else if f \<in> live_frames rcs then card (live_frames rcs) - 1 else card (live_frames rcs))"
  using assms by (auto simp: live_frames_update insert_absorb)

lemma in_live_frames: "f \<in> live_frames rcs \<longleftrightarrow> f < length rcs \<and> 0 < rcs ! f \<and> rcs ! f \<noteq> PINNED"
  by (simp add: live_frames_def)

lemma fa_inv_new: "nframes < 2 ^ 32 \<Longrightarrow> fa_new nframes = Some fa \<Longrightarrow> fa_inv fa"
  by (auto simp: fa_new_def fa_inv_def live_frames_def nth_list_update split: if_splits)

subsection \<open>Frame addresses\<close>

lemma frame_of_Some:
  "frame_of fa pa = Some f \<longleftrightarrow> unat pa = f * PAGE_SIZE \<and> f < length (fa_refcount fa)"
  by (auto simp: frame_of_def Let_def PAGE_SIZE_def split: if_splits)

lemma frame_of_less: "frame_of fa pa = Some f \<Longrightarrow> f < length (fa_refcount fa)"
  by (simp add: frame_of_Some)

lemma frame_of_inj: "frame_of fa pa = Some f \<Longrightarrow> frame_of fa pa' = Some f \<Longrightarrow> pa = pa'"
  by (simp add: frame_of_Some word_unat_eq_iff)

lemma frame_of_cong: "length (fa_refcount fa') = length (fa_refcount fa) \<Longrightarrow> frame_of fa' pa = frame_of fa pa"
  by (simp add: frame_of_def Let_def)

lemma unat_frame_pa: "f * PAGE_SIZE < 2 ^ 64 \<Longrightarrow> unat (frame_pa f) = f * PAGE_SIZE"
  by (simp add: frame_pa_def unat_word_of_nat_eq del: of_nat_mult)

lemma frame_of_frame_pa:
  "f < length (fa_refcount fa) \<Longrightarrow> pool_fits fa pm \<Longrightarrow> frame_of fa (frame_pa f) = Some f"
proof -
  assume f: "f < length (fa_refcount fa)" and p: "pool_fits fa pm"
  have "f * PAGE_SIZE \<le> length (fa_refcount fa) * PAGE_SIZE" using f by simp
  also have "\<dots> < 2 ^ 64" using p by (simp add: pool_fits_def)
  finally have "f * PAGE_SIZE < 2 ^ 64" .
  then show ?thesis using f by (simp add: frame_of_Some unat_frame_pa)
qed

subsection \<open>Every operation keeps the invariant\<close>

lemma fa_inv_free_list: "fa_inv fa \<Longrightarrow> f \<in> set (fa_free_list fa) \<longleftrightarrow> f < length (fa_refcount fa) \<and> fa_refcount fa ! f = 0"
  by (auto simp: fa_inv_def)

lemma fa_inv_nonzero: "fa_inv fa \<Longrightarrow> fa_refcount fa ! f \<noteq> PINNED \<Longrightarrow> f \<noteq> 0"
  by (auto simp: fa_inv_def)

lemma fa_inv_le: "fa_inv fa \<Longrightarrow> f < length (fa_refcount fa) \<Longrightarrow> fa_refcount fa ! f \<le> PINNED"
  by (simp add: fa_inv_def)

lemma list_update_bounded:
  "\<forall>g < length xs. xs ! g \<le> b \<Longrightarrow> v \<le> b \<Longrightarrow> \<forall>g < length xs. xs[f := v] ! g \<le> (b :: nat)"
  by (metis nth_list_update_eq nth_list_update_neq)

lemma fa_inv_take [inv_intros]:
  assumes "fa_inv fa" "fa_free_list fa = f # rest"
  shows "fa_inv (fa\<lparr>fa_free_list := rest, fa_refcount := (fa_refcount fa)[f := Suc 0],
                    fa_allocated := Suc (fa_allocated fa)\<rparr>)"
proof -
  have f: "f < length (fa_refcount fa)" "fa_refcount fa ! f = 0"
    using assms fa_inv_free_list [OF assms(1), of f] by simp_all
  then have f0: "f \<noteq> 0" using fa_inv_nonzero [OF assms(1), of f] by simp
  have "card (live_frames ((fa_refcount fa)[f := Suc 0])) = Suc (card (live_frames (fa_refcount fa)))"
    using f by (simp add: card_live_update in_live_frames)
  moreover have "{g. g < length (fa_refcount fa) \<and> (fa_refcount fa)[f := Suc 0] ! g = 0}
      = {g. g < length (fa_refcount fa) \<and> fa_refcount fa ! g = 0} - {f}"
    using f by (auto simp: nth_list_update)
  moreover have "\<forall>g < length (fa_refcount fa). (fa_refcount fa)[f := Suc 0] ! g \<le> PINNED"
    using fa_inv_le [OF assms(1)] by (intro list_update_bounded) (auto simp: PINNED_def)
  moreover have "set rest = set (fa_free_list fa) - {f}" "distinct rest"
    using assms by (auto simp: fa_inv_def)
  ultimately show ?thesis
    using assms(1) f0 unfolding fa_inv_def by simp
qed

lemma fa_alloc_inv [inv_intros]:
  "fa_inv fa \<Longrightarrow> fa_alloc fa pm = Some (r, fa', pm') \<Longrightarrow> fa_inv fa'"
  by (auto simp: fa_alloc_def Let_def intro!: fa_inv_take split: if_splits list.splits bind_splits)

lemma fa_set_reserve_inv [inv_intros]: "fa_inv fa \<Longrightarrow> fa_inv (fa_set_reserve fa n)"
  by (simp add: fa_inv_def fa_set_reserve_def)

lemma fa_set_use_reserve_inv [inv_intros]: "fa_inv fa \<Longrightarrow> fa_inv (fa_set_use_reserve fa b)"
  by (simp add: fa_inv_def fa_set_use_reserve_def)

lemma fa_inv_recount:
  assumes "fa_inv fa" "f \<in> live_frames (fa_refcount fa)" "0 < v" "v < PINNED"
  shows "fa_inv (fa\<lparr>fa_refcount := (fa_refcount fa)[f := v]\<rparr>)"
proof -
  have f: "f < length (fa_refcount fa)" "f \<noteq> 0" "fa_refcount fa ! f \<noteq> 0"
    using assms(1,2) fa_inv_nonzero [of fa f] by (auto simp: in_live_frames)
  have "card (live_frames ((fa_refcount fa)[f := v])) = card (live_frames (fa_refcount fa))"
    using assms f(1) by (simp add: card_live_update)
  moreover have "{g. g < length (fa_refcount fa) \<and> (fa_refcount fa)[f := v] ! g = 0}
      = {g. g < length (fa_refcount fa) \<and> fa_refcount fa ! g = 0}"
    using assms(3) f by (auto simp: nth_list_update)
  moreover have "\<forall>g < length (fa_refcount fa). (fa_refcount fa)[f := v] ! g \<le> PINNED"
    using fa_inv_le [OF assms(1)] assms(4) by (intro list_update_bounded) auto
  ultimately show ?thesis
    using assms(1) f(2) unfolding fa_inv_def by simp
qed

lemma fa_inv_give_back:
  assumes "fa_inv fa" "f < length (fa_refcount fa)" "fa_refcount fa ! f = 1"
  shows "fa_inv (fa\<lparr>fa_refcount := (fa_refcount fa)[f := 0],
                    fa_allocated := fa_allocated fa - 1, fa_free_list := f # fa_free_list fa\<rparr>)"
proof -
  have f: "f \<noteq> 0" "f \<notin> set (fa_free_list fa)" "f \<in> live_frames (fa_refcount fa)"
    using assms fa_inv_nonzero [of fa f] by (auto simp: fa_inv_free_list in_live_frames)
  have "card (live_frames ((fa_refcount fa)[f := 0])) = card (live_frames (fa_refcount fa)) - 1"
    using assms(2) f(3) by (simp add: card_live_update)
  moreover have "{g. g < length (fa_refcount fa) \<and> (fa_refcount fa)[f := 0] ! g = 0}
      = insert f {g. g < length (fa_refcount fa) \<and> fa_refcount fa ! g = 0}"
    using assms(2) by (auto simp: nth_list_update)
  moreover have "\<forall>g < length (fa_refcount fa). (fa_refcount fa)[f := 0] ! g \<le> PINNED"
    using fa_inv_le [OF assms(1)] by (intro list_update_bounded) auto
  ultimately show ?thesis
    using assms(1) f(1,2) unfolding fa_inv_def by simp
qed

lemma fa_incref_inv [inv_intros]:
  assumes "fa_inv fa" "0 < fa_rc fa pa" "fa_rc fa pa \<noteq> PINNED - 1"
  shows "fa_inv (fa_incref fa pa)"
proof (cases "frame_of fa pa")
  case (Some f)
  then have f: "f < length (fa_refcount fa)" by (rule frame_of_less)
  have rc: "0 < fa_refcount fa ! f" "fa_refcount fa ! f \<noteq> PINNED - 1"
    using assms(2,3) Some by (simp_all add: fa_rc_def)
  show ?thesis
  proof (cases "fa_refcount fa ! f = PINNED")
    case True
    with assms(1) Some show ?thesis by (simp add: fa_incref_def)
  next
    case False
    with rc fa_inv_le [OF assms(1) f] have lt: "fa_refcount fa ! f + 1 < PINNED" by linarith
    then have "min (fa_refcount fa ! f + 1) (2 ^ 32 - 1) = fa_refcount fa ! f + 1"
      unfolding PINNED_def by linarith
    moreover have "f \<in> live_frames (fa_refcount fa)"
      using f rc False by (simp add: in_live_frames)
    ultimately show ?thesis
      using fa_inv_recount [OF assms(1), of f "fa_refcount fa ! f + 1"] lt Some False
      by (simp add: fa_incref_def Let_def)
  qed
qed (use assms(1) in \<open>simp add: fa_incref_def\<close>)

lemma fa_decref_inv [inv_intros]:
  assumes "fa_inv fa"
  shows "fa_inv (fa_decref fa pa)"
proof (cases "frame_of fa pa")
  case (Some f)
  then have f: "f < length (fa_refcount fa)" by (rule frame_of_less)
  consider "fa_refcount fa ! f = PINNED \<or> fa_refcount fa ! f = 0" | "fa_refcount fa ! f = 1"
    | "1 < fa_refcount fa ! f" "fa_refcount fa ! f \<noteq> PINNED" by linarith
  then show ?thesis
  proof cases
    case 1
    with assms Some show ?thesis by (auto simp: fa_decref_def Let_def)
  next
    case 2
    with fa_inv_give_back [OF assms f] Some show ?thesis by (simp add: fa_decref_def Let_def)
  next
    case 3
    with f fa_inv_le [OF assms f]
    have "fa_inv (fa\<lparr>fa_refcount := (fa_refcount fa)[f := fa_refcount fa ! f - 1]\<rparr>)"
      by (intro fa_inv_recount [OF assms]) (auto simp: in_live_frames)
    with 3 Some show ?thesis by (simp add: fa_decref_def Let_def)
  qed
qed (use assms in \<open>simp add: fa_decref_def\<close>)

lemma fa_free_inv [inv_intros]: "fa_inv fa \<Longrightarrow> fa_inv (fa_free fa pa)"
  by (simp add: fa_free_def fa_decref_inv)

text \<open>
  Pinning leaves the free list alone, so between the loop and the final \<^verbatim>\<open>retain\<close> only the rest
  of the invariant holds; \<open>retain\<close> restores it.
\<close>

lemma fa_pin1_sel [simp]:
  "fa_free_list (fa_pin1 fa f) = fa_free_list fa"
  "fa_reserve (fa_pin1 fa f) = fa_reserve fa"
  "fa_refcount (fa_pin1 fa f) = (fa_refcount fa)[f := PINNED]"
  by (simp_all add: fa_pin1_def)

lemma fa_pin_frame [simp]:
  "fa_free_list (fa_pin fa fs) = fa_free_list fa"
  "fa_reserve (fa_pin fa fs) = fa_reserve fa"
  "length (fa_refcount (fa_pin fa fs)) = length (fa_refcount fa)"
  by (induction fa fs rule: fa_pin.induct) simp_all

lemma fa_pin_refcount:
  "\<forall>f \<in> set fs. f < length (fa_refcount fa) \<Longrightarrow> g < length (fa_refcount fa) \<Longrightarrow>
   fa_refcount (fa_pin fa fs) ! g = (if g \<in> set fs then PINNED else fa_refcount fa ! g)"
  by (induction fa fs rule: fa_pin.induct) (simp_all add: nth_list_update)

lemma fa_pin1_allocated:
  "f < length (fa_refcount fa) \<Longrightarrow> fa_allocated fa = card (live_frames (fa_refcount fa)) \<Longrightarrow>
   fa_allocated (fa_pin1 fa f) = card (live_frames (fa_refcount (fa_pin1 fa f)))"
  by (auto simp: fa_pin1_def card_live_update in_live_frames)

lemma fa_pin_allocated:
  "\<forall>f \<in> set fs. f < length (fa_refcount fa) \<Longrightarrow> fa_allocated fa = card (live_frames (fa_refcount fa)) \<Longrightarrow>
   fa_allocated (fa_pin fa fs) = card (live_frames (fa_refcount (fa_pin fa fs)))"
proof (induction fa fs rule: fa_pin.induct)
  case (2 fa f fs)
  from 2(2,3) have "fa_allocated (fa_pin1 fa f) = card (live_frames (fa_refcount (fa_pin1 fa f)))"
    by (intro fa_pin1_allocated) simp_all
  with 2(1,2) show ?case by simp
qed simp

lemma fa_reserve_range_inv [inv_intros]:
  assumes "fa_inv fa" "fa_reserve_range fa pa len = Some fa'"
  shows "fa_inv fa'"
proof (cases "len = 0")
  case False
  define fs where "fs = [unat pa div PAGE_SIZE..<(unat pa + unat len + PAGE_SIZE - 1) div PAGE_SIZE]"
  define fp where "fp = fa_pin fa fs"
  from assms(2) False have fa': "fa' = fp\<lparr>fa_free_list :=
      filter (\<lambda>f. fa_refcount fp ! f \<noteq> PINNED) (fa_free_list fp)\<rparr>"
    and fs: "\<forall>f \<in> set fs. f < length (fa_refcount fa)"
    by (auto simp: fa_reserve_range_def Let_def fs_def fp_def split: if_splits)
  have rc: "g < length (fa_refcount fa) \<Longrightarrow>
      fa_refcount fp ! g = (if g \<in> set fs then PINNED else fa_refcount fa ! g)" for g
    unfolding fp_def by (rule fa_pin_refcount [OF fs])
  have al: "fa_allocated fp = card (live_frames (fa_refcount fp))"
    unfolding fp_def using assms(1) by (intro fa_pin_allocated [OF fs]) (simp add: fa_inv_def)
  have len: "length (fa_refcount fp) = length (fa_refcount fa)" "fa_free_list fp = fa_free_list fa"
    by (simp_all add: fp_def)
  have "set (filter (\<lambda>f. fa_refcount fp ! f \<noteq> PINNED) (fa_free_list fa))
      = {f. f < length (fa_refcount fa) \<and> fa_refcount fp ! f = 0}"
    by (auto simp: rc fa_inv_free_list [OF assms(1)] split: if_splits)
  moreover have ne: "0 < length (fa_refcount fa)" and "fa_refcount fa ! 0 = PINNED"
    using assms(1) by (simp_all add: fa_inv_def)
  moreover from this have "fa_refcount fp ! 0 = PINNED" using rc [OF ne] by simp
  moreover have "\<forall>g < length (fa_refcount fa). fa_refcount fp ! g \<le> PINNED"
    using fa_inv_le [OF assms(1)] by (simp add: rc)
  moreover have "distinct (fa_free_list fa)" using assms(1) by (simp add: fa_inv_def)
  ultimately show ?thesis
    using al unfolding fa' fa_inv_def by (simp add: len)
qed (use assms in \<open>simp add: fa_reserve_range_def\<close>)
subsection \<open>What the allocator promises its clients\<close>

text \<open>
  The interface the page tables rely on: \<open>rc\<close> is the number of owners of a frame, a frame handed
  out had none, and counting up and down affects that frame only. The laws for \<open>incref\<close> and
  \<open>decref\<close> hold for a live frame, one that has an owner and is not pinned; a pinned one is left alone.
\<close>

locale frame_pool =
  fixes inv :: "'s \<Rightarrow> bool"
    and rc :: "'s \<Rightarrow> u64 \<Rightarrow> nat"
    and alloc :: "'s \<Rightarrow> (u64 option \<times> 's) option"
    and incref :: "'s \<Rightarrow> u64 \<Rightarrow> 's"
    and decref :: "'s \<Rightarrow> u64 \<Rightarrow> 's"
  assumes alloc_total: "inv s \<Longrightarrow> alloc s \<noteq> None"
    and alloc_inv: "inv s \<Longrightarrow> alloc s = Some (r, s') \<Longrightarrow> inv s'"
    and alloc_fresh: "inv s \<Longrightarrow> alloc s = Some (Some pa, s') \<Longrightarrow> rc s pa = 0"
    and alloc_rc: "inv s \<Longrightarrow> alloc s = Some (Some pa, s') \<Longrightarrow> rc s' = (rc s)(pa := 1)"
    and alloc_none: "alloc s = Some (None, s') \<Longrightarrow> s' = s"
    and incref_inv: "inv s \<Longrightarrow> 0 < rc s pa \<Longrightarrow> rc s pa \<noteq> PINNED - 1 \<Longrightarrow> inv (incref s pa)"
    and incref_rc: "inv s \<Longrightarrow> 0 < rc s pa \<Longrightarrow> rc s pa < PINNED - 1 \<Longrightarrow>
        rc (incref s pa) = (rc s)(pa := rc s pa + 1)"
    and decref_inv: "inv s \<Longrightarrow> inv (decref s pa)"
    and decref_rc: "inv s \<Longrightarrow> rc s pa \<noteq> PINNED \<Longrightarrow> rc (decref s pa) = (rc s)(pa := rc s pa - 1)"
begin

text \<open>A frame with an owner is never handed out again, and two allocations never collide.\<close>

lemma alloc_not_owned: "inv s \<Longrightarrow> alloc s = Some (Some pa, s') \<Longrightarrow> 0 < rc s q \<Longrightarrow> q \<noteq> pa"
  using alloc_fresh by fastforce

lemma alloc_keeps_owners: "inv s \<Longrightarrow> alloc s = Some (Some pa, s') \<Longrightarrow> 0 < rc s q \<Longrightarrow> rc s' q = rc s q"
  by (metis alloc_not_owned alloc_rc fun_upd_other)

lemma two_allocs_distinct:
  assumes "inv s" "alloc s = Some (Some pa, s1)" "alloc s1 = Some (Some pb, s2)"
  shows "pa \<noteq> pb"
proof -
  have "rc s1 pa = 1" using alloc_rc [OF assms(1,2)] by simp
  then show ?thesis
    using alloc_not_owned [OF alloc_inv [OF assms(1,2)] assms(3), of pa] by simp
qed

text \<open>Sharing a frame and dropping the share restores every count.\<close>

lemma incref_decref:
  assumes "inv s" "0 < rc s pa" "rc s pa < PINNED - 1"
  shows "rc (decref (incref s pa) pa) = rc s"
proof -
  have "rc (incref s pa) = (rc s)(pa := rc s pa + 1)"
    by (rule incref_rc [OF assms])
  moreover have "inv (incref s pa)" using assms by (intro incref_inv) auto
  moreover have "rc s pa + 1 \<noteq> PINNED" using assms(3) by linarith
  ultimately show ?thesis by (simp add: decref_rc)
qed

text \<open>Dropping the only owner returns the frame: its count is zero again.\<close>

lemma alloc_decref:
  assumes "inv s" "alloc s = Some (Some pa, s')"
  shows "rc (decref s' pa) = rc s"
proof -
  have "rc (decref s' pa) = (rc s')(pa := rc s' pa - 1)"
    using alloc_rc [OF assms] by (intro decref_rc alloc_inv [OF assms]) simp
  then show ?thesis
    using alloc_rc [OF assms] alloc_fresh [OF assms] by (simp add: fun_upd_idem)
qed

end

type_synonym pool = "frame_alloc \<times> physmem"

definition pool_inv :: "pool \<Rightarrow> bool" where
  "pool_inv s \<longleftrightarrow> fa_inv (fst s) \<and> pool_fits (fst s) (snd s)"

definition pool_alloc :: "pool \<Rightarrow> (u64 option \<times> pool) option" where
  "pool_alloc s = fa_alloc (fst s) (snd s)"

definition pool_incref :: "pool \<Rightarrow> u64 \<Rightarrow> pool" where
  "pool_incref s pa = (fa_incref (fst s) pa, snd s)"

definition pool_decref :: "pool \<Rightarrow> u64 \<Rightarrow> pool" where
  "pool_decref s pa = (fa_decref (fst s) pa, snd s)"

definition pool_rc :: "pool \<Rightarrow> u64 \<Rightarrow> nat" where
  "pool_rc s pa = fa_rc (fst s) pa"

lemma pool_fits_frame:
  "pool_fits fa pm \<Longrightarrow> f < length (fa_refcount fa) \<Longrightarrow> f * PAGE_SIZE + PAGE_SIZE \<le> pm_size pm"
proof -
  assume p: "pool_fits fa pm" and f: "f < length (fa_refcount fa)"
  have "Suc f * PAGE_SIZE \<le> length (fa_refcount fa) * PAGE_SIZE"
    using f by (intro mult_le_mono1) simp
  with p show ?thesis by (simp add: pool_fits_def)
qed

lemma unat_frame_pa_pool:
  "pool_fits fa pm \<Longrightarrow> f < length (fa_refcount fa) \<Longrightarrow> unat (frame_pa f) = f * PAGE_SIZE"
  using pool_fits_frame [of fa pm f] by (intro unat_frame_pa) (simp add: pool_fits_def)

lemma zero_frame_ok:
  assumes "pool_fits fa pm" "f < length (fa_refcount fa)"
  shows "phys_zero_frame pm (frame_pa f) =
    Some (pm\<lparr>pm_mem := mem_store (pm_mem pm) (f * PAGE_SIZE) (replicate PAGE_SIZE 0)\<rparr>)"
  using pool_fits_frame [OF assms] unat_frame_pa_pool [OF assms] assms(1)
  by (simp add: phys_zero_frame_def in_bounds_def pool_fits_def)

text \<open>The two outcomes of an allocation, with everything they change.\<close>

lemma fa_alloc_cases:
  assumes "fa_inv fa" "pool_fits fa pm" "fa_alloc fa pm = Some (r, fa', pm')"
  obtains (full) "r = None" "fa' = fa" "pm' = pm"
  | (got) f rest where "fa_free_list fa = f # rest" "f < length (fa_refcount fa)" "f \<noteq> 0"
      "fa_refcount fa ! f = 0" "r = Some (frame_pa f)"
      "fa' = fa\<lparr>fa_free_list := rest, fa_refcount := (fa_refcount fa)[f := 1],
                fa_allocated := fa_allocated fa + 1\<rparr>"
      "pm' = pm\<lparr>pm_mem := mem_store (pm_mem pm) (f * PAGE_SIZE) (replicate PAGE_SIZE 0)\<rparr>"
proof (cases "fa_free_list fa")
  case Nil
  with assms(3) full show ?thesis by (simp add: fa_alloc_def split: if_splits)
next
  case (Cons f rest)
  then have f: "f < length (fa_refcount fa)" "fa_refcount fa ! f = 0"
    using fa_inv_free_list [OF assms(1), of f] by simp_all
  then have "f \<noteq> 0" using fa_inv_nonzero [OF assms(1)] by simp
  with assms(3) Cons f full got [of f rest] zero_frame_ok [OF assms(2) f(1)] show ?thesis
    by (auto simp: fa_alloc_def Let_def split: if_splits)
qed

lemma fa_alloc_total:
  assumes "fa_inv fa" "pool_fits fa pm"
  shows "fa_alloc fa pm \<noteq> None"
proof (cases "fa_free_list fa")
  case (Cons f rest)
  then have "f < length (fa_refcount fa)" using fa_inv_free_list [OF assms(1), of f] by simp
  from zero_frame_ok [OF assms(2) this] Cons show ?thesis by (simp add: fa_alloc_def Let_def)
qed (simp add: fa_alloc_def)

lemma fa_alloc_fits:
  "pool_fits fa pm \<Longrightarrow> fa_alloc fa pm = Some (r, fa', pm') \<Longrightarrow> pool_fits fa' pm'"
  by (auto simp: fa_alloc_def Let_def phys_zero_frame_def pool_fits_def
      split: if_splits list.splits bind_splits)

lemma fa_rc_update:
  assumes "frame_of fa pa = Some f"
    and "fa_refcount fa' = (fa_refcount fa)[f := v]"
  shows "fa_rc fa' = (fa_rc fa)(pa := v)"
proof
  fix q
  have c: "frame_of fa' q = frame_of fa q" by (rule frame_of_cong) (simp add: assms(2))
  have f: "f < length (fa_refcount fa)" by (rule frame_of_less [OF assms(1)])
  show "fa_rc fa' q = ((fa_rc fa)(pa := v)) q"
  proof (cases "q = pa")
    case True
    with c assms f show ?thesis by (simp add: fa_rc_def)
  next
    case False
    then have "frame_of fa q \<noteq> Some f" using frame_of_inj [OF assms(1)] by blast
    with False c assms(2) show ?thesis by (auto simp: fa_rc_def split: option.splits)
  qed
qed

lemma fa_rc_pos: "0 < fa_rc fa pa \<Longrightarrow> \<exists>f. frame_of fa pa = Some f \<and> fa_rc fa pa = fa_refcount fa ! f"
  by (auto simp: fa_rc_def split: option.splits)

lemma fa_incref_rc:
  assumes "0 < fa_rc fa pa" "fa_rc fa pa < PINNED - 1"
  shows "fa_rc (fa_incref fa pa) = (fa_rc fa)(pa := fa_rc fa pa + 1)"
proof -
  from fa_rc_pos [OF assms(1)] obtain f where f: "frame_of fa pa = Some f" "fa_rc fa pa = fa_refcount fa ! f"
    by blast
  have "min (fa_refcount fa ! f + 1) (2 ^ 32 - 1) = fa_refcount fa ! f + 1"
    using assms(2) f(2) unfolding PINNED_def by linarith
  moreover have "fa_refcount fa ! f \<noteq> PINNED" using assms(2) f(2) by linarith
  ultimately show ?thesis using f
    by (intro fa_rc_update [OF f(1)]) (simp add: fa_incref_def Let_def)
qed

lemma fa_decref_rc:
  assumes "fa_rc fa pa \<noteq> PINNED"
  shows "fa_rc (fa_decref fa pa) = (fa_rc fa)(pa := fa_rc fa pa - 1)"
proof (cases "frame_of fa pa")
  case None
  then show ?thesis by (simp add: fa_decref_def fa_rc_def fun_upd_idem)
next
  case (Some f)
  then have rc: "fa_rc fa pa = fa_refcount fa ! f" by (simp add: fa_rc_def)
  show ?thesis
  proof (cases "fa_refcount fa ! f = 0")
    case True
    with Some rc show ?thesis by (simp add: fa_decref_def fun_upd_idem)
  next
    case False
    with Some rc assms show ?thesis
      by (intro fa_rc_update [OF Some]) (simp add: fa_decref_def Let_def)
  qed
qed

lemma fa_length_ops [simp]:
  "length (fa_refcount (fa_incref fa pa)) = length (fa_refcount fa)"
  "length (fa_refcount (fa_decref fa pa)) = length (fa_refcount fa)"
  by (auto simp: fa_incref_def fa_decref_def Let_def split: option.splits)

lemma fa_alloc_rc:
  assumes "fa_inv fa" "pool_fits fa pm" "fa_alloc fa pm = Some (Some pa, fa', pm')"
  shows "fa_rc fa pa = 0" and "fa_rc fa' = (fa_rc fa)(pa := 1)"
proof -
  from assms obtain f rest where f: "f < length (fa_refcount fa)" "fa_refcount fa ! f = 0" "pa = frame_pa f"
      "fa_refcount fa' = (fa_refcount fa)[f := 1]"
    by (rule fa_alloc_cases) auto
  have fo: "frame_of fa pa = Some f" using frame_of_frame_pa [OF f(1) assms(2)] f(3) by simp
  show "fa_rc fa pa = 0" using fo f(2) by (simp add: fa_rc_def)
  show "fa_rc fa' = (fa_rc fa)(pa := 1)" by (rule fa_rc_update [OF fo f(4)])
qed

interpretation pool: frame_pool pool_inv pool_rc pool_alloc pool_incref pool_decref
proof (unfold_locales, goal_cases)
  case (1 s)
  then show ?case by (simp add: pool_inv_def pool_alloc_def fa_alloc_total)
next
  case (2 s r s')
  then show ?case
    by (cases s') (auto simp: pool_inv_def pool_alloc_def intro: fa_alloc_inv fa_alloc_fits)
next
  case (3 s pa s')
  then show ?case
    by (cases s') (auto simp: pool_inv_def pool_alloc_def pool_rc_def dest: fa_alloc_rc(1))
next
  case (4 s pa s')
  then show ?case
    by (cases s') (auto simp: pool_inv_def pool_alloc_def pool_rc_def [abs_def] dest: fa_alloc_rc(2))
next
  case (5 s s')
  then show ?case
    by (auto simp: pool_alloc_def fa_alloc_def Let_def split: if_splits list.splits bind_splits)
next
  case (6 s pa)
  then show ?case by (simp add: pool_inv_def pool_incref_def pool_rc_def fa_incref_inv pool_fits_def)
next
  case (7 s pa)
  then show ?case by (simp add: pool_rc_def [abs_def] pool_incref_def fa_incref_rc)
next
  case (8 s pa)
  then show ?case by (simp add: pool_inv_def pool_decref_def fa_decref_inv pool_fits_def)
next
  case (9 s pa)
  then show ?case by (simp add: pool_rc_def [abs_def] pool_decref_def fa_decref_rc)
qed
subsection \<open>Pools as machines\<close>

text \<open>
  The steps of a pool: every allocator operation, and byte writes by whoever holds a frame. An
  \<^verbatim>\<open>incref\<close> is taken of a frame that has an owner (the code's debug assertion) and never
  reaches the sentinel; the other operations have no precondition.
\<close>

inductive pool_step :: "pool \<Rightarrow> pool \<Rightarrow> bool" where
  step_alloc: "fa_alloc fa pm = Some (r, fa', pm') \<Longrightarrow> pool_step (fa, pm) (fa', pm')"
| step_incref: "0 < fa_rc fa pa \<Longrightarrow> fa_rc fa pa \<noteq> PINNED - 1 \<Longrightarrow>
    pool_step (fa, pm) (fa_incref fa pa, pm)"
| step_decref: "pool_step (fa, pm) (fa_decref fa pa, pm)"
| step_free: "pool_step (fa, pm) (fa_free fa pa, pm)"
| step_reserve_range: "fa_reserve_range fa pa len = Some fa' \<Longrightarrow> pool_step (fa, pm) (fa', pm)"
| step_set_reserve: "pool_step (fa, pm) (fa_set_reserve fa n, pm)"
| step_use_reserve: "pool_step (fa, pm) (fa_set_use_reserve fa b, pm)"
| step_write: "phys_write pm pa bs = Some pm' \<Longrightarrow> pool_step (fa, pm) (fa, pm')"
| step_write_u64: "phys_write_u64_atomic pm pa v = Some pm' \<Longrightarrow> pool_step (fa, pm) (fa, pm')"
| step_copy_frame: "phys_copy_frame pm dst src = Some pm' \<Longrightarrow> pool_step (fa, pm) (fa, pm')"

inductive pool_reach :: "pool \<Rightarrow> bool" where
  reach_new: "bytes \<le> 2 ^ 40 \<Longrightarrow> pm = phys_new bytes \<Longrightarrow> fa_new (phys_nframes pm) = Some fa \<Longrightarrow>
    pool_reach (fa, pm)"
| reach_step: "pool_reach s \<Longrightarrow> pool_step s s' \<Longrightarrow> pool_reach s'"

lemma next_multiple_of_bounds:
  assumes "0 < k"
  shows "n \<le> next_multiple_of n k" "next_multiple_of n k < n + k" "next_multiple_of n k mod k = 0"
proof -
  have "n + k - 1 = (n + k - 1) div k * k + (n + k - 1) mod k" by simp
  moreover have "(n + k - 1) mod k < k" using assms by simp
  ultimately show "n \<le> next_multiple_of n k" "next_multiple_of n k < n + k"
    using assms unfolding next_multiple_of_def by linarith+
  show "next_multiple_of n k mod k = 0" by (simp add: next_multiple_of_def)
qed

lemma phys_new_size:
  "pm_size (phys_new n) mod HOST_PAGE = 0" "n \<le> pm_size (phys_new n)"
  "pm_size (phys_new n) < n + PAGE_SIZE + 2 * HOST_PAGE"
proof -
  let ?a = "max (next_multiple_of n PAGE_SIZE) PAGE_SIZE"
  have a: "n \<le> ?a" "?a < n + PAGE_SIZE + 1"
    using next_multiple_of_bounds [of PAGE_SIZE n] by (auto simp: PAGE_SIZE_def)
  have b: "?a \<le> next_multiple_of ?a HOST_PAGE" "next_multiple_of ?a HOST_PAGE < ?a + HOST_PAGE"
    "next_multiple_of ?a HOST_PAGE mod HOST_PAGE = 0"
    using next_multiple_of_bounds [of HOST_PAGE ?a] by (simp_all add: HOST_PAGE_def)
  have c: "pm_size (phys_new n) = max (next_multiple_of ?a HOST_PAGE) HOST_PAGE"
    by (simp add: phys_new_def region_len_def)
  show "pm_size (phys_new n) mod HOST_PAGE = 0" using b(3) by (simp add: c max_def)
  show "n \<le> pm_size (phys_new n)" using a(1) b(1) unfolding c by linarith
  show "pm_size (phys_new n) < n + PAGE_SIZE + 2 * HOST_PAGE"
    using a b unfolding c by (simp add: HOST_PAGE_def)
qed

lemma pool_inv_new:
  assumes "bytes \<le> 2 ^ 40" "fa_new (phys_nframes (phys_new bytes)) = Some fa"
  shows "pool_inv (fa, phys_new bytes)"
proof -
  have sz: "pm_size (phys_new bytes) < 2 ^ 41"
    using assms(1) phys_new_size(3) [of bytes] by (simp add: PAGE_SIZE_def HOST_PAGE_def)
  then have n: "phys_nframes (phys_new bytes) < 2 ^ 32"
    by (simp add: phys_nframes_def PAGE_SIZE_def)
  then have "fa_inv fa" using assms(2) by (rule fa_inv_new)
  moreover have "length (fa_refcount fa) = phys_nframes (phys_new bytes)"
    using assms(2) by (auto simp: fa_new_def split: if_splits)
  ultimately show ?thesis
    using sz by (simp add: pool_inv_def pool_fits_def phys_nframes_def)
qed

lemma fa_reserve_range_length:
  "fa_reserve_range fa pa len = Some fa' \<Longrightarrow> length (fa_refcount fa') = length (fa_refcount fa)"
  by (auto simp: fa_reserve_range_def Let_def split: if_splits)

lemma pm_size_write [simp]:
  "phys_write pm pa bs = Some pm' \<Longrightarrow> pm_size pm' = pm_size pm"
  "phys_write_u64_atomic pm pa v = Some pm' \<Longrightarrow> pm_size pm' = pm_size pm"
  "phys_copy_frame pm dst src = Some pm' \<Longrightarrow> pm_size pm' = pm_size pm"
  "phys_zero_frame pm pa = Some pm' \<Longrightarrow> pm_size pm' = pm_size pm"
  by (auto simp: phys_write_def phys_write_u64_atomic_def phys_copy_frame_def phys_zero_frame_def
      split: if_splits)

lemma pool_step_inv: "pool_step s s' \<Longrightarrow> pool_inv s \<Longrightarrow> pool_inv s'"
proof (induction rule: pool_step.induct)
  case (step_alloc fa pm r fa' pm')
  then show ?case by (auto simp: pool_inv_def intro: fa_alloc_inv fa_alloc_fits)
next
  case (step_incref fa pa pm)
  then show ?case by (simp add: pool_inv_def pool_fits_def fa_incref_inv)
next
  case (step_reserve_range fa pa len fa' pm)
  then show ?case
    by (auto simp: pool_inv_def pool_fits_def fa_reserve_range_length intro: fa_reserve_range_inv)
next
  case (step_set_reserve fa pm n)
  then show ?case by (simp add: pool_inv_def pool_fits_def fa_set_reserve_def fa_inv_def)
next
  case (step_use_reserve fa pm b)
  then show ?case by (simp add: pool_inv_def pool_fits_def fa_set_use_reserve_def fa_inv_def)
qed (auto simp: pool_inv_def pool_fits_def fa_decref_inv fa_free_def)

lemma pool_reach_pool_inv: "pool_reach s \<Longrightarrow> pool_inv s"
  by (induction rule: pool_reach.induct) (auto intro: pool_inv_new pool_step_inv)

lemma fa_alloc_contents:
  assumes "fa_inv fa" "pool_fits fa pm" "fa_alloc fa pm = Some (Some pa, fa', pm')"
  shows "mem_load (pm_mem pm') (unat pa) PAGE_SIZE = replicate PAGE_SIZE 0"
    and "i < unat pa \<or> unat pa + PAGE_SIZE \<le> i \<Longrightarrow> pm_mem pm' i = pm_mem pm i"
proof -
  from assms obtain f where f: "f < length (fa_refcount fa)" "pa = frame_pa f"
      "pm' = pm\<lparr>pm_mem := mem_store (pm_mem pm) (f * PAGE_SIZE) (replicate PAGE_SIZE 0)\<rparr>"
    by (rule fa_alloc_cases) auto
  have pa: "unat pa = f * PAGE_SIZE" using unat_frame_pa_pool [OF assms(2) f(1)] f(2) by simp
  show "mem_load (pm_mem pm') (unat pa) PAGE_SIZE = replicate PAGE_SIZE 0"
    using mem_load_store_same [of "pm_mem pm" "f * PAGE_SIZE" "replicate PAGE_SIZE 0"] f(3) pa
    by simp
  show "pm_mem pm' i = pm_mem pm i" if "i < unat pa \<or> unat pa + PAGE_SIZE \<le> i"
    using that f(3) pa by (simp add: mem_store_outside)
qed

subsection \<open>Properties\<close>

text \<open>
  C1. In every state a pool can reach, whatever sequence of allocations, reference-count changes,
  reservations and writes led there, the allocator is consistent: the free list holds exactly the
  frames nobody owns, each once, frame 0 stays pinned, and the live count is exact.
\<close>

theorem frame_allocator_consistent:
  assumes "pool_reach (fa, pm)"
  shows "fa_inv fa \<and> distinct (fa_free_list fa) \<and> fa_refcount fa ! 0 = PINNED
    \<and> fa_alloc_count fa = card {f. f < length (fa_refcount fa) \<and> 0 < fa_refcount fa ! f \<and> fa_refcount fa ! f \<noteq> PINNED}
    \<and> (\<forall>f. f \<in> set (fa_free_list fa) \<longleftrightarrow> f < length (fa_refcount fa) \<and> fa_refcount fa ! f = 0)"
proof -
  have inv: "fa_inv fa" using pool_reach_pool_inv [OF assms] by (simp add: pool_inv_def)
  then have "distinct (fa_free_list fa)" "fa_refcount fa ! 0 = PINNED"
    "fa_alloc_count fa = card (live_frames (fa_refcount fa))"
    by (simp_all add: fa_inv_def fa_alloc_count_def)
  with inv fa_inv_free_list [OF inv] show ?thesis by (simp add: live_frames_def)
qed

definition example_pool :: pool where
  "example_pool =
     (\<lparr>fa_refcount = [PINNED, 0, 0, 0], fa_free_list = [1, 2, 3], fa_allocated = 0,
       fa_reserve = 0, fa_use_reserve = False\<rparr>, phys_new 16384)"

lemma example_pool_reach: "pool_reach example_pool"
proof -
  have "phys_nframes (phys_new 16384) = 4"
    by (simp add: phys_nframes_def phys_new_def region_len_def next_multiple_of_def PAGE_SIZE_def HOST_PAGE_def)
  moreover have "fa_new 4 = Some (fst example_pool)"
  proof -
    have "replicate 4 (0::nat) = [0, 0, 0, 0]" by (simp add: eval_nat_numeral)
    then show ?thesis by (simp add: fa_new_def example_pool_def upt_conv_Cons)
  qed
  ultimately show ?thesis
    using reach_new [of 16384 "phys_new 16384" "fst example_pool"] by (simp add: example_pool_def)
qed

theorem frame_allocator_consistent_witness:
  "fa_inv (fst example_pool) \<and> distinct (fa_free_list (fst example_pool))"
  using frame_allocator_consistent [of "fst example_pool" "snd example_pool"] example_pool_reach
  by simp
text \<open>
  C2. An allocation that succeeds hands out a frame that had no owner and is not the null frame,
  makes the caller its only owner without touching any other count, clears every byte of it and
  no other byte of the pool, and, unless the caller may dip into the reserve, leaves at least the
  reserve free.
\<close>

theorem frame_alloc_fresh:
  assumes "pool_reach (fa, pm)" "fa_alloc fa pm = Some (Some pa, fa', pm')"
  shows "fa_rc fa pa = 0 \<and> pa \<noteq> 0 \<and> fa_rc fa' = (fa_rc fa)(pa := 1)
    \<and> mem_load (pm_mem pm') (unat pa) PAGE_SIZE = replicate PAGE_SIZE 0
    \<and> (\<forall>i. i < unat pa \<or> unat pa + PAGE_SIZE \<le> i \<longrightarrow> pm_mem pm' i = pm_mem pm i)
    \<and> (fa_use_reserve fa \<or> fa_reserve fa \<le> fa_free_count fa')"
proof -
  have inv: "fa_inv fa" and fits: "pool_fits fa pm"
    using pool_reach_pool_inv [OF assms(1)] by (simp_all add: pool_inv_def)
  have rc: "fa_rc fa pa = 0" by (rule fa_alloc_rc(1) [OF inv fits assms(2)])
  have "fa_rc fa 0 = PINNED"
    using inv by (simp add: fa_rc_def frame_of_def fa_inv_def Let_def)
  with rc have "pa \<noteq> 0" by auto
  moreover have "fa_use_reserve fa \<or> fa_reserve fa \<le> fa_free_count fa'"
    using assms(2)
    by (auto simp: fa_alloc_def fa_free_count_def Let_def split: if_splits list.splits bind_splits)
  ultimately show ?thesis
    using rc fa_alloc_rc(2) [OF inv fits assms(2)] fa_alloc_contents [OF inv fits assms(2)]
    by blast
qed

theorem frame_alloc_fresh_witness:
  "\<exists>pa fa' pm'. fa_alloc (fst example_pool) (snd example_pool) = Some (Some pa, fa', pm')
     \<and> fa_rc (fst example_pool) pa = 0 \<and> mem_load (pm_mem pm') (unat pa) PAGE_SIZE = replicate PAGE_SIZE 0"
proof -
  obtain fa pm where p: "example_pool = (fa, pm)" by (cases example_pool)
  have r: "pool_reach (fa, pm)" using example_pool_reach p by simp
  have "pool_fits fa pm" using pool_reach_pool_inv [OF r] by (simp add: pool_inv_def)
  from zero_frame_ok [OF this, of 1] p obtain fa' pm' where
    a: "fa_alloc fa pm = Some (Some (frame_pa 1), fa', pm')"
    by (auto simp: example_pool_def fa_alloc_def Let_def)
  show ?thesis using frame_alloc_fresh [OF r a] a by (auto simp: p)
qed

end
