(* ===== verification/Page_Table.thy ===== *)
theory Page_Table
  imports Phys_Frames
begin

text \<open>
  Per-process page tables: \<^verbatim>\<open>src/vcpu/pagetable.rs\<close>. An address space is the physical address of
  its top table; the tables themselves are bytes of the pool, so every operation passes the pool
  along. An outer \<^const>\<open>None\<close> is a panic (a physical access outside the pool).
\<close>

unbundle bit_operations_syntax

subsection \<open>Protections and entries\<close>

type_synonym prot = u8

abbreviation "PROT_NONE \<equiv> (0 :: prot)"
abbreviation "PROT_READ \<equiv> (1 :: prot)"
abbreviation "PROT_WRITE \<equiv> (2 :: prot)"
abbreviation "PROT_EXEC \<equiv> (4 :: prot)"
abbreviation "PROT_RW \<equiv> (3 :: prot)"
abbreviation "PROT_RX \<equiv> (5 :: prot)"

definition prot_contains :: "prot \<Rightarrow> prot \<Rightarrow> bool" where
  "prot_contains p q \<longleftrightarrow> p AND q = q"

definition prot_read_only :: "prot \<Rightarrow> prot" where
  "prot_read_only p = p AND NOT PROT_WRITE"

abbreviation "PTE_P \<equiv> (1 :: u64)"
abbreviation "PTE_RW \<equiv> (2 :: u64)"
abbreviation "PTE_US \<equiv> (4 :: u64)"
abbreviation "PTE_NX \<equiv> (0x8000000000000000 :: u64)"
abbreviation "ADDR_MASK \<equiv> (0x000ffffffffff000 :: u64)"
abbreviation "INTERIOR \<equiv> (7 :: u64)"

definition ENTRIES :: nat where "ENTRIES = 512"

definition table_index :: "u64 \<Rightarrow> nat \<Rightarrow> u64" where
  "table_index vaddr level = drop_bit (12 + 9 * (level - 1)) vaddr AND 0x1ff"

definition leaf_flags :: "prot \<Rightarrow> bool \<Rightarrow> u64" where
  "leaf_flags prot supervisor =
     (let f0 = PTE_P;
          f1 = (if \<not> supervisor then f0 OR PTE_US else f0);
          f2 = (if prot_contains prot PROT_WRITE then f1 OR PTE_RW else f1)
      in if \<not> prot_contains prot PROT_EXEC then f2 OR PTE_NX else f2)"

definition leaf_prot :: "u64 \<Rightarrow> prot" where
  "leaf_prot entry =
     (let b0 = PROT_READ;
          b1 = (if entry AND PTE_RW \<noteq> 0 then b0 OR PROT_WRITE else b0)
      in if entry AND PTE_NX = 0 then b1 OR PROT_EXEC else b1)"

record translation =
  tr_paddr :: u64
  tr_prot :: prot
  tr_supervisor :: bool

datatype map_err = Retired | Misaligned u64 | OutOfFrames

subsection \<open>Walking and editing\<close>

definition pt_entry :: "physmem \<Rightarrow> u64 \<Rightarrow> u64 \<Rightarrow> u64 option" where
  "pt_entry pm table_pa idx = phys_read_u64 pm (table_pa + idx * 8)"

definition as_new :: "pool \<Rightarrow> (u64 option \<times> pool) option" where
  "as_new s = pool_alloc s"

definition next_or_alloc :: "u64 \<Rightarrow> u64 \<Rightarrow> pool \<Rightarrow> (u64 option \<times> pool) option" where
  "next_or_alloc table_pa idx s = do {
     e \<leftarrow> pt_entry (snd s) table_pa idx;
     if e AND PTE_P \<noteq> 0 then Some (Some (e AND ADDR_MASK), s)
     else do {
       (c, s1) \<leftarrow> pool_alloc s;
       (case c of
          None \<Rightarrow> Some (None, s1)
        | Some child \<Rightarrow> do {
            pm' \<leftarrow> phys_write_u64_atomic (snd s1) (table_pa + idx * 8) (child OR INTERIOR);
            Some (Some child, (fst s1, pm')) }) } }"

definition pt_next :: "physmem \<Rightarrow> u64 \<Rightarrow> u64 \<Rightarrow> u64 option option" where
  "pt_next pm table_pa idx = do {
     e \<leftarrow> pt_entry pm table_pa idx;
     Some (if e AND PTE_P \<noteq> 0 then Some (e AND ADDR_MASK) else None) }"

definition as_map ::
  "u64 \<Rightarrow> u64 \<Rightarrow> u64 \<Rightarrow> prot \<Rightarrow> bool \<Rightarrow> pool \<Rightarrow> ((map_err + u64 option) \<times> pool) option" where
  "as_map pml4 vaddr frame prot supervisor s =
     (if pml4 = 0 then Some (Inl Retired, s)
      else if unat vaddr mod PAGE_SIZE \<noteq> 0 then Some (Inl (Misaligned vaddr), s)
      else if unat frame mod PAGE_SIZE \<noteq> 0 then Some (Inl (Misaligned frame), s)
      else do {
        (r3, s3) \<leftarrow> next_or_alloc pml4 (table_index vaddr 4) s;
        (case r3 of None \<Rightarrow> Some (Inl OutOfFrames, s3) | Some pdpt \<Rightarrow> do {
          (r2, s2) \<leftarrow> next_or_alloc pdpt (table_index vaddr 3) s3;
          (case r2 of None \<Rightarrow> Some (Inl OutOfFrames, s2) | Some pd \<Rightarrow> do {
            (r1, s1) \<leftarrow> next_or_alloc pd (table_index vaddr 2) s2;
            (case r1 of None \<Rightarrow> Some (Inl OutOfFrames, s1) | Some pt \<Rightarrow> do {
              let leaf_pa = pt + table_index vaddr 1 * 8;
              old \<leftarrow> phys_read_u64 (snd s1) leaf_pa;
              pm' \<leftarrow> phys_write_u64_atomic (snd s1) leaf_pa (frame OR leaf_flags prot supervisor);
              Some (Inr (if old AND PTE_P \<noteq> 0 then Some (old AND ADDR_MASK) else None),
                    (fst s1, pm')) }) }) }) })"

definition leaf_pte_pa :: "u64 \<Rightarrow> physmem \<Rightarrow> u64 \<Rightarrow> u64 option option" where
  "leaf_pte_pa pml4 pm vaddr =
     try_opt (pt_next pm pml4 (table_index vaddr 4)) (\<lambda>pdpt.
     try_opt (pt_next pm pdpt (table_index vaddr 3)) (\<lambda>pd.
     try_opt (pt_next pm pd (table_index vaddr 2)) (\<lambda>pt.
     Some (Some (pt + table_index vaddr 1 * 8)))))"

definition as_translate :: "u64 \<Rightarrow> physmem \<Rightarrow> u64 \<Rightarrow> translation option option" where
  "as_translate pml4 pm vaddr =
     try_opt (leaf_pte_pa pml4 pm vaddr) (\<lambda>leaf_pa. do {
       entry \<leftarrow> phys_read_u64 pm leaf_pa;
       Some (if entry AND PTE_P = 0 then None
             else Some \<lparr>tr_paddr = (entry AND ADDR_MASK) OR (vaddr AND 0xfff),
                        tr_prot = leaf_prot entry, tr_supervisor = (entry AND PTE_US = 0)\<rparr>) })"

definition as_protect :: "u64 \<Rightarrow> u64 \<Rightarrow> prot \<Rightarrow> bool \<Rightarrow> physmem \<Rightarrow> (bool \<times> physmem) option" where
  "as_protect pml4 vaddr prot supervisor pm =
     (case leaf_pte_pa pml4 pm vaddr of
        None \<Rightarrow> None
      | Some None \<Rightarrow> Some (False, pm)
      | Some (Some leaf_pa) \<Rightarrow> do {
          entry \<leftarrow> phys_read_u64 pm leaf_pa;
          if entry AND PTE_P = 0 then Some (False, pm)
          else do {
            pm' \<leftarrow> phys_write_u64_atomic pm leaf_pa ((entry AND ADDR_MASK) OR leaf_flags prot supervisor);
            Some (True, pm') } })"

fun all_zero :: "physmem \<Rightarrow> u64 \<Rightarrow> nat list \<Rightarrow> bool option" where
  "all_zero pm table_pa [] = Some True"
| "all_zero pm table_pa (i # is) = do {
     e \<leftarrow> phys_read_u64 pm (table_pa + word_of_nat i * 8);
     if e = 0 then all_zero pm table_pa is else Some False }"

definition table_is_empty :: "physmem \<Rightarrow> u64 \<Rightarrow> bool option" where
  "table_is_empty pm table_pa = all_zero pm table_pa [0..<ENTRIES]"

definition pool_free :: "pool \<Rightarrow> u64 \<Rightarrow> pool" where
  "pool_free s pa = (fa_free (fst s) pa, snd s)"

text \<open>
  \<^verbatim>\<open>unmap\<close>: \<open>prune\<close> is one of its three nested steps, freeing the table \<open>t\<close> linked at slot
  \<open>idx\<close> of \<open>parent\<close> if it is empty; the next one up runs only then.
\<close>

definition prune :: "u64 \<Rightarrow> u64 \<Rightarrow> u64 \<Rightarrow> pool \<Rightarrow> (bool \<times> pool) option" where
  "prune parent idx t s = do {
     empty \<leftarrow> table_is_empty (snd s) t;
     if empty then do {
       pm' \<leftarrow> phys_write_u64_atomic (snd s) (parent + idx * 8) 0;
       Some (True, pool_free (fst s, pm') t) }
     else Some (False, s) }"

definition as_unmap :: "u64 \<Rightarrow> u64 \<Rightarrow> pool \<Rightarrow> (u64 option \<times> pool) option" where
  "as_unmap pml4 vaddr s =
     (case pt_next (snd s) pml4 (table_index vaddr 4) of
        None \<Rightarrow> None | Some None \<Rightarrow> Some (None, s)
      | Some (Some pdpt) \<Rightarrow>
     (case pt_next (snd s) pdpt (table_index vaddr 3) of
        None \<Rightarrow> None | Some None \<Rightarrow> Some (None, s)
      | Some (Some pd) \<Rightarrow>
     (case pt_next (snd s) pd (table_index vaddr 2) of
        None \<Rightarrow> None | Some None \<Rightarrow> Some (None, s)
      | Some (Some pt) \<Rightarrow> do {
          let leaf_pa = pt + table_index vaddr 1 * 8;
          entry \<leftarrow> phys_read_u64 (snd s) leaf_pa;
          if entry AND PTE_P = 0 then Some (None, s)
          else do {
            pm0 \<leftarrow> phys_write_u64_atomic (snd s) leaf_pa 0;
            (b1, s1) \<leftarrow> prune pd (table_index vaddr 2) pt (fst s, pm0);
            (b2, s2) \<leftarrow> (if b1 then prune pdpt (table_index vaddr 3) pd s1 else Some (False, s1));
            (b3, s3) \<leftarrow> (if b2 then prune pml4 (table_index vaddr 4) pdpt s2 else Some (False, s2));
            Some (Some (entry AND ADDR_MASK), s3) } })))"

subsection \<open>Fork and teardown\<close>

text \<open>
  The loops over a table's entries take the list of indices still to visit. \<open>clone_subtree\<close> returns
  whether it succeeded (\<^verbatim>\<open>Err(())\<close> on exhaustion).
\<close>

function clone_subtree :: "nat \<Rightarrow> u64 \<Rightarrow> u64 \<Rightarrow> nat list \<Rightarrow> pool \<Rightarrow> (bool \<times> pool) option" where
  "clone_subtree level parent_pa child_pa [] s = Some (True, s)"
| "clone_subtree level parent_pa child_pa (i # is) s = do {
     e \<leftarrow> pt_entry (snd s) parent_pa (word_of_nat i);
     if e AND PTE_P = 0 then clone_subtree level parent_pa child_pa is s
     else if level \<le> 1 then do {
       let fa' = fa_incref (fst s) (e AND ADDR_MASK);
       pm' \<leftarrow> phys_write_u64_atomic (snd s) (child_pa + word_of_nat i * 8) (e AND NOT PTE_RW);
       clone_subtree level parent_pa child_pa is (fa', pm') }
     else do {
       (c, s1) \<leftarrow> pool_alloc s;
       (case c of
          None \<Rightarrow> Some (False, s1)
        | Some child_sub \<Rightarrow> do {
            pm' \<leftarrow> phys_write_u64_atomic (snd s1) (child_pa + word_of_nat i * 8) (child_sub OR INTERIOR);
            (ok, s2) \<leftarrow> clone_subtree (level - 1) (e AND ADDR_MASK) child_sub [0..<ENTRIES] (fst s1, pm');
            if ok then clone_subtree level parent_pa child_pa is s2 else Some (False, s2) }) } }"
  by pat_completeness auto
termination
  by (relation "measures [\<lambda>(l, _, _, _, _). l, \<lambda>(_, _, _, is, _). length is]") auto

function clear_leaf_write :: "nat \<Rightarrow> u64 \<Rightarrow> nat list \<Rightarrow> physmem \<Rightarrow> physmem option" where
  "clear_leaf_write level table_pa [] pm = Some pm"
| "clear_leaf_write level table_pa (i # is) pm = do {
     e \<leftarrow> pt_entry pm table_pa (word_of_nat i);
     if e AND PTE_P = 0 then clear_leaf_write level table_pa is pm
     else if level \<le> 1 then
       (if e AND PTE_RW \<noteq> 0 then do {
          pm' \<leftarrow> phys_write_u64_atomic pm (table_pa + word_of_nat i * 8) (e AND NOT PTE_RW);
          clear_leaf_write level table_pa is pm' }
        else clear_leaf_write level table_pa is pm)
     else do {
       pm' \<leftarrow> clear_leaf_write (level - 1) (e AND ADDR_MASK) [0..<ENTRIES] pm;
       clear_leaf_write level table_pa is pm' } }"
  by pat_completeness auto
termination
  by (relation "measures [\<lambda>(l, _, _, _). l, \<lambda>(_, _, is, _). length is]") auto

function free_subtree :: "nat \<Rightarrow> u64 \<Rightarrow> nat list \<Rightarrow> pool \<Rightarrow> pool option" where
  "free_subtree level table_pa [] s = Some s"
| "free_subtree level table_pa (i # is) s = do {
     e \<leftarrow> pt_entry (snd s) table_pa (word_of_nat i);
     if e AND PTE_P = 0 then free_subtree level table_pa is s
     else if level \<le> 1 then free_subtree level table_pa is (pool_free s (e AND ADDR_MASK))
     else do {
       s1 \<leftarrow> free_subtree (level - 1) (e AND ADDR_MASK) [0..<ENTRIES] s;
       free_subtree level table_pa is (pool_free s1 (e AND ADDR_MASK)) } }"
  by pat_completeness auto
termination
  by (relation "measures [\<lambda>(l, _, _, _). l, \<lambda>(_, _, is, _). length is]") auto

definition as_destroy :: "u64 \<Rightarrow> pool \<Rightarrow> pool option" where
  "as_destroy pml4 s =
     (if pml4 = 0 then Some s
      else do { s1 \<leftarrow> free_subtree 4 pml4 [0..<ENTRIES] s; Some (pool_free s1 pml4) })"

definition as_fork_cow :: "u64 \<Rightarrow> pool \<Rightarrow> (u64 option \<times> pool) option" where
  "as_fork_cow pml4 s = do {
     (c, s1) \<leftarrow> pool_alloc s;
     (case c of
        None \<Rightarrow> Some (None, s1)
      | Some child \<Rightarrow> do {
          (ok, s2) \<leftarrow> clone_subtree 4 pml4 child [0..<ENTRIES] s1;
          if ok then do {
            pm' \<leftarrow> clear_leaf_write 4 pml4 [0..<ENTRIES] (snd s2);
            Some (Some child, (fst s2, pm')) }
          else do { s3 \<leftarrow> as_destroy child s2; Some (None, s3) } }) }"

subsection \<open>Bits of entries\<close>

definition is_frame_pa :: "u64 \<Rightarrow> bool" where
  "is_frame_pa a \<longleftrightarrow> a AND ADDR_MASK = a"

lemma word_and_absorb: "(a :: 'a::len word) AND m = a \<Longrightarrow> m AND n = 0 \<Longrightarrow> a AND n = 0"
  by (metis and.assoc and_zero_eq)

lemma is_frame_pa_low [simp]:
  assumes "is_frame_pa a"
  shows "a AND PTE_P = 0" "a AND PTE_RW = 0" "a AND PTE_US = 0" "a AND PTE_NX = 0" "a AND INTERIOR = 0"
    "a AND ADDR_MASK = a"
  using assms by (auto simp: is_frame_pa_def intro: word_and_absorb [where m = ADDR_MASK])

lemma is_frame_paI:
  assumes "unat a mod PAGE_SIZE = 0" "unat a < 2 ^ 52"
  shows "is_frame_pa (a :: u64)"
proof -
  have m: "ADDR_MASK = mask 52 AND NOT (mask 12)" by (simp add: mask_eq_exp_minus_1)
  have "unat (take_bit 52 a) = unat a"
    using assms(2) by (simp add: unsigned_take_bit_eq take_bit_nat_eq_self)
  then have "take_bit 52 a = a" by (simp add: word_unat_eq_iff)
  moreover have "take_bit 12 (unat a) = 0"
    using assms(1) by (simp add: take_bit_eq_mod PAGE_SIZE_def)
  then have "unat (take_bit 12 a) = 0" by (simp add: unsigned_take_bit_eq)
  then have "take_bit 12 a = 0" by (simp add: word_unat_eq_iff)
  then have "bit (take_bit 12 a) n = bit 0 n" for n by simp
  then have "\<not> bit a n" if "n < 12" for n
    using that by (simp add: bit_take_bit_iff)
  then have "a AND NOT (mask 12) = a"
    by (intro bit_word_eqI) (auto simp: bit_simps)
  ultimately show ?thesis unfolding is_frame_pa_def m
    by (metis and.assoc take_bit_eq_mask)
qed

lemma leaf_flags_bits:
  "leaf_flags p s AND ADDR_MASK = 0"
  "leaf_flags p s AND PTE_P = 1"
  "(leaf_flags p s AND PTE_US = 0) = s"
  "(leaf_flags p s AND PTE_RW = 0) = (\<not> prot_contains p PROT_WRITE)"
  "(leaf_flags p s AND PTE_NX = 0) = prot_contains p PROT_EXEC"
  by (auto simp: leaf_flags_def Let_def bit.conj_disj_distrib2)

lemma table_index_less: "unat (table_index v l) < 512"
proof -
  have "table_index v l \<le> 0x1ff" unfolding table_index_def by (rule word_and_le1)
  then show ?thesis by (simp add: word_le_nat_alt)
qed


subsection \<open>Slots of a table\<close>

definition slot :: "physmem \<Rightarrow> u64 \<Rightarrow> nat \<Rightarrow> u64" where
  "slot pm t i = u64_from_le (mem_load (pm_mem pm) (unat t + 8 * i) 8)"

definition set_slot :: "physmem \<Rightarrow> u64 \<Rightarrow> nat \<Rightarrow> u64 \<Rightarrow> physmem" where
  "set_slot pm t i v = pm\<lparr>pm_mem := mem_store (pm_mem pm) (unat t + 8 * i) (u64_to_le v)\<rparr>"

definition table_ok :: "physmem \<Rightarrow> u64 \<Rightarrow> bool" where
  "table_ok pm t \<longleftrightarrow> unat t mod PAGE_SIZE = 0 \<and> unat t + PAGE_SIZE \<le> pm_size pm \<and> pm_size pm < 2 ^ 52"

lemma table_ok_frame: "table_ok pm t \<Longrightarrow> is_frame_pa t"
  by (intro is_frame_paI) (auto simp: table_ok_def PAGE_SIZE_def)

lemma unat_slot:
  assumes "table_ok pm t" "unat i < 512"
  shows "unat (t + i * 8) = unat t + 8 * unat i"
proof -
  have t: "unat t < 2 ^ 52" using assms(1) by (auto simp: table_ok_def PAGE_SIZE_def)
  have i: "unat (i * 8) = 8 * unat i" using assms(2) by (simp add: unat_word_ariths)
  with t assms(2) show ?thesis by (subst unat_add_less) auto
qed

lemma pt_entry_slot [mem_simps]:
  assumes "table_ok pm t" "unat i < 512"
  shows "pt_entry pm t i = Some (slot pm t (unat i))"
  using assms unat_slot [OF assms]
  by (auto simp: pt_entry_def phys_read_u64_def phys_read_def in_bounds_def slot_def table_ok_def PAGE_SIZE_def)

lemma read_u64_slot [mem_simps]:
  assumes "table_ok pm t" "unat i < 512"
  shows "phys_read_u64 pm (t + i * 8) = Some (slot pm t (unat i))"
  using pt_entry_slot [OF assms] by (simp add: pt_entry_def)

lemma table_ok_bounds:
  assumes "table_ok pm t" "unat i < 512"
  shows "unat t + 8 * unat i + 8 \<le> pm_size pm" "(unat t + 8 * unat i) mod 8 = 0"
    "unat t + 8 * unat i + 8 < 2 ^ 64"
proof -
  show "unat t + 8 * unat i + 8 < 2 ^ 64"
    using assms by (simp add: table_ok_def PAGE_SIZE_def)
  show "unat t + 8 * unat i + 8 \<le> pm_size pm"
    using assms by (simp add: table_ok_def PAGE_SIZE_def)
  have "8 dvd PAGE_SIZE" by (simp add: PAGE_SIZE_def)
  moreover have "PAGE_SIZE dvd unat t" using assms(1) unfolding table_ok_def by (simp only: mod_eq_0_iff_dvd)
  ultimately have "8 dvd unat t" by (rule dvd_trans)
  then show "(unat t + 8 * unat i) mod 8 = 0" by (simp add: mod_eq_0_iff_dvd)
qed

lemma write_u64_slot [mem_simps]:
  assumes "table_ok pm t" "unat i < 512"
  shows "phys_write_u64_atomic pm (t + i * 8) v = Some (set_slot pm t (unat i) v)"
  unfolding phys_write_u64_atomic_def in_bounds_def set_slot_def unat_slot [OF assms]
  by (simp only: table_ok_bounds [OF assms] if_True simp_thms)

lemma set_slot_sel [simp]: "pm_size (set_slot pm t i v) = pm_size pm"
  by (simp add: set_slot_def)

lemma table_ok_set_slot [simp]: "table_ok (set_slot pm t i v) u = table_ok pm u"
  by (simp add: table_ok_def)

lemma slot_set_same [simp]: "slot (set_slot pm t i v) t i = v"
  using mem_load_store_same [of "pm_mem pm" "unat t + 8 * i" "u64_to_le v"]
  by (simp add: slot_def set_slot_def)

lemma table_ok_disjoint:
  assumes "table_ok pm t" "table_ok pm u" "t \<noteq> u"
  shows "unat t + PAGE_SIZE \<le> unat u \<or> unat u + PAGE_SIZE \<le> unat t"
proof -
  obtain a b where "unat t = 4096 * a" "unat u = 4096 * b"
    using assms(1,2) by (auto simp: table_ok_def PAGE_SIZE_def mod_eq_0_iff_dvd dvd_def)
  moreover from this assms(3) have "a \<noteq> b" by (auto simp: word_unat_eq_iff)
  ultimately show ?thesis by (auto simp: PAGE_SIZE_def)
qed

lemma slot_set_other [simp]:
  assumes "table_ok pm t" "table_ok pm u" "i < 512" "j < 512" "t \<noteq> u \<or> i \<noteq> j"
  shows "slot (set_slot pm t i v) u j = slot pm u j"
proof -
  have "unat u + 8 * j + 8 \<le> unat t + 8 * i \<or> unat t + 8 * i + 8 \<le> unat u + 8 * j"
  proof (cases "t = u")
    case True
    with assms(5) show ?thesis by auto
  next
    case False
    from table_ok_disjoint [OF assms(1,2) False] assms(3,4) show ?thesis
      by (auto simp: PAGE_SIZE_def)
  qed
  then show ?thesis
    by (simp add: slot_def set_slot_def mem_load_store_disjoint)
qed

lemma set_slot_outside:
  assumes "i < 512" "a < unat t \<or> unat t + PAGE_SIZE \<le> a"
  shows "pm_mem (set_slot pm t i v) a = pm_mem pm a"
  using assms by (auto simp: set_slot_def PAGE_SIZE_def intro!: mem_store_outside)

subsection \<open>The tree below a table\<close>

text \<open>
  The tree a table heads, read off the memory: its tables, whether it is a tree (every table is a
  frame of the pool and is linked once), and the leaf entry a virtual address ends at (zero where
  the path stops early). All three depend on the bytes of the tree's own tables only.
\<close>

definition vidx :: "u64 \<Rightarrow> nat \<Rightarrow> nat" where
  "vidx v l = unat (table_index v l)"

lemma vidx_less [simp]: "vidx v l < 512"
  by (simp add: vidx_def table_index_less)

abbreviation present :: "u64 \<Rightarrow> bool" where
  "present e \<equiv> e AND PTE_P \<noteq> 0"

definition child :: "physmem \<Rightarrow> u64 \<Rightarrow> nat \<Rightarrow> u64 option" where
  "child pm t i = (let e = slot pm t i in if present e then Some (e AND ADDR_MASK) else None)"

fun look :: "nat \<Rightarrow> physmem \<Rightarrow> u64 \<Rightarrow> u64 \<Rightarrow> u64" where
  "look 0 pm t v = 0"
| "look (Suc 0) pm t v = slot pm t (vidx v 1)"
| "look (Suc (Suc l)) pm t v =
     (case child pm t (vidx v (Suc (Suc l))) of None \<Rightarrow> 0 | Some c \<Rightarrow> look (Suc l) pm c v)"

fun tabs :: "nat \<Rightarrow> physmem \<Rightarrow> u64 \<Rightarrow> u64 set" where
  "tabs 0 pm t = {}"
| "tabs (Suc 0) pm t = {t}"
| "tabs (Suc (Suc l)) pm t =
     insert t (\<Union>i\<in>{..<512}. case child pm t i of None \<Rightarrow> {} | Some c \<Rightarrow> tabs (Suc l) pm c)"

fun tree :: "nat \<Rightarrow> physmem \<Rightarrow> u64 \<Rightarrow> bool" where
  "tree 0 pm t = False"
| "tree (Suc 0) pm t = table_ok pm t"
| "tree (Suc (Suc l)) pm t =
     (table_ok pm t
      \<and> (\<forall>i<512. \<forall>c. child pm t i = Some c \<longrightarrow> tree (Suc l) pm c \<and> t \<notin> tabs (Suc l) pm c)
      \<and> (\<forall>i<512. \<forall>j<512. \<forall>c d. i \<noteq> j \<longrightarrow> child pm t i = Some c \<longrightarrow> child pm t j = Some d \<longrightarrow>
           tabs (Suc l) pm c \<inter> tabs (Suc l) pm d = {}))"

definition agree :: "physmem \<Rightarrow> physmem \<Rightarrow> u64 set \<Rightarrow> bool" where
  "agree pm pm' S \<longleftrightarrow> pm_size pm' = pm_size pm
     \<and> (\<forall>t\<in>S. \<forall>i<512. slot pm' t i = slot pm t i)"

lemma agree_sub: "agree pm pm' S \<Longrightarrow> T \<subseteq> S \<Longrightarrow> agree pm pm' T"
  by (auto simp: agree_def)

lemma agree_child: "agree pm pm' S \<Longrightarrow> t \<in> S \<Longrightarrow> i < 512 \<Longrightarrow> child pm' t i = child pm t i"
  by (simp add: agree_def child_def)

lemma agree_table_ok: "agree pm pm' S \<Longrightarrow> table_ok pm' t = table_ok pm t"
  by (simp add: agree_def table_ok_def)

lemma tabs_self: "0 < l \<Longrightarrow> t \<in> tabs l pm t"
  by (cases "(l, pm, t)" rule: tabs.cases) auto

lemma tabs_child: "i < 512 \<Longrightarrow> child pm t i = Some c \<Longrightarrow> tabs (Suc l) pm c \<subseteq> tabs (Suc (Suc l)) pm t"
  by (auto intro!: bexI [of _ i])

lemma agree_below:
  assumes "agree pm pm' (tabs (Suc (Suc l)) pm t)" "i < 512" "child pm t i = Some c"
  shows "agree pm pm' (tabs (Suc l) pm c)"
  using assms(1) tabs_child [OF assms(2,3)] by (rule agree_sub)

lemma tabs_frame: "agree pm pm' (tabs l pm t) \<Longrightarrow> tabs l pm' t = tabs l pm t"
proof (induction l pm t rule: tabs.induct)
  case (3 l pm t)
  have ch: "child pm' t i = child pm t i" if "i < 512" for i
    using agree_child [OF 3(2), of t i] that by simp
  have "(case child pm' t i of None \<Rightarrow> {} | Some c \<Rightarrow> tabs (Suc l) pm' c)
      = (case child pm t i of None \<Rightarrow> {} | Some c \<Rightarrow> tabs (Suc l) pm c)" if "i < 512" for i
    using that ch [OF that] 3(1) [of i] agree_below [OF 3(2) that] by (simp split: option.splits)
  then show ?case by simp
qed simp_all

lemma tree_frame: "agree pm pm' (tabs l pm t) \<Longrightarrow> tree l pm' t = tree l pm t"
proof (induction l pm t rule: tabs.induct)
  case (2 pm t)
  then show ?case by (simp add: agree_table_ok)
next
  case (3 l pm t)
  have ch: "child pm' t i = child pm t i" if "i < 512" for i
    using agree_child [OF 3(2), of t i] that by simp
  have tb: "tabs (Suc l) pm' c = tabs (Suc l) pm c" if "i < 512" "child pm t i = Some c" for i c
    using tabs_frame [OF agree_below [OF 3(2) that]] .
  have tr: "tree (Suc l) pm' c = tree (Suc l) pm c" if "i < 512" "child pm t i = Some c" for i c
    using 3(1) [of i c] that agree_below [OF 3(2) that] by simp
  show ?case
    by (simp add: agree_table_ok [OF 3(2)] ch tb tr cong: conj_cong imp_cong)
qed simp

lemma look_frame: "agree pm pm' (tabs l pm t) \<Longrightarrow> look l pm' t v = look l pm t v"
proof (induction l pm t v rule: look.induct)
  case (2 pm t v)
  then show ?case by (simp add: agree_def)
next
  case (3 l pm t v)
  have ch: "child pm' t i = child pm t i" if "i < 512" for i
    using agree_child [OF 3(2), of t i] that by simp
  show ?case
    using 3(1) agree_below [OF 3(2), of "vidx v (Suc (Suc l))"]
    by (simp add: ch split: option.splits)
qed simp

lemma tree_table_ok: "tree l pm t \<Longrightarrow> u \<in> tabs l pm t \<Longrightarrow> table_ok pm u"
proof (induction l pm t arbitrary: u rule: tabs.induct)
  case (3 l pm t)
  show ?case
  proof (cases "u = t")
    case True
    with 3(2) show ?thesis by simp
  next
    case False
    then obtain i c where "i < 512" "child pm t i = Some c" "u \<in> tabs (Suc l) pm c"
      using 3(3) by (auto split: option.splits)
    then show ?thesis using 3(1) [of i c u] 3(2) by simp
  qed
qed simp_all

lemma tree_child:
  "tree (Suc (Suc l)) pm t \<Longrightarrow> i < 512 \<Longrightarrow> child pm t i = Some c \<Longrightarrow> tree (Suc l) pm c \<and> t \<notin> tabs (Suc l) pm c"
  by simp

lemma tree_apart:
  "tree (Suc (Suc l)) pm t \<Longrightarrow> i < 512 \<Longrightarrow> j < 512 \<Longrightarrow> i \<noteq> j \<Longrightarrow> child pm t i = Some c \<Longrightarrow>
   child pm t j = Some d \<Longrightarrow> tabs (Suc l) pm c \<inter> tabs (Suc l) pm d = {}"
  by simp

subsection \<open>Replacing a subtree\<close>

text \<open>
  \<open>touch pm pm' S\<close>: the two memories differ at most inside the frames of \<open>S\<close>. \<open>sub l k pm t v\<close> is the
  level-\<open>k\<close> table on the path of \<open>v\<close> below the level-\<open>l\<close> table \<open>t\<close>.
\<close>

definition touch :: "physmem \<Rightarrow> physmem \<Rightarrow> u64 set \<Rightarrow> bool" where
  "touch pm pm' S \<longleftrightarrow> pm_size pm' = pm_size pm
     \<and> (\<forall>a. (\<forall>u\<in>S. a < unat u \<or> unat u + PAGE_SIZE \<le> a) \<longrightarrow> pm_mem pm' a = pm_mem pm a)"

lemma touch_refl [simp]: "touch pm pm S" by (simp add: touch_def)

lemma touch_mono: "touch pm pm' S \<Longrightarrow> S \<subseteq> T \<Longrightarrow> touch pm pm' T"
  unfolding touch_def by blast

lemma touch_trans: "touch pm pm' S \<Longrightarrow> touch pm' pm'' S \<Longrightarrow> touch pm pm'' S"
  by (simp add: touch_def)

lemma touch_set_slot: "i < 512 \<Longrightarrow> t \<in> S \<Longrightarrow> touch pm (set_slot pm t i v) S"
  unfolding touch_def by (auto intro!: set_slot_outside)

lemma touch_slot:
  assumes "touch pm pm' S" "\<And>u. u \<in> S \<Longrightarrow> table_ok pm u" "table_ok pm t" "t \<notin> S" "i < 512"
  shows "slot pm' t i = slot pm t i"
proof -
  have "pm_mem pm' a = pm_mem pm a" if "unat t + 8 * i \<le> a" "a < unat t + 8 * i + 8" for a
  proof -
    have "a < unat u \<or> unat u + PAGE_SIZE \<le> a" if "u \<in> S" for u
    proof -
      have "u \<noteq> t" using that assms(4) by auto
      from table_ok_disjoint [OF assms(2) [OF that] assms(3) this] show ?thesis
        using \<open>unat t + 8 * i \<le> a\<close> \<open>a < unat t + 8 * i + 8\<close> assms(5)
        by (auto simp: PAGE_SIZE_def)
    qed
    then show ?thesis using assms(1) by (simp add: touch_def)
  qed
  then have "mem_load (pm_mem pm') (unat t + 8 * i) 8 = mem_load (pm_mem pm) (unat t + 8 * i) 8"
    by (auto simp: mem_load_def)
  then show ?thesis by (simp add: slot_def)
qed

lemma touch_agree:
  assumes "touch pm pm' S" "\<And>u. u \<in> S \<Longrightarrow> table_ok pm u" "\<And>t. t \<in> T \<Longrightarrow> table_ok pm t" "T \<inter> S = {}"
  shows "agree pm pm' T"
  unfolding agree_def
proof (intro conjI ballI allI impI)
  show "pm_size pm' = pm_size pm" using assms(1) by (simp add: touch_def)
  fix t i assume "t \<in> T" "i < (512 :: nat)"
  with touch_slot [OF assms(1,2), of t i] assms(3,4) show "slot pm' t i = slot pm t i" by blast
qed

lemma touch_table_ok: "touch pm pm' S \<Longrightarrow> table_ok pm' t = table_ok pm t"
  by (simp add: touch_def table_ok_def)

function sub :: "nat \<Rightarrow> nat \<Rightarrow> physmem \<Rightarrow> u64 \<Rightarrow> u64 \<Rightarrow> u64 option" where
  "sub l k pm t v =
     (if l \<le> k then (if l = k then Some t else None)
      else case child pm t (vidx v l) of None \<Rightarrow> None | Some c \<Rightarrow> sub (l - 1) k pm c v)"
  by pat_completeness auto
termination by (relation "measure fst") auto

declare sub.simps [simp del]

definition same_path :: "nat \<Rightarrow> nat \<Rightarrow> u64 \<Rightarrow> u64 \<Rightarrow> bool" where
  "same_path l k v w \<longleftrightarrow> (\<forall>j. k < j \<and> j \<le> l \<longrightarrow> vidx v j = vidx w j)"

lemma same_path_refl [simp]: "same_path l k v v" by (simp add: same_path_def)

lemma same_path_Suc:
  "k \<le> l \<Longrightarrow> same_path (Suc l) k v w \<longleftrightarrow> vidx v (Suc l) = vidx w (Suc l) \<and> same_path l k v w"
  by (auto simp: same_path_def le_Suc_eq)

lemma same_path_self [simp]: "same_path l l v w" by (auto simp: same_path_def)

definition child_change :: "nat \<Rightarrow> physmem \<Rightarrow> physmem \<Rightarrow> u64 \<Rightarrow> nat \<Rightarrow> u64 \<Rightarrow> u64 set \<Rightarrow> bool" where
  "child_change l pm pm' t i c F \<longleftrightarrow>
     tree (Suc (Suc l)) pm t \<and> i < 512 \<and> child pm t i = Some c
     \<and> F \<inter> tabs (Suc (Suc l)) pm t = {} \<and> (\<forall>u\<in>F. table_ok pm u)
     \<and> touch pm pm' (tabs (Suc l) pm c \<union> F)
     \<and> tree (Suc l) pm' c \<and> tabs (Suc l) pm' c \<subseteq> tabs (Suc l) pm c \<union> F"

lemma child_changeD:
  assumes "child_change l pm pm' t i c F"
  shows "tree (Suc (Suc l)) pm t" "i < 512" "child pm t i = Some c"
    "F \<inter> tabs (Suc (Suc l)) pm t = {}" "\<And>u. u \<in> F \<Longrightarrow> table_ok pm u"
    "touch pm pm' (tabs (Suc l) pm c \<union> F)"
    "tree (Suc l) pm' c" "tabs (Suc l) pm' c \<subseteq> tabs (Suc l) pm c \<union> F"
  using assms unfolding child_change_def by blast+

lemma change_old_ok:
  "child_change l pm pm' t i c F \<Longrightarrow> u \<in> tabs (Suc l) pm c \<union> F \<Longrightarrow> table_ok pm u"
  using tree_table_ok [of "Suc l" pm c u] by (auto simp: child_change_def)

lemma change_same_child:
  assumes "child_change l pm pm' t i c F" "j < 512"
  shows "child pm' t j = child pm t j"
proof -
  note d = child_changeD [OF assms(1)]
  have "t \<notin> tabs (Suc l) pm c \<union> F" using d(1-4) by auto
  with touch_slot [OF d(6) change_old_ok [OF assms(1)] _ _ assms(2)] d(1) show ?thesis
    by (simp add: child_def)
qed

lemma change_other_agree:
  assumes "child_change l pm pm' t i c F" and j: "j < 512" "j \<noteq> i" "child pm t j = Some d"
  shows "agree pm pm' (tabs (Suc l) pm d)"
proof -
  note h = child_changeD [OF assms(1)]
  have "tabs (Suc l) pm d \<inter> F = {}"
    using h(4) tabs_child [OF j(1,3), of l] by blast
  moreover have "tabs (Suc l) pm d \<inter> tabs (Suc l) pm c = {}" using h(1-3) j by simp
  moreover have "table_ok pm u" if "u \<in> tabs (Suc l) pm d" for u
    using tree_table_ok [OF _ that] h(1) j by simp
  ultimately show ?thesis by (intro touch_agree [OF h(6) change_old_ok [OF assms(1)]]) auto
qed

lemma change_tree:
  assumes "child_change l pm pm' t i c F"
  shows "tree (Suc (Suc l)) pm' t"
proof -
  note tr = child_changeD(1) [OF assms] and i = child_changeD(2) [OF assms]
    and c = child_changeD(3) [OF assms] and F = child_changeD(4) [OF assms]
    and tch = child_changeD(6) [OF assms] and tr' = child_changeD(7) [OF assms]
    and tabs' = child_changeD(8) [OF assms]
    and other_agree = change_other_agree [OF assms] and same_child = change_same_child [OF assms]
  have ot: "tree (Suc l) pm' d \<and> t \<notin> tabs (Suc l) pm' d" if "j < 512" "child pm t j = Some d" for j d
  proof (cases "j = i")
    case True
    then have "t \<notin> tabs (Suc l) pm' d" using tabs' that c tr i F by auto
    then show ?thesis using True that c tr' by simp
  next
    case False
    note a = other_agree [OF that(1) False that(2)]
    show ?thesis using tree_frame [OF a] tabs_frame [OF a] tr that by simp
  qed
  have oi: "tabs (Suc l) pm' c \<inter> tabs (Suc l) pm' d = {}" if "j < 512" "j \<noteq> i" "child pm t j = Some d" for j d
  proof -
    have "tabs (Suc l) pm d \<inter> F = {}" using F tabs_child [OF that(1,3), of l] by blast
    moreover have "tabs (Suc l) pm c \<inter> tabs (Suc l) pm d = {}" using tr c i that by simp
    ultimately show ?thesis using tabs' tabs_frame [OF other_agree [OF that]] by blast
  qed
  have oo: "tabs (Suc l) pm' d \<inter> tabs (Suc l) pm' e = {}"
    if "j < 512" "k < 512" "j \<noteq> k" "child pm t j = Some d" "child pm t k = Some e" for j k d e
  proof (cases "j = i \<or> k = i")
    case True
    then show ?thesis using oi [of j d] oi [of k e] that c by auto
  next
    case False
    then show ?thesis
      using that tr tabs_frame [OF other_agree [of j d]] tabs_frame [OF other_agree [of k e]] by simp
  qed
  show ?thesis
    using tr ot oo by (simp add: same_child touch_table_ok [OF tch] cong: conj_cong imp_cong) 
qed

lemma change_tabs:
  assumes "child_change l pm pm' t i c F"
  shows "tabs (Suc (Suc l)) pm' t
   = (tabs (Suc (Suc l)) pm t - tabs (Suc l) pm c) \<union> tabs (Suc l) pm' c"
proof -
  note tr = child_changeD(1) [OF assms] and i = child_changeD(2) [OF assms]
    and c = child_changeD(3) [OF assms]
    and other_agree = change_other_agree [OF assms] and same_child = change_same_child [OF assms]
  define K where "K = {..<512 :: nat} - {i}"
  define A where "A q = (\<Union>j\<in>K. case child q t j of None \<Rightarrow> {} | Some d \<Rightarrow> tabs (Suc l) q d)" for q
  have split: "tabs (Suc (Suc l)) q t = insert t (tabs (Suc l) q c \<union> A q)" if "child q t i = Some c" for q
  proof -
    have "{..<512} = insert i K" using i by (auto simp: K_def)
    then show ?thesis using that by (simp add: A_def)
  qed
  have "A pm' = A pm"
    unfolding A_def K_def by (intro SUP_cong refl)
      (auto simp: same_child tabs_frame [OF other_agree] split: option.splits)
  moreover have "A pm \<inter> tabs (Suc l) pm c = {}"
  proof -
    have "(case child pm t j of None \<Rightarrow> {} | Some d \<Rightarrow> tabs (Suc l) pm d) \<inter> tabs (Suc l) pm c = {}"
      if "j \<in> K" for j
      using tree_apart [OF tr, of j i] c i that by (simp add: K_def split: option.splits)
    then show ?thesis by (auto simp: A_def)
  qed
  moreover have "t \<notin> tabs (Suc l) pm c" using tr c i by simp
  ultimately show ?thesis
    using split [OF c] split [of pm'] same_child [OF i] c by auto
qed

lemma change_look:
  assumes "child_change l pm pm' t i c F"
  shows "look (Suc (Suc l)) pm' t w =
   (if vidx w (Suc (Suc l)) = i then look (Suc l) pm' c w else look (Suc (Suc l)) pm t w)"
  using change_same_child [OF assms, of "vidx w (Suc (Suc l))"] child_changeD(3) [OF assms]
    look_frame [OF change_other_agree [OF assms, of "vidx w (Suc (Suc l))"]]
  by (simp split: option.splits)


text \<open>The same at any depth: replacing the level-\<open>k\<close> subtree on the path of \<open>v\<close>.\<close>

lemma sub_self [simp]: "sub l l pm t v = Some t"
  by (simp add: sub.simps)

lemma sub_Suc: "k \<le> l \<Longrightarrow> sub (Suc l) k pm t v =
    (case child pm t (vidx v (Suc l)) of None \<Rightarrow> None | Some c \<Rightarrow> sub l k pm c v)"
  by (subst sub.simps) (simp split: option.split)

lemma sub_tabs: "0 < k \<Longrightarrow> k \<le> l \<Longrightarrow> sub l k pm t v = Some q \<Longrightarrow> tabs k pm q \<subseteq> tabs l pm t"
proof (induction l arbitrary: t)
  case (Suc l)
  show ?case
  proof (cases "k = Suc l")
    case False
    with Suc.prems obtain c m where c: "child pm t (vidx v (Suc l)) = Some c" "sub l k pm c v = Some q" "l = Suc m"
      by (cases l) (auto simp: sub_Suc split: option.splits)
    then have "tabs k pm q \<subseteq> tabs l pm c" using Suc False by auto
    also have "\<dots> \<subseteq> tabs (Suc l) pm t" using c(1) tabs_child [of "vidx v (Suc l)" pm t c m] by (simp add: c(3))
    finally show ?thesis .
  qed (use Suc.prems in simp)
qed simp

lemma sub_tree: "0 < k \<Longrightarrow> k \<le> l \<Longrightarrow> tree l pm t \<Longrightarrow> sub l k pm t v = Some q \<Longrightarrow> tree k pm q"
proof (induction l arbitrary: t)
  case (Suc l)
  show ?case
  proof (cases "k = Suc l")
    case False
    with Suc.prems obtain c m where c: "child pm t (vidx v (Suc l)) = Some c" "sub l k pm c v = Some q" "l = Suc m"
      by (cases l) (auto simp: sub_Suc split: option.splits)
    have "tree l pm c" using tree_child [OF _ _ c(1) [unfolded c(3)]] Suc.prems(3) c(3) by simp
    then show ?thesis using Suc.IH [of c] Suc.prems(1,2) False c(2) by simp
  qed (use Suc.prems in simp)
qed simp

definition sub_change :: "nat \<Rightarrow> nat \<Rightarrow> physmem \<Rightarrow> physmem \<Rightarrow> u64 \<Rightarrow> u64 \<Rightarrow> u64 \<Rightarrow> u64 set \<Rightarrow> bool" where
  "sub_change l k pm pm' t v q F \<longleftrightarrow> 0 < k \<and> k \<le> l \<and>
     tree l pm t \<and> sub l k pm t v = Some q
     \<and> F \<inter> tabs l pm t = {} \<and> (\<forall>u\<in>F. table_ok pm u)
     \<and> touch pm pm' (tabs k pm q \<union> F)
     \<and> tree k pm' q \<and> tabs k pm' q \<subseteq> tabs k pm q \<union> F"

definition changed :: "nat \<Rightarrow> nat \<Rightarrow> physmem \<Rightarrow> physmem \<Rightarrow> u64 \<Rightarrow> u64 \<Rightarrow> u64 \<Rightarrow> bool" where
  "changed l k pm pm' t v q \<longleftrightarrow> tree l pm' t \<and> sub l k pm' t v = Some q
     \<and> tabs l pm' t = (tabs l pm t - tabs k pm q) \<union> tabs k pm' q
     \<and> (\<forall>w. look l pm' t w = (if same_path l k v w then look k pm' q w else look l pm t w))"

lemma changedD:
  assumes "changed l k pm pm' t v q"
  shows "tree l pm' t" "sub l k pm' t v = Some q"
    "tabs l pm' t = (tabs l pm t - tabs k pm q) \<union> tabs k pm' q"
    "look l pm' t w = (if same_path l k v w then look k pm' q w else look l pm t w)"
  using assms by (auto simp: changed_def)

lemma sub_change: "sub_change l k pm pm' t v q F \<Longrightarrow> changed l k pm pm' t v q"
proof (induction l arbitrary: t)
  case (Suc l)
  show ?case
  proof (cases "k = Suc l")
    case True
    then show ?thesis using Suc.prems by (simp add: sub_change_def changed_def)
  next
    case False
    with Suc.prems obtain m where m: "l = Suc m" "k \<le> l" by (cases l) (auto simp: sub_change_def)
    let ?i = "vidx v (Suc l)"
    obtain c where c: "child pm t ?i = Some c" "sub l k pm c v = Some q"
      using Suc.prems m by (auto simp: sub_change_def sub_Suc split: option.splits)
    have tc: "tree l pm c" "tabs l pm c \<subseteq> tabs (Suc l) pm t"
      using Suc.prems m c(1) tabs_child [OF _ c(1), of m] tree_child [of m pm t ?i c]
      by (simp_all add: sub_change_def del: tree.simps)
    have kq: "tabs k pm q \<subseteq> tabs l pm c"
      using sub_tabs [of k l pm c v q] Suc.prems c(2) m by (simp add: sub_change_def)
    have "sub_change l k pm pm' c v q F"
      using Suc.prems tc c(2) m by (auto simp: sub_change_def)
    note ch = changedD [OF Suc.IH [OF this]]
    have cc: "child_change m pm pm' t ?i c F"
    proof -
      have "touch pm pm' (tabs (Suc m) pm c \<union> F)"
        by (rule touch_mono [of _ _ "tabs k pm q \<union> F"]) (use Suc.prems kq m in \<open>auto simp: sub_change_def\<close>)
      moreover have "tabs (Suc m) pm' c \<subseteq> tabs (Suc m) pm c \<union> F"
        using ch(3) Suc.prems m kq by (auto simp: sub_change_def)
      moreover have "tree (Suc m) pm' c" using ch(1) m by simp
      ultimately show ?thesis using Suc.prems c(1) m by (simp add: sub_change_def child_change_def)
    qed
    have "sub (Suc l) k pm' t v = Some q"
      using m(2) change_same_child [OF cc, of ?i] c ch(2) by (simp add: sub_Suc)
    moreover have "tabs (Suc l) pm' t = (tabs (Suc l) pm t - tabs k pm q) \<union> tabs k pm' q"
      using change_tabs [OF cc] ch(3) kq tc(2) m by auto
    moreover have "look (Suc l) pm' t w = (if same_path (Suc l) k v w then look k pm' q w else look (Suc l) pm t w)" for w
      using change_look [OF cc, of w] ch(4) [of w] c m by (auto simp: same_path_Suc)
    ultimately show ?thesis using change_tree [OF cc] m by (simp add: changed_def)
  qed
qed (simp add: sub_change_def)

end
