(* ===== verification/Page_Walk.thy ===== *)
theory Page_Walk
  imports Page_Table
begin

text \<open>
  Correctness of the page-table operations of \<^verbatim>\<open>src/vcpu/pagetable.rs\<close>. The tables are bytes of the pool;
  the proofs read them as a tree of tables and view an address space as the function from virtual
  addresses to leaf entries. Map, unmap and protect are then updates of that function at one page.
\<close>

unbundle bit_operations_syntax

lemma sub_frame: "0 < k \<Longrightarrow> agree pm pm' (tabs l pm t) \<Longrightarrow> k \<le> l \<Longrightarrow> sub l k pm' t v = sub l k pm t v"
proof (induction l arbitrary: t)
  case (Suc l)
  show ?case
  proof (cases "k = Suc l")
    case False
    then obtain m where m: "l = Suc m" "k \<le> l" using Suc.prems by (cases l) auto
    have "child pm' t (vidx v (Suc l)) = child pm t (vidx v (Suc l))"
      using agree_child [OF Suc.prems(2)] tabs_self by simp
    moreover have "sub l k pm' c v = sub l k pm c v" if "child pm t (vidx v (Suc l)) = Some c" for c
      using Suc.IH [of c] Suc.prems agree_below [OF _ _ that, of pm' m] m by simp
    ultimately show ?thesis using m(2) by (simp add: sub_Suc split: option.split)
  qed (use Suc.prems in simp)
qed simp

lemma sub_step: "Suc k \<le> l \<Longrightarrow> sub l (Suc k) pm t v = Some q \<Longrightarrow> sub l k pm t v = child pm q (vidx v (Suc k))"
proof (induction l arbitrary: t)
  case (Suc l)
  show ?case
  proof (cases "k = l")
    case True
    then show ?thesis using Suc.prems by (simp add: sub_Suc split: option.split)
  next
    case False
    then show ?thesis using Suc by (simp add: sub_Suc split: option.splits)
  qed
qed simp

lemma sub_same_path: "k \<le> l \<Longrightarrow> same_path l k v w \<Longrightarrow> sub l k pm t w = sub l k pm t v"
proof (induction l arbitrary: t)
  case (Suc l)
  then show ?case by (cases "k = Suc l") (auto simp: sub_Suc same_path_Suc split: option.splits)
qed simp

lemma look_sub: "0 < l \<Longrightarrow> look l pm t v = (case sub l 1 pm t v of None \<Rightarrow> 0 | Some q \<Rightarrow> slot pm q (vidx v 1))"
proof (induction l arbitrary: t)
  case (Suc l)
  then show ?case by (cases l) (auto simp: sub_Suc split: option.splits)
qed simp

lemma sub_keep:
  "sub_change l k pm pm' t v q F \<Longrightarrow> k \<le> j \<Longrightarrow> j \<le> l \<Longrightarrow> sub l j pm' t v = sub l j pm t v"
proof (induction l arbitrary: t)
  case (Suc l)
  show ?case
  proof (cases "j = Suc l")
    case False
    with Suc.prems obtain m where m: "l = Suc m" "k \<le> l" "j \<le> l" by (cases l) (auto simp: sub_change_def)
    let ?i = "vidx v (Suc l)"
    obtain c where c: "child pm t ?i = Some c" "sub l k pm c v = Some q"
      using Suc.prems m by (auto simp: sub_change_def sub_Suc split: option.splits)
    have tc: "tree l pm c" "tabs l pm c \<subseteq> tabs (Suc l) pm t" "t \<notin> tabs l pm c"
      using Suc.prems m c(1) tabs_child [OF _ c(1), of m] tree_child [of m pm t ?i c]
      by (simp_all add: sub_change_def del: tree.simps)
    have "sub_change l k pm pm' c v q F"
      using Suc.prems tc c(2) m by (auto simp: sub_change_def)
    from Suc.IH [OF this Suc.prems(2) m(3)] have ih: "sub l j pm' c v = sub l j pm c v" .
    have kq: "tabs k pm q \<subseteq> tabs l pm c"
      using sub_tabs [of k l pm c v q] Suc.prems c(2) m by (simp add: sub_change_def)
    have t: "t \<notin> tabs k pm q \<union> F" using kq tc(3) Suc.prems m tabs_self [of "Suc l" t pm] by (auto simp: sub_change_def)
    have ok: "table_ok pm u" if "u \<in> tabs k pm q \<union> F" for u
      using tree_table_ok [OF tc(1)] kq that Suc.prems by (auto simp: sub_change_def)
    have "slot pm' t ?i = slot pm t ?i"
      using touch_slot [OF _ ok _ t, of pm' ?i] Suc.prems tree_table_ok [of "Suc l" pm t t] tabs_self [of "Suc l" t pm]
      by (simp add: sub_change_def)
    then show ?thesis using m c(1) ih by (simp add: sub_Suc child_def)
  qed simp
qed (simp add: sub_change_def)

subsection \<open>Empty tables, linking and unlinking\<close>

definition blank :: "physmem \<Rightarrow> u64 \<Rightarrow> bool" where
  "blank pm t \<longleftrightarrow> table_ok pm t \<and> (\<forall>i<512. slot pm t i = 0)"

lemma blank_child: "blank pm t \<Longrightarrow> i < 512 \<Longrightarrow> child pm t i = None"
  by (simp add: blank_def child_def)

lemma blank_tree:
  assumes "blank pm t" "0 < l"
  shows "tree l pm t" "tabs l pm t = {t}" "look l pm t v = 0"
proof -
  obtain m where m: "l = Suc m" using assms(2) by (cases l) auto
  show "tree l pm t" using assms(1) blank_child [OF assms(1)] m by (cases m) (auto simp: blank_def)
  show "tabs l pm t = {t}" using blank_child [OF assms(1)] m by (cases m) auto
  show "look l pm t v = 0" using assms(1) blank_child [OF assms(1)] m by (cases m) (auto simp: blank_def)
qed

lemma interior_entry:
  assumes "is_frame_pa c"
  shows "present (c OR INTERIOR)" "(c OR INTERIOR) AND ADDR_MASK = c"
  using assms by (simp_all add: bit.conj_disj_distrib2)

lemma child_set_slot_other:
  "table_ok pm t \<Longrightarrow> table_ok pm u \<Longrightarrow> i < 512 \<Longrightarrow> j < 512 \<Longrightarrow> t \<noteq> u \<or> i \<noteq> j \<Longrightarrow>
   child (set_slot pm t i v) u j = child pm u j"
  by (simp add: child_def)

lemma child_link: "is_frame_pa c \<Longrightarrow> child (set_slot pm t i (c OR INTERIOR)) t i = Some c"
  by (simp add: child_def interior_entry)

lemma child_unlink: "child (set_slot pm t i 0) t i = None"
  by (simp add: child_def)

text \<open>Writing one slot of a table leaves the trees that do not hold the table alone.\<close>

lemma set_slot_agree:
  assumes "table_ok pm t" "i < 512" "tree l pm u" "t \<notin> tabs l pm u"
  shows "agree pm (set_slot pm t i e) (tabs l pm u)"
  using assms tree_table_ok [OF assms(3)]
  by (intro touch_agree [of _ _ "{t}"] touch_set_slot) auto

text \<open>What a table looks like once the slot that \<open>i\<close> names is changed.\<close>

lemma relink:
  fixes t i pm e
  defines "pm' \<equiv> set_slot pm t i e"
  assumes t: "tree (Suc (Suc l)) pm t" and i: "i < 512"
    and new: "\<And>c. child pm' t i = Some c \<Longrightarrow> tree (Suc l) pm' c \<and> tabs (Suc l) pm' c \<inter> tabs (Suc (Suc l)) pm t = {}"
  shows "tree (Suc (Suc l)) pm' t"
    and "tabs (Suc (Suc l)) pm' t =
      (tabs (Suc (Suc l)) pm t - (case child pm t i of None \<Rightarrow> {} | Some c \<Rightarrow> tabs (Suc l) pm c))
      \<union> (case child pm' t i of None \<Rightarrow> {} | Some c \<Rightarrow> tabs (Suc l) pm' c)"
    and "look (Suc (Suc l)) pm' t w =
      (if vidx w (Suc (Suc l)) = i then (case child pm' t i of None \<Rightarrow> 0 | Some c \<Rightarrow> look (Suc l) pm' c w)
       else look (Suc (Suc l)) pm t w)"
proof -
  have ok: "table_ok pm t" using t by simp
  have ch: "child pm' t j = child pm t j" if "j < 512" "j \<noteq> i" for j
    unfolding pm'_def using ok i that by (intro child_set_slot_other) auto
  have ag: "agree pm pm' (tabs (Suc l) pm d)" if "j < 512" "child pm t j = Some d" for j d
    unfolding pm'_def using ok i tree_child [OF t that] by (intro set_slot_agree) auto
  have tb: "tabs (Suc l) pm' d = tabs (Suc l) pm d" and tr: "tree (Suc l) pm' d"
    if "j < 512" "child pm t j = Some d" for j d
    using tabs_frame [OF ag [OF that]] tree_frame [OF ag [OF that]] tree_child [OF t that] by simp_all
  have ntb: "tabs (Suc l) pm' c \<inter> tabs (Suc l) pm' d = {}" "t \<notin> tabs (Suc l) pm' c"
    if "child pm' t i = Some c" "j < 512" "child pm t j = Some d" for c j d
    using new [OF that(1)] tb [OF that(2,3)] tabs_child [OF that(2,3), of l] tabs_self [of "Suc (Suc l)" t pm] by blast+
  have nt: "t \<notin> tabs (Suc l) pm' c" if "child pm' t i = Some c" for c
    using new [OF that] tabs_self [of "Suc (Suc l)" t pm] by blast
  have one: "tree (Suc l) pm' c \<and> t \<notin> tabs (Suc l) pm' c" if "j < 512" "child pm' t j = Some c" for j c
    using that new [of c] nt [of c] ch [of j] tr [of j c] tb [of j c] tree_child [OF t, of j c]
    by (cases "j = i") auto
  have two: "tabs (Suc l) pm' c \<inter> tabs (Suc l) pm' d = {}"
    if "j < 512" "k < 512" "j \<noteq> k" "child pm' t j = Some c" "child pm' t k = Some d" for j k c d
  proof (cases "j = i \<or> k = i")
    case True
    then show ?thesis using that ch [of j] ch [of k] ntb(1) [of c k d] ntb(1) [of d j c]
      by (auto simp: Int_commute)
  next
    case False
    then have "child pm t j = Some c" "child pm t k = Some d" using that ch by simp_all
    then show ?thesis using that(1-3) tb [of j c] tb [of k d] tree_apart [OF t, of j k c d] by simp
  qed
  have "table_ok pm' t" using ok by (simp add: pm'_def)
  then show "tree (Suc (Suc l)) pm' t"
    unfolding tree.simps using one two by blast
  show "look (Suc (Suc l)) pm' t w =
      (if vidx w (Suc (Suc l)) = i then (case child pm' t i of None \<Rightarrow> 0 | Some c \<Rightarrow> look (Suc l) pm' c w)
       else look (Suc (Suc l)) pm t w)"
    using ch [of "vidx w (Suc (Suc l))"] look_frame [OF ag [of "vidx w (Suc (Suc l))"]]
    by (simp split: option.splits)
  define K where "K = {..<512 :: nat} - {i}"
  define A where "A q = (\<Union>j\<in>K. case child q t j of None \<Rightarrow> {} | Some d \<Rightarrow> tabs (Suc l) q d)" for q
  define B where "B q = (case child q t i of None \<Rightarrow> {} | Some c \<Rightarrow> tabs (Suc l) q c)" for q
  have split: "tabs (Suc (Suc l)) q t = insert t (B q \<union> A q)" for q
  proof -
    have "{..<512} = insert i K" using i by (auto simp: K_def)
    then show ?thesis by (simp add: A_def B_def)
  qed
  have "A pm' = A pm"
    unfolding A_def K_def by (intro SUP_cong refl) (auto simp: ch tb split: option.splits)
  moreover have "A pm \<inter> B pm = {}"
  proof -
    have "(case child pm t j of None \<Rightarrow> {} | Some d \<Rightarrow> tabs (Suc l) pm d) \<inter> B pm = {}"
      if "j \<in> K" for j
      using tree_apart [OF t, of j i] i that by (simp add: K_def B_def split: option.splits)
    then show ?thesis by (auto simp: A_def)
  qed
  moreover have "t \<notin> B pm" using tree_child [OF t i] by (auto simp: B_def split: option.splits)
  ultimately have "tabs (Suc (Suc l)) pm' t = (tabs (Suc (Suc l)) pm t - B pm) \<union> B pm'"
    unfolding split by auto
  then show "tabs (Suc (Suc l)) pm' t =
      (tabs (Suc (Suc l)) pm t - (case child pm t i of None \<Rightarrow> {} | Some c \<Rightarrow> tabs (Suc l) pm c))
      \<union> (case child pm' t i of None \<Rightarrow> {} | Some c \<Rightarrow> tabs (Suc l) pm' c)"
    by (simp add: B_def)
qed

subsection \<open>Well-formed address spaces\<close>

text \<open>
  An address space \<open>t\<close> of a pool: its tables form a tree of owned frames. \<open>grows\<close> is what the
  tables may do to the rest of the pool: take frames nobody owned and write inside the tree.
\<close>

definition as_ok :: "u64 \<Rightarrow> pool \<Rightarrow> bool" where
  "as_ok t s \<longleftrightarrow> pool_inv s \<and> tree 4 (snd s) t \<and> (\<forall>u\<in>tabs 4 (snd s) t. 0 < pool_rc s u)"

definition tables :: "u64 \<Rightarrow> pool \<Rightarrow> u64 set" where
  "tables t s = tabs 4 (snd s) t"

definition leaf_of :: "u64 \<Rightarrow> pool \<Rightarrow> u64 \<Rightarrow> u64" where
  "leaf_of t s v = look 4 (snd s) t v"

definition grows :: "u64 \<Rightarrow> pool \<Rightarrow> pool \<Rightarrow> bool" where
  "grows t s s' \<longleftrightarrow> touch (snd s) (snd s') (tables t s')
     \<and> tables t s \<subseteq> tables t s' \<and> (\<forall>u\<in>tables t s' - tables t s. pool_rc s u = 0)
     \<and> pool_rc s' = (\<lambda>u. if u \<in> tables t s' - tables t s then 1 else pool_rc s u)"

lemma grows_refl [simp]: "grows t s s"
  by (simp add: grows_def)

lemma grows_trans: "grows t s s1 \<Longrightarrow> grows t s1 s2 \<Longrightarrow> grows t s s2"
proof -
  assume a: "grows t s s1" "grows t s1 s2"
  then have "touch (snd s) (snd s2) (tables t s2)"
    by (auto simp: grows_def intro: touch_trans touch_mono)
  moreover have "pool_rc s u = 0" if "u \<in> tables t s2 - tables t s" for u
  proof (cases "u \<in> tables t s1")
    case True with a that show ?thesis by (simp add: grows_def)
  next
    case False
    with a that have "pool_rc s1 u = 0" by (simp add: grows_def)
    with a False show ?thesis by (simp add: grows_def)
  qed
  moreover have "pool_rc s2 = (\<lambda>u. if u \<in> tables t s2 - tables t s then 1 else pool_rc s u)"
    using a by (auto simp: grows_def fun_eq_iff)
  ultimately show ?thesis using a by (auto simp: grows_def)
qed

lemma pool_rc_write [simp]: "pool_rc (fa, pm) = fa_rc fa"
  by (simp add: pool_rc_def [abs_def])

lemma pool_inv_pm: "pool_inv (fa, pm) \<Longrightarrow> pm_size pm' = pm_size pm \<Longrightarrow> pool_inv (fa, pm')"
  by (simp add: pool_inv_def pool_fits_def)

lemma owned_table_ok:
  assumes "pool_inv s" "0 < pool_rc s u"
  shows "table_ok (snd s) u"
proof -
  obtain f where f: "frame_of (fst s) u = Some f"
    using fa_rc_pos [of "fst s" u] assms(2) by (auto simp: pool_rc_def)
  then have "unat u = f * PAGE_SIZE" "f < length (fa_refcount (fst s))"
    by (simp_all add: frame_of_Some)
  then show ?thesis
    using pool_fits_frame [of "fst s" "snd s" f] assms(1)
    by (simp add: table_ok_def pool_inv_def pool_fits_def)
qed

lemma mem_load_zero_byte:
  "mem_load m a n = replicate n 0 \<Longrightarrow> a \<le> j \<Longrightarrow> j < a + n \<Longrightarrow> m j = 0"
proof -
  assume h: "mem_load m a n = replicate n 0" "a \<le> j" "j < a + n"
  then have "mem_load m a n ! (j - a) = 0" by simp
  with h(2,3) nth_mem_load [of "j - a" n m a] show "m j = 0" by simp
qed

text \<open>A fresh frame is a blank table that no tree of the pool holds.\<close>

lemma alloc_blank:
  assumes "pool_inv s" "pool_alloc s = Some (Some c, s')"
  shows "blank (snd s') c" "pool_rc s c = 0" "pool_rc s' = (pool_rc s)(c := 1)" "pool_inv s'"
    "touch (snd s) (snd s') {c}"
proof -
  obtain fa pm fa' pm' where s: "s = (fa, pm)" "s' = (fa', pm')" by (cases s, cases s')
  note h = assms [unfolded s pool_inv_def pool_alloc_def, simplified]
  note cont = fa_alloc_contents [OF conjunct1 [OF h(1)] conjunct2 [OF h(1)] h(2)]
  show inv: "pool_inv s'" using pool.alloc_inv [OF assms] .
  show rc: "pool_rc s' = (pool_rc s)(c := 1)" using pool.alloc_rc [OF assms] .
  show "pool_rc s c = 0" using pool.alloc_fresh [OF assms] .
  have ok: "table_ok (snd s') c" using owned_table_ok [OF inv] rc by simp
  have "mem_load (pm_mem pm') (unat c + 8 * i) 8 = replicate 8 0" if "i < 512" for i
    using that by (intro mem_load_zero mem_load_zero_byte [OF cont(1)]) (auto simp: PAGE_SIZE_def)
  then have "slot pm' c i = 0" if "i < 512" for i
    using that by (simp add: slot_def u64_from_le_def)
  with ok s show "blank (snd s') c" by (simp add: blank_def)
  have "pm_size pm' = pm_size pm"
    using conjunct1 [OF h(1)] conjunct2 [OF h(1)] h(2) by (rule fa_alloc_cases) simp_all
  then show "touch (snd s) (snd s') {c}" using cont(2) s by (simp add: touch_def)
qed

lemma sub_look: "0 < k \<Longrightarrow> k \<le> l \<Longrightarrow> sub l k pm t v = Some q \<Longrightarrow> look l pm t v = look k pm q v"
proof (induction l arbitrary: t)
  case (Suc l)
  show ?case
  proof (cases "k = Suc l")
    case False
    with Suc.prems obtain m where "l = Suc m" "k \<le> l" by (cases l) auto
    then show ?thesis using Suc by (auto simp: sub_Suc split: option.splits)
  qed (use Suc.prems in simp)
qed simp

text \<open>Replacing a subtree of an address space, seen from the pool.\<close>

lemma as_ok_change:
  assumes ok: "as_ok t s" and ch: "sub_change 4 k (snd s) pm' t v q F"
    and rc: "\<And>u. u \<in> (tabs 4 (snd s) t - tabs k (snd s) q) \<union> tabs k pm' q \<Longrightarrow> 0 < fa_rc fa' u"
    and inv: "pool_inv (fa', pm')"
  shows "as_ok t (fa', pm')"
  using changedD(1,3) [OF sub_change [OF ch]] rc inv by (simp add: as_ok_def)

lemma as_ok_sub:
  assumes "as_ok t s" "0 < k" "k \<le> 4" "sub 4 k (snd s) t v = Some q"
  shows "tree k (snd s) q" "tabs k (snd s) q \<subseteq> tabs 4 (snd s) t" "table_ok (snd s) q"
    "q \<in> tabs k (snd s) q" "0 < pool_rc s q"
proof -
  show t: "tree k (snd s) q" using sub_tree [OF assms(2,3) _ assms(4)] assms(1) by (simp add: as_ok_def)
  show b: "tabs k (snd s) q \<subseteq> tabs 4 (snd s) t" by (rule sub_tabs [OF assms(2-4)])
  show q: "q \<in> tabs k (snd s) q" by (rule tabs_self [OF assms(2)])
  show "table_ok (snd s) q" by (rule tree_table_ok [OF t q])
  show "0 < pool_rc s q" using assms(1) b q by (auto simp: as_ok_def)
qed

text \<open>Linking a blank table at an empty slot of the path adds that table and nothing else.\<close>

lemma link_blank:
  fixes pm t v k q c
  defines "pm' \<equiv> set_slot pm q (vidx v (Suc k)) (c OR INTERIOR)"
  assumes tr: "tree 4 pm t" and k: "0 < k" "k < 4" and q: "sub 4 (Suc k) pm t v = Some q"
    and none: "child pm q (vidx v (Suc k)) = None" and c: "blank pm c" "c \<notin> tabs 4 pm t"
  shows "tree 4 pm' t" "tabs 4 pm' t = insert c (tabs 4 pm t)" "look 4 pm' t w = look 4 pm t w"
    "sub 4 k pm' t v = Some c" "touch pm pm' {q}" "q \<in> tabs 4 pm t"
proof -
  let ?i = "vidx v (Suc k)"
  obtain m where m: "k = Suc m" using k(1) by (cases k) auto
  have trq: "tree (Suc k) pm q" using sub_tree [OF _ _ tr q] k by simp
  have tbq: "tabs (Suc k) pm q \<subseteq> tabs 4 pm t" using sub_tabs [OF _ _ q] k by simp
  show qT: "q \<in> tabs 4 pm t" using tbq tabs_self [of "Suc k" q pm] by auto
  have okq: "table_ok pm q" using tree_table_ok [OF tr qT] .
  have okc: "table_ok pm c" using c(1) by (simp add: blank_def)
  have fc: "is_frame_pa c" using table_ok_frame [OF okc] .
  have qc: "q \<noteq> c" using qT c(2) by auto
  have bl: "blank pm' c" using c(1) okq okc qc by (simp add: blank_def pm'_def)
  have ch: "child pm' q ?i = Some c" unfolding pm'_def by (rule child_link [OF fc])
  note b = blank_tree [OF bl k(1)]
  have new: "tree (Suc m) pm' d \<and> tabs (Suc m) pm' d \<inter> tabs (Suc (Suc m)) pm q = {}"
    if "child pm' q ?i = Some d" for d
    using that ch b(1,2) c(2) tbq m by auto
  note rl = relink [OF trq [unfolded m] vidx_less [of v "Suc k"], of "c OR INTERIOR",
      folded pm'_def, OF new, folded m]
  have tq: "tabs (Suc k) pm' q = insert c (tabs (Suc k) pm q)"
    using rl(2) none ch b(2) by simp
  have lq: "look (Suc k) pm' q w = look (Suc k) pm q w" for w
    using rl(3) [of w] none ch b(3) m by simp
  show tch: "touch pm pm' {q}" unfolding pm'_def by (rule touch_set_slot) auto
  have sc: "sub_change 4 (Suc k) pm pm' t v q {c}"
    unfolding sub_change_def using k tr q c okc rl(1) tq touch_mono [OF tch] tabs_self [of "Suc k" q pm]
    by auto
  note cd = changedD [OF sub_change [OF sc]]
  show "tree 4 pm' t" by (rule cd(1))
  show "tabs 4 pm' t = insert c (tabs 4 pm t)" using cd(3) tq tbq by auto
  show "sub 4 k pm' t v = Some c" using sub_step [OF _ cd(2)] k ch by simp
  have "look 4 pm t w = look (Suc k) pm q w" if "same_path 4 (Suc k) v w"
    using sub_look [of "Suc k" 4 pm t w q] sub_same_path [of "Suc k" 4 v w pm t] that q k by simp
  then show "look 4 pm' t w = look 4 pm t w" using cd(4) [of w] lq by simp
qed

lemma next_or_alloc_steps:
  assumes ok: "as_ok t s" and k: "0 < k" "k < 4" and q: "sub 4 (Suc k) (snd s) t v = Some q"
  obtains (full) "next_or_alloc q (table_index v (Suc k)) s = Some (None, s)"
    | (here) c where "next_or_alloc q (table_index v (Suc k)) s = Some (Some c, s)"
        "sub 4 k (snd s) t v = Some c"
    | (linked) c s' where "next_or_alloc q (table_index v (Suc k)) s = Some (Some c, s')"
        "sub 4 k (snd s') t v = Some c" "as_ok t s'" "grows t s s'" "leaf_of t s' = leaf_of t s"
proof -
  let ?i = "vidx v (Suc k)"
  note qf = as_ok_sub [OF ok _ _ q, simplified]
  have inv: "pool_inv s" using ok by (simp add: as_ok_def)
  have e: "pt_entry (snd s) q (table_index v (Suc k)) = Some (slot (snd s) q ?i)"
    using pt_entry_slot qf(3) k table_index_less by (simp add: vidx_def)
  show ?thesis
  proof (cases "present (slot (snd s) q ?i)")
    case True
    then have "child (snd s) q ?i = Some (slot (snd s) q ?i AND ADDR_MASK)" by (simp add: child_def)
    moreover have "sub 4 k (snd s) t v = child (snd s) q ?i" using sub_step q k by simp
    ultimately show ?thesis using here e True by (simp add: next_or_alloc_def)
  next
    case False
    then have none: "child (snd s) q ?i = None" by (simp add: child_def)
    obtain r s1 where a: "pool_alloc s = Some (r, s1)" using pool.alloc_total [OF inv] by (cases "pool_alloc s") auto
    show ?thesis
    proof (cases r)
      case None
      then have "s1 = s" using pool.alloc_none [of s s1] a inv by simp
      then show ?thesis using full e False a None by (simp add: next_or_alloc_def)
    next
      case (Some c)
      note al = alloc_blank [OF inv a [unfolded Some]]
      have cT: "c \<notin> tabs 4 (snd s) t" using al(2) ok by (auto simp: as_ok_def)
      have okT: "table_ok (snd s) u" if "u \<in> tabs 4 (snd s) t" for u
        using tree_table_ok that ok by (auto simp: as_ok_def)
      have cok: "table_ok (snd s) c" using al(1,5) touch_table_ok by (auto simp: blank_def)
      have ag: "agree (snd s) (snd s1) (tabs 4 (snd s) t)"
        using cT okT cok by (intro touch_agree [OF al(5)]) auto
      have q1: "sub 4 (Suc k) (snd s1) t v = Some q" using sub_frame [OF _ ag] q k by simp
      have tr1: "tree 4 (snd s1) t" and tb1: "tabs 4 (snd s1) t = tabs 4 (snd s) t"
        and lk1: "look 4 (snd s1) t w = look 4 (snd s) t w" for w
        using tree_frame [OF ag] tabs_frame [OF ag] look_frame [OF ag] ok by (simp_all add: as_ok_def)
      have none1: "child (snd s1) q ?i = None"
        using none agree_child [OF ag, of q ?i] qf(2,4) k by auto
      note lk = link_blank [OF tr1 k q1 none1 al(1) cT [folded tb1]]
      define pm2 where "pm2 = set_slot (snd s1) q ?i (c OR INTERIOR)"
      note lk = lk [folded pm2_def]
      have w: "phys_write_u64_atomic (snd s1) (q + table_index v (Suc k) * 8) (c OR INTERIOR) = Some pm2"
        using write_u64_slot [OF _ table_index_less] qf(3) k touch_table_ok [OF al(5)]
        by (simp add: vidx_def pm2_def)
      have sz: "pm_size pm2 = pm_size (snd s1)" using lk(5) by (simp add: touch_def)
      have tb2: "tables t (fst s1, pm2) = insert c (tables t s)"
        using lk(2) tb1 by (simp add: tables_def)
      have "as_ok t (fst s1, pm2)"
        using lk(1,2) tb1 al(3,4) ok pool_inv_pm [of "fst s1" "snd s1" pm2] sz
        by (auto simp: as_ok_def pool_rc_def [abs_def])
      moreover have "grows t s (fst s1, pm2)"
      proof -
        have "touch (snd s) pm2 (tables t (fst s1, pm2))"
          using tb2 lk(6) tb1 unfolding tables_def
          by (intro touch_trans [OF touch_mono [OF al(5)] touch_mono [OF lk(5)]]) auto
        then show ?thesis using tb2 cT al(2,3)
          by (auto simp: grows_def tables_def pool_rc_def [abs_def] fun_eq_iff)
      qed
      moreover have "leaf_of t (fst s1, pm2) = leaf_of t s"
        using lk(3) lk1 by (simp add: leaf_of_def fun_eq_iff)
      ultimately show ?thesis
        using linked [of c "(fst s1, pm2)"] lk(4) e False a Some w by (simp add: next_or_alloc_def)
    qed
  qed
qed

subsection \<open>Virtual pages\<close>

text \<open>The page number the four indices spell: bits 12 to 47 of the address.\<close>

definition vpage :: "u64 \<Rightarrow> nat" where
  "vpage v = unat v div PAGE_SIZE mod 2 ^ 36"

lemma vidx_eq: "vidx v l = unat v div 2 ^ (12 + 9 * (l - 1)) mod 512"
proof -
  have "(0x1ff :: u64) = mask 9" by (simp add: mask_eq_exp_minus_1)
  then have "table_index v l = take_bit 9 (drop_bit (12 + 9 * (l - 1)) v)"
    by (simp add: table_index_def take_bit_eq_mask)
  then have "vidx v l = take_bit 9 (drop_bit (12 + 9 * (l - 1)) (unat v))"
    by (simp add: vidx_def unsigned_take_bit_eq unsigned_drop_bit_eq take_bit_nat_eq_self [OF unat_u64_less])
  then show ?thesis by (simp add: take_bit_eq_mod drop_bit_eq_div)
qed

lemma digits_mod:
  "(n :: nat) mod 2 ^ 36 = n mod 512 + 512 * (n div 512 mod 512 + 512 * (n div 512 div 512 mod 512 + 512 * (n div 512 div 512 div 512 mod 512)))"
proof -
  have "(2 :: nat) ^ 36 = 512 * (512 * (512 * 512))" by simp
  then show ?thesis by (simp only: mod_mult2_eq) (simp only: add.commute)
qed

lemma low_digit:
  fixes a x a' x' :: nat
  assumes "a < 512" "a' < 512" "a + 512 * x = a' + 512 * x'"
  shows "a = a'" "x = x'"
proof -
  have "a = (a + 512 * x) mod 512" "a' = (a' + 512 * x') mod 512" using assms(1,2) by simp_all
  then show "a = a'" using assms(3) by simp
  then show "x = x'" using assms(3) by simp
qed

lemma vidx_digits:
  "vidx v 1 = unat v div PAGE_SIZE mod 512"
  "vidx v 2 = unat v div PAGE_SIZE div 512 mod 512"
  "vidx v 3 = unat v div PAGE_SIZE div 512 div 512 mod 512"
  "vidx v 4 = unat v div PAGE_SIZE div 512 div 512 div 512 mod 512"
  by (simp_all add: vidx_eq PAGE_SIZE_def div_mult2_eq [symmetric] del: div_mult2_eq)

lemma vpage_digits: "vpage v = vidx v 1 + 512 * (vidx v 2 + 512 * (vidx v 3 + 512 * vidx v 4))"
  unfolding vpage_def vidx_digits by (rule digits_mod)

lemma same_path_vpage: "same_path 4 0 v w \<longleftrightarrow> vpage v = vpage w"
proof -
  have "same_path 4 0 v w \<longleftrightarrow> (\<forall>j\<in>{1,2,3,4}. vidx v j = vidx w j)"
  proof -
    have "{j. 0 < j \<and> j \<le> (4::nat)} = {1,2,3,4}" by auto
    then show ?thesis unfolding same_path_def by blast
  qed
  also have "\<dots> \<longleftrightarrow> vpage v = vpage w"
  proof
    assume "vpage v = vpage w"
    note e1 = low_digit [OF vidx_less vidx_less this [unfolded vpage_digits]]
    note e2 = low_digit [OF vidx_less vidx_less e1(2)]
    note e3 = low_digit [OF vidx_less vidx_less e2(2)]
    show "\<forall>j\<in>{1,2,3,4}. vidx v j = vidx w j" using e1(1) e2(1) e3 by simp
  qed (simp add: vpage_digits)
  finally show ?thesis .
qed

subsection \<open>The walk\<close>

lemma same_path_0: "0 < l \<Longrightarrow> same_path l 0 v w \<longleftrightarrow> same_path l 1 v w \<and> vidx v 1 = vidx w 1"
  unfolding same_path_def by (metis One_nat_def Suc_leI less_Suc0 less_imp_le_nat linorder_neqE_nat not_less zero_less_Suc)

lemma pt_next_child:
  "table_ok pm t \<Longrightarrow> pt_next pm t (table_index v l) = Some (child pm t (vidx v l))"
  using pt_entry_slot [OF _ table_index_less, of pm t v l]
  by (simp add: pt_next_def child_def vidx_def Let_def)

lemma child_table_ok: "tree (Suc (Suc l)) pm t \<Longrightarrow> i < 512 \<Longrightarrow> child pm t i = Some c \<Longrightarrow> table_ok pm c"
  using tree_table_ok [of "Suc l" pm c c] tree_child [of l pm t i c] tabs_self [of "Suc l" c pm] by blast

lemma sub_None: "Suc k \<le> l \<Longrightarrow> sub l (Suc k) pm t v = None \<Longrightarrow> sub l k pm t v = None"
proof (induction l arbitrary: t)
  case (Suc l)
  then show ?case by (cases "k = l") (auto simp: sub_Suc split: option.splits)
qed simp

lemma leaf_pte_pa_sub:
  assumes "tree 4 pm t"
  shows "leaf_pte_pa t pm v = Some (map_option (\<lambda>q. q + table_index v 1 * 8) (sub 4 1 pm t v))"
proof -
  have ok: "table_ok pm q" if "sub 4 k pm t v = Some q" "0 < k" "k \<le> 4" for q k
    using tree_table_ok [OF sub_tree [OF that(2,3) assms that(1)] tabs_self [OF that(2)]] .
  have n: "pt_next pm q (table_index v (Suc k)) = Some (sub 4 k pm t v)"
    if "sub 4 (Suc k) pm t v = Some q" "0 < k" "k < 4" for q k
    using pt_next_child [OF ok [OF that(1)], of v "Suc k"] sub_step [OF _ that(1)] that by simp
  show ?thesis
  proof (cases "sub 4 3 pm t v")
    case None
    then show ?thesis using n [of 3 t] sub_None [of 2 4 pm t v] sub_None [of 1 4 pm t v]
      by (simp add: leaf_pte_pa_def eval_nat_numeral)
  next
    case p: (Some p)
    show ?thesis
    proof (cases "sub 4 2 pm t v")
      case None
      then show ?thesis using n [of 3 t] n [of 2 p] sub_None [of 1 4 pm t v] p
        by (simp add: leaf_pte_pa_def eval_nat_numeral)
    next
      case (Some d)
      then show ?thesis using n [of 3 t] n [of 2 p] n [of 1 d] p
        by (cases "sub 4 1 pm t v") (simp_all add: leaf_pte_pa_def eval_nat_numeral)
    qed
  qed
qed

definition decode_leaf :: "u64 \<Rightarrow> u64 \<Rightarrow> translation option" where
  "decode_leaf v e =
     (if present e then Some \<lparr>tr_paddr = (e AND ADDR_MASK) OR (v AND 0xfff), tr_prot = leaf_prot e,
                              tr_supervisor = (e AND PTE_US = 0)\<rparr>
      else None)"

lemma translate_look:
  assumes "tree 4 pm t"
  shows "as_translate t pm v = Some (decode_leaf v (look 4 pm t v))"
proof (cases "sub 4 1 pm t v")
  case None
  then show ?thesis
    by (simp add: as_translate_def leaf_pte_pa_sub [OF assms] look_sub decode_leaf_def)
next
  case (Some q)
  have "table_ok pm q" using tree_table_ok [OF sub_tree [OF _ _ assms Some] tabs_self] by simp
  then show ?thesis
    using Some read_u64_slot [OF _ table_index_less, of pm q v 1]
    by (simp add: as_translate_def leaf_pte_pa_sub [OF assms] look_sub decode_leaf_def vidx_def)
qed

subsection \<open>Writing a leaf\<close>

lemma leaf_write:
  fixes pm q v e
  defines "pm' \<equiv> set_slot pm q (vidx v 1) e"
  assumes tr: "tree 4 pm t" and q: "sub 4 1 pm t v = Some q"
  shows "tree 4 pm' t" "tabs 4 pm' t = tabs 4 pm t"
    "look 4 pm' t w = (if vpage w = vpage v then e else look 4 pm t w)"
    "touch pm pm' (tabs 4 pm t)" "1 \<le> j \<Longrightarrow> j \<le> 4 \<Longrightarrow> sub 4 j pm' t v = sub 4 j pm t v"
proof -
  have tq: "tree 1 pm q" using sub_tree [OF _ _ tr q] by simp
  have qT: "q \<in> tabs 4 pm t" using sub_tabs [OF _ _ q] by auto
  have ok: "table_ok pm q" using tree_table_ok [OF tr qT] .
  have tch: "touch pm pm' {q}" unfolding pm'_def by (rule touch_set_slot) auto
  then show "touch pm pm' (tabs 4 pm t)" using qT by (auto intro: touch_mono)
  have sc: "sub_change 4 1 pm pm' t v q {}"
    unfolding sub_change_def using tr q tch tq by (simp add: pm'_def)
  note cd = changedD [OF sub_change [OF sc]]
  show "tree 4 pm' t" by (rule cd(1))
  show "tabs 4 pm' t = tabs 4 pm t" using cd(3) qT by auto
  show "1 \<le> j \<Longrightarrow> j \<le> 4 \<Longrightarrow> sub 4 j pm' t v = sub 4 j pm t v" by (rule sub_keep [OF sc])
  have "slot pm' q (vidx w 1) = (if vidx w 1 = vidx v 1 then e else slot pm q (vidx w 1))"
    using ok by (simp add: pm'_def)
  moreover have "look 4 pm t w = slot pm q (vidx w 1)" if "same_path 4 1 v w"
    using sub_same_path [OF _ that, of pm t] q by (simp add: look_sub)
  moreover have "vpage w = vpage v \<longleftrightarrow> same_path 4 1 v w \<and> vidx v 1 = vidx w 1"
    using same_path_vpage [of v w] same_path_0 [of 4 v w] by auto
  ultimately show "look 4 pm' t w = (if vpage w = vpage v then e else look 4 pm t w)"
    using cd(4) [of w] by auto
qed

subsection \<open>Map, protect and unmap as updates of the leaf function\<close>

lemma next_or_alloc_step:
  assumes "as_ok t s" "0 < k" "k < 4" "sub 4 (Suc k) (snd s) t v = Some q"
  shows "\<exists>r s'. next_or_alloc q (table_index v (Suc k)) s = Some (r, s') \<and> as_ok t s' \<and> grows t s s'
    \<and> leaf_of t s' = leaf_of t s \<and> (\<forall>c. r = Some c \<longrightarrow> sub 4 k (snd s') t v = Some c)"
  using assms by (rule next_or_alloc_steps) (use assms in auto)

lemma leaf_write_ok:
  assumes ok: "as_ok t s" and q: "sub 4 1 (snd s) t v = Some q"
  shows "\<exists>pm'. phys_write_u64_atomic (snd s) (q + table_index v 1 * 8) e = Some pm' \<and> as_ok t (fst s, pm')
    \<and> grows t s (fst s, pm') \<and> tables t (fst s, pm') = tables t s
    \<and> leaf_of t (fst s, pm') = (\<lambda>w. if vpage w = vpage v then e else leaf_of t s w)
    \<and> (\<forall>j. 1 \<le> j \<longrightarrow> j \<le> 4 \<longrightarrow> sub 4 j pm' t v = sub 4 j (snd s) t v)"
proof -
  define pm' where "pm' = set_slot (snd s) q (vidx v 1) e"
  have tr: "tree 4 (snd s) t" using ok by (simp add: as_ok_def)
  note lw = leaf_write [OF tr q, where e = e, folded pm'_def]
  have "phys_write_u64_atomic (snd s) (q + table_index v 1 * 8) e = Some pm'"
    using write_u64_slot [OF as_ok_sub(3) [OF ok _ _ q] table_index_less, of v 1] by (simp add: pm'_def vidx_def)
  moreover have "as_ok t (fst s, pm')"
    using ok lw(1,2) pool_inv_pm [of "fst s" "snd s" pm'] by (simp add: as_ok_def pool_rc_def pm'_def)
  moreover have "grows t s (fst s, pm')"
    using lw(2,4) by (simp add: grows_def tables_def pool_rc_def [abs_def])
  moreover have "leaf_of t (fst s, pm') = (\<lambda>w. if vpage w = vpage v then e else leaf_of t s w)"
    using lw(3) by (simp add: leaf_of_def fun_eq_iff)
  ultimately show ?thesis using lw(2,5) by (auto simp: tables_def)
qed

lemma leaf_read:
  assumes "as_ok t s" "sub 4 1 (snd s) t v = Some q"
  shows "phys_read_u64 (snd s) (q + table_index v 1 * 8) = Some (leaf_of t s v)"
  using read_u64_slot [OF as_ok_sub(3) [OF assms(1) _ _ assms(2)] table_index_less, of v 1] assms(2)
  by (simp add: leaf_of_def look_sub vidx_def)

definition frame_in :: "u64 \<Rightarrow> u64 option" where
  "frame_in e = (if present e then Some (e AND ADDR_MASK) else None)"

lemma as_map_outcome:
  assumes ok: "as_ok t s" and t: "t \<noteq> 0" and al: "unat v mod PAGE_SIZE = 0" "unat f mod PAGE_SIZE = 0"
  obtains (oom) s' where "as_map t v f p b s = Some (Inl OutOfFrames, s')"
      "as_ok t s'" "grows t s s'" "leaf_of t s' = leaf_of t s"
    | (mapped) s' where "as_map t v f p b s = Some (Inr (frame_in (leaf_of t s v)), s')"
      "as_ok t s'" "grows t s s'"
      "leaf_of t s' = (\<lambda>w. if vpage w = vpage v then f OR leaf_flags p b else leaf_of t s w)"
proof -
  obtain r3 s3 where n3: "next_or_alloc t (table_index v 4) s = Some (r3, s3)" "as_ok t s3" "grows t s s3"
      "leaf_of t s3 = leaf_of t s" "\<And>c. r3 = Some c \<Longrightarrow> sub 4 3 (snd s3) t v = Some c"
    using next_or_alloc_step [OF ok, of 3 v t] by auto
  show ?thesis
  proof (cases r3)
    case None
    then show ?thesis using oom [of s3] n3 t al by (simp add: as_map_def)
  next
    case (Some pdpt)
    obtain r2 s2 where n2: "next_or_alloc pdpt (table_index v 3) s3 = Some (r2, s2)" "as_ok t s2" "grows t s3 s2"
        "leaf_of t s2 = leaf_of t s3" "\<And>c. r2 = Some c \<Longrightarrow> sub 4 2 (snd s2) t v = Some c"
      using next_or_alloc_step [OF n3(2), of 2 v pdpt] n3(5) [OF Some] by auto
    note g2 = grows_trans [OF n3(3) n2(3)]
    show ?thesis
    proof (cases r2)
      case None
      then show ?thesis using oom [of s2] n3 n2 Some t al g2 by (simp add: as_map_def)
    next
      case pd: (Some pd)
      obtain r1 s1 where n1: "next_or_alloc pd (table_index v 2) s2 = Some (r1, s1)" "as_ok t s1" "grows t s2 s1"
          "leaf_of t s1 = leaf_of t s2" "\<And>c. r1 = Some c \<Longrightarrow> sub 4 1 (snd s1) t v = Some c"
        using next_or_alloc_step [OF n2(2), of 1 v pd] n2(5) [OF pd] by (auto simp: numeral_2_eq_2)
      note g1 = grows_trans [OF g2 n1(3)]
      show ?thesis
      proof (cases r1)
        case None
        then show ?thesis using oom [of s1] n3 n2 n1 Some pd t al g1 by (simp add: as_map_def)
      next
        case pt: (Some pt)
        obtain pm' where w: "phys_write_u64_atomic (snd s1) (pt + table_index v 1 * 8) (f OR leaf_flags p b) = Some pm'"
            "as_ok t (fst s1, pm')" "grows t s1 (fst s1, pm')"
            "leaf_of t (fst s1, pm') = (\<lambda>w. if vpage w = vpage v then f OR leaf_flags p b else leaf_of t s1 w)"
          using leaf_write_ok [OF n1(2) n1(5) [OF pt]] by blast
        have "as_map t v f p b s = Some (Inr (frame_in (leaf_of t s v)), (fst s1, pm'))"
          using n3 n2 n1 Some pd pt t al w(1) leaf_read [OF n1(2) n1(5) [OF pt]]
          by (simp add: as_map_def frame_in_def)
        then show ?thesis
          using w(2) grows_trans [OF g1 w(3)] w(4) [unfolded n1(4) n2(4) n3(4)] by (rule mapped)
      qed
    qed
  qed
qed

lemma as_protect_outcome:
  assumes ok: "as_ok t s"
  obtains (absent) "\<not> present (leaf_of t s v)" "as_protect t v p b (snd s) = Some (False, snd s)"
    | (changed) pm' where "present (leaf_of t s v)" "as_protect t v p b (snd s) = Some (True, pm')"
      "as_ok t (fst s, pm')" "grows t s (fst s, pm')"
      "leaf_of t (fst s, pm') =
         (\<lambda>w. if vpage w = vpage v then (leaf_of t s v AND ADDR_MASK) OR leaf_flags p b else leaf_of t s w)"
proof -
  have tr: "tree 4 (snd s) t" using ok by (simp add: as_ok_def)
  show ?thesis
  proof (cases "sub 4 1 (snd s) t v")
    case None
    then show ?thesis
      using absent by (simp add: as_protect_def leaf_pte_pa_sub [OF tr] leaf_of_def look_sub)
  next
    case (Some q)
    obtain pm' where w: "phys_write_u64_atomic (snd s) (q + table_index v 1 * 8) ((leaf_of t s v AND ADDR_MASK) OR leaf_flags p b) = Some pm'"
        "as_ok t (fst s, pm')" "grows t s (fst s, pm')"
        "leaf_of t (fst s, pm') = (\<lambda>w. if vpage w = vpage v then (leaf_of t s v AND ADDR_MASK) OR leaf_flags p b else leaf_of t s w)"
      using leaf_write_ok [OF ok Some] by blast
    show ?thesis
      using absent changed [OF _ _ w(2-4)] w(1) leaf_read [OF ok Some] Some
      by (cases "present (leaf_of t s v)") (simp_all add: as_protect_def leaf_pte_pa_sub [OF tr])
  qed
qed

subsection \<open>Pruning empty tables\<close>

lemma all_zero_slots:
  "table_ok pm t \<Longrightarrow> set is \<subseteq> {..<512} \<Longrightarrow> all_zero pm t is = Some (\<forall>i\<in>set is. slot pm t i = 0)"
proof (induction "is")
  case (Cons i "is")
  then have "unat (word_of_nat i :: u64) = i" by (simp add: unat_word_of_nat_eq)
  with read_u64_slot [OF Cons.prems(1), of "word_of_nat i"] Cons show ?case by auto
qed simp

lemma table_is_empty_blank: "table_ok pm t \<Longrightarrow> table_is_empty pm t = Some (blank pm t)"
  using all_zero_slots [of pm t "[0..<ENTRIES]"]
  by (auto simp: table_is_empty_def ENTRIES_def blank_def atLeast0LessThan)

lemma unlink_blank:
  fixes pm t v k p
  defines "pm' \<equiv> set_slot pm p (vidx v (Suc k)) 0"
  assumes tr: "tree 4 pm t" and k: "0 < k" "k < 4" and p: "sub 4 (Suc k) pm t v = Some p"
    and c: "child pm p (vidx v (Suc k)) = Some c" "blank pm c"
  shows "tree 4 pm' t" "tabs 4 pm' t = tabs 4 pm t - {c}" "look 4 pm' t w = look 4 pm t w"
    "touch pm pm' (tabs 4 pm t)" "Suc k \<le> j \<Longrightarrow> j \<le> 4 \<Longrightarrow> sub 4 j pm' t v = sub 4 j pm t v"
    "c \<in> tabs 4 pm t"
proof -
  let ?i = "vidx v (Suc k)"
  obtain m where m: "k = Suc m" using k(1) by (cases k) auto
  have trp: "tree (Suc k) pm p" using sub_tree [OF _ _ tr p] k by simp
  have tbp: "tabs (Suc k) pm p \<subseteq> tabs 4 pm t" using sub_tabs [OF _ _ p] k by simp
  have pT: "p \<in> tabs 4 pm t" using tbp tabs_self [of "Suc k" p pm] by auto
  note b = blank_tree [OF c(2) k(1)]
  have cT: "c \<in> tabs (Suc k) pm p" using tabs_child [OF _ c(1), of m] b(2) m by auto
  then show "c \<in> tabs 4 pm t" using tbp by blast
  have ch: "child pm' p ?i = None" unfolding pm'_def by (rule child_unlink)
  note rl = relink [OF trp [unfolded m] vidx_less [of v "Suc k"], of 0, folded pm'_def m, unfolded ch, simplified]
  have tp: "tabs (Suc k) pm' p = tabs (Suc k) pm p - {c}" using rl(2) c(1) b(2) m by simp
  have lp: "look (Suc k) pm' p w = look (Suc k) pm p w" for w
    using rl(3) [of w] c(1) b(3) m by simp
  have tch: "touch pm pm' {p}" unfolding pm'_def by (rule touch_set_slot) auto
  then show "touch pm pm' (tabs 4 pm t)" using pT by (auto intro: touch_mono)
  have sc: "sub_change 4 (Suc k) pm pm' t v p {}"
    unfolding sub_change_def using k tr p rl(1) tp touch_mono [OF tch] tabs_self [of "Suc k" p pm] m by auto
  note cd = changedD [OF sub_change [OF sc]]
  show "tree 4 pm' t" by (rule cd(1))
  show "tabs 4 pm' t = tabs 4 pm t - {c}" using cd(3) tp tbp cT by auto
  show "Suc k \<le> j \<Longrightarrow> j \<le> 4 \<Longrightarrow> sub 4 j pm' t v = sub 4 j pm t v" by (rule sub_keep [OF sc])
  have "look 4 pm t w = look (Suc k) pm p w" if "same_path 4 (Suc k) v w"
    using sub_look [of "Suc k" 4 pm t w p] sub_same_path [of "Suc k" 4 v w pm t] that p k by simp
  then show "look 4 pm' t w = look 4 pm t w" using cd(4) [of w] lp by simp
qed

definition shrinks :: "u64 \<Rightarrow> pool \<Rightarrow> pool \<Rightarrow> bool" where
  "shrinks t s s' \<longleftrightarrow> touch (snd s) (snd s') (tables t s) \<and> tables t s' \<subseteq> tables t s
     \<and> pool_rc s' = (\<lambda>u. if u \<in> tables t s - tables t s' \<and> pool_rc s u \<noteq> PINNED
                       then pool_rc s u - 1 else pool_rc s u)"

lemma shrinks_refl [simp]: "shrinks t s s"
  by (simp add: shrinks_def)

lemma shrinks_trans:
  assumes a: "shrinks t s s1" and b: "shrinks t s1 s2"
  shows "shrinks t s s2"
proof -
  have "touch (snd s) (snd s2) (tables t s)"
    using a b unfolding shrinks_def by (blast intro: touch_trans touch_mono)
  moreover have "pool_rc s2 = (\<lambda>u. if u \<in> tables t s - tables t s2 \<and> pool_rc s u \<noteq> PINNED
                       then pool_rc s u - 1 else pool_rc s u)"
    using a b by (auto simp: shrinks_def fun_eq_iff)
  ultimately show ?thesis using a b by (auto simp: shrinks_def)
qed

lemma fa_decref_PINNED: "fa_rc fa pa = PINNED \<Longrightarrow> fa_decref fa pa = fa"
  by (auto simp: fa_rc_def fa_decref_def split: option.splits)

lemma pool_free_rc: "pool_rc (pool_free s u) = (\<lambda>w. if w = u \<and> pool_rc s w \<noteq> PINNED then pool_rc s w - 1 else pool_rc s w)"
  using fa_decref_rc [of "fst s" u] fa_decref_PINNED [of "fst s" u]
  by (cases "fa_rc (fst s) u = PINNED") (auto simp: pool_free_def fa_free_def pool_rc_def [abs_def])

lemma pool_free_inv: "pool_inv s \<Longrightarrow> pool_inv (pool_free s u)"
  using pool.decref_inv [of s u] by (simp add: pool_free_def fa_free_def pool_decref_def)

lemma prune_step:
  assumes ok: "as_ok t s" and k: "0 < k" "k < 4" and p: "sub 4 (Suc k) (snd s) t v = Some p"
    and c: "sub 4 k (snd s) t v = Some c"
  obtains b s' where "prune p (table_index v (Suc k)) c s = Some (b, s')" "as_ok t s'" "shrinks t s s'"
    "leaf_of t s' = leaf_of t s"
    "\<And>j. Suc k \<le> j \<Longrightarrow> j \<le> 4 \<Longrightarrow> sub 4 j (snd s') t v = sub 4 j (snd s) t v"
proof -
  let ?pm' = "set_slot (snd s) p (vidx v (Suc k)) 0"
  have tr: "tree 4 (snd s) t" using ok by (simp add: as_ok_def)
  have "table_ok (snd s) c" using as_ok_sub(3) [OF ok _ _ c] k by simp
  note e = table_is_empty_blank [OF this]
  show ?thesis
  proof (cases "blank (snd s) c")
    case False
    then show ?thesis using that [of False s] e ok by (simp add: prune_def)
  next
    case True
    have "child (snd s) p (vidx v (Suc k)) = Some c" using sub_step [OF _ p] c k by simp
    note u = unlink_blank [OF tr k p this True]
    have w: "phys_write_u64_atomic (snd s) (p + table_index v (Suc k) * 8) 0 = Some ?pm'"
      using write_u64_slot [OF as_ok_sub(3) [OF ok _ _ p] table_index_less, of v "Suc k"] k
      by (simp add: vidx_def)
    let ?s' = "pool_free (fst s, ?pm') c"
    have sel: "snd ?s' = ?pm'" by (simp add: pool_free_def)
    have rc: "pool_rc ?s' = (\<lambda>w. if w = c \<and> pool_rc s w \<noteq> PINNED then pool_rc s w - 1 else pool_rc s w)"
      unfolding pool_free_rc by (auto simp: pool_rc_def fun_eq_iff)
    have "pool_inv ?s'"
      using ok pool_inv_pm [of "fst s" "snd s" ?pm'] by (intro pool_free_inv) (simp add: as_ok_def)
    then have "as_ok t ?s'" using u(1,2) ok rc by (auto simp: as_ok_def sel)
    moreover have "shrinks t s ?s'" using u(2,4,6) rc by (auto simp: shrinks_def tables_def sel fun_eq_iff)
    moreover have "leaf_of t ?s' = leaf_of t s" using u(3) by (simp add: leaf_of_def sel fun_eq_iff)
    ultimately show ?thesis using that [of True ?s'] e True w u(5) by (simp add: prune_def sel)
  qed
qed

lemma walk_next:
  assumes "tree 4 pm t" "0 < k" "k < 4" "sub 4 (Suc k) pm t v = Some q"
  shows "pt_next pm q (table_index v (Suc k)) = Some (sub 4 k pm t v)"
proof -
  have "table_ok pm q"
    using tree_table_ok [OF sub_tree [OF _ _ assms(1,4)] tabs_self [of "Suc k"]] assms(3) by simp
  from pt_next_child [OF this, of v "Suc k"] sub_step [OF _ assms(4)] assms(3) show ?thesis by simp
qed

text \<open>The part of \<^const>\<open>as_unmap\<close> after the leaf is found present.\<close>

definition unmap_tail :: "u64 \<Rightarrow> u64 \<Rightarrow> u64 \<Rightarrow> u64 \<Rightarrow> u64 \<Rightarrow> pool \<Rightarrow> pool option" where
  "unmap_tail t v pdpt pd pt s = do {
     pm0 \<leftarrow> phys_write_u64_atomic (snd s) (pt + table_index v 1 * 8) 0;
     (b1, s1) \<leftarrow> prune pd (table_index v 2) pt (fst s, pm0);
     (b2, s2) \<leftarrow> (if b1 then prune pdpt (table_index v 3) pd s1 else Some (False, s1));
     (b3, s3) \<leftarrow> (if b2 then prune t (table_index v 4) pdpt s2 else Some (False, s2));
     Some s3 }"

lemma unmap_tail_ok:
  assumes ok: "as_ok t s" and sub: "sub 4 3 (snd s) t v = Some pdpt" "sub 4 2 (snd s) t v = Some pd"
    "sub 4 1 (snd s) t v = Some pt"
  shows "\<exists>s'. unmap_tail t v pdpt pd pt s = Some s' \<and> as_ok t s' \<and> shrinks t s s'
    \<and> leaf_of t s' = (\<lambda>w. if vpage w = vpage v then 0 else leaf_of t s w)"
proof -
  obtain pm0 where w: "phys_write_u64_atomic (snd s) (pt + table_index v 1 * 8) 0 = Some pm0"
      "as_ok t (fst s, pm0)" "grows t s (fst s, pm0)" "tables t (fst s, pm0) = tables t s"
      "leaf_of t (fst s, pm0) = (\<lambda>w. if vpage w = vpage v then 0 else leaf_of t s w)"
      "\<And>j. 1 \<le> j \<Longrightarrow> j \<le> 4 \<Longrightarrow> sub 4 j pm0 t v = sub 4 j (snd s) t v"
    using leaf_write_ok [OF ok sub(3), of 0] by blast
  have s0: "shrinks t s (fst s, pm0)"
    using w(3,4) by (simp add: grows_def shrinks_def)
  obtain b1 s1 where p1: "prune pd (table_index v 2) pt (fst s, pm0) = Some (b1, s1)" "as_ok t s1"
      "shrinks t (fst s, pm0) s1" "leaf_of t s1 = leaf_of t (fst s, pm0)"
      "\<And>j. 2 \<le> j \<Longrightarrow> j \<le> 4 \<Longrightarrow> sub 4 j (snd s1) t v = sub 4 j (snd s) t v"
    by (rule prune_step [OF w(2), of 1 v pd pt]) (use w(6) sub in \<open>auto simp: numeral_2_eq_2\<close>)
  obtain b2 s2 where p2: "(if b1 then prune pdpt (table_index v 3) pd s1 else Some (False, s1)) = Some (b2, s2)" "as_ok t s2"
      "shrinks t s1 s2" "leaf_of t s2 = leaf_of t s1"
      "\<And>j. 3 \<le> j \<Longrightarrow> j \<le> 4 \<Longrightarrow> sub 4 j (snd s2) t v = sub 4 j (snd s) t v"
  proof (cases b1)
    case True
    show ?thesis
      by (rule prune_step [OF p1(2), of 2 v pdpt pd])
        (use p1(5) sub True that in \<open>auto simp: numeral_3_eq_3 numeral_2_eq_2\<close>)
  qed (use p1 that in auto)
  obtain b3 s3 where p3: "(if b2 then prune t (table_index v 4) pdpt s2 else Some (False, s2)) = Some (b3, s3)" "as_ok t s3"
      "shrinks t s2 s3" "leaf_of t s3 = leaf_of t s2"
  proof (cases b2)
    case True
    show ?thesis
      by (rule prune_step [OF p2(2), of 3 v t pdpt]) (use p2(5) sub True that in auto)
  qed (use p2 that in auto)
  have "unmap_tail t v pdpt pd pt s = Some s3"
    using w(1) p1(1) p2(1) p3(1) by (simp add: unmap_tail_def)
  then show ?thesis
    using p3(2,4) p2(4) p1(4) w(5) shrinks_trans [OF shrinks_trans [OF shrinks_trans [OF s0 p1(3)] p2(3)] p3(3)]
    by (auto intro!: exI [of _ s3])
qed

lemma as_unmap_outcome:
  assumes ok: "as_ok t s"
  obtains (absent) "\<not> present (leaf_of t s v)" "as_unmap t v s = Some (None, s)"
    | (unmapped) s' where "present (leaf_of t s v)"
      "as_unmap t v s = Some (Some (leaf_of t s v AND ADDR_MASK), s')" "as_ok t s'" "shrinks t s s'"
      "leaf_of t s' = (\<lambda>w. if vpage w = vpage v then 0 else leaf_of t s w)"
proof -
  have tr: "tree 4 (snd s) t" using ok by (simp add: as_ok_def)
  note n3 = walk_next [OF tr, of 3 v t, simplified]
  have none: "leaf_of t s v = 0" if "sub 4 1 (snd s) t v = None"
    using that by (simp add: leaf_of_def look_sub)
  show ?thesis
  proof (cases "sub 4 3 (snd s) t v")
    case None
    then have "sub 4 1 (snd s) t v = None" using sub_None [of 2 4] sub_None [of 1 4] by (simp add: eval_nat_numeral)
    then show ?thesis using absent none n3 None by (simp add: as_unmap_def)
  next
    case pdpt: (Some pdpt)
    note n2 = walk_next [OF tr, of 2 v pdpt, simplified, OF pdpt]
    show ?thesis
    proof (cases "sub 4 2 (snd s) t v")
      case None
      then have "sub 4 1 (snd s) t v = None" using sub_None [of 1 4] by (simp add: eval_nat_numeral)
      then show ?thesis using absent none n3 n2 pdpt None by (simp add: as_unmap_def)
    next
      case pd: (Some pd)
      note n1 = walk_next [OF tr, of 1 v pd, simplified, folded One_nat_def numeral_2_eq_2, OF pd]
      show ?thesis
      proof (cases "sub 4 1 (snd s) t v")
        case None
        then show ?thesis using absent none n3 n2 n1 pdpt pd by (simp add: as_unmap_def)
      next
        case pt: (Some pt)
        note rd = leaf_read [OF ok pt]
        show ?thesis
        proof (cases "present (leaf_of t s v)")
          case False
          then show ?thesis using absent n3 n2 n1 pdpt pd pt rd by (simp add: as_unmap_def)
        next
          case True
          obtain s' where "unmap_tail t v pdpt pd pt s = Some s'" "as_ok t s'" "shrinks t s s'"
              "leaf_of t s' = (\<lambda>w. if vpage w = vpage v then 0 else leaf_of t s w)"
            using unmap_tail_ok [OF ok pdpt pd pt] by blast
          then show ?thesis
            using unmapped [of s'] True n3 n2 n1 pdpt pd pt rd by (auto simp: as_unmap_def unmap_tail_def bind_eq_Some_conv)
        qed
      qed
    qed
  qed
qed

subsection \<open>The paging interface\<close>

lemma and_bit: "p AND PROT_WRITE = 0 \<or> p AND PROT_WRITE = PROT_WRITE" "p AND PROT_EXEC = 0 \<or> p AND PROT_EXEC = PROT_EXEC"
proof -
  have "(p AND 2 ^ n = 0 \<or> p AND 2 ^ n = 2 ^ n)" for n
    by (cases "bit p n") (auto simp: and_exp_eq_0_iff_not_bit intro!: bit_word_eqI simp: bit_simps)
  from this [of 1] this [of 2] show "p AND PROT_WRITE = 0 \<or> p AND PROT_WRITE = PROT_WRITE"
    "p AND PROT_EXEC = 0 \<or> p AND PROT_EXEC = PROT_EXEC" by simp_all
qed

lemma leaf_prot_flags:
  assumes "is_frame_pa f"
  shows "leaf_prot (f OR leaf_flags p b) = PROT_READ OR (p AND (PROT_WRITE OR PROT_EXEC))"
proof -
  have "leaf_prot (f OR leaf_flags p b) =
      (let b1 = (if prot_contains p PROT_WRITE then PROT_READ OR PROT_WRITE else PROT_READ)
       in if prot_contains p PROT_EXEC then b1 OR PROT_EXEC else b1)"
    using assms leaf_flags_bits(4,5) [of p b]
    by (simp add: leaf_prot_def bit.conj_disj_distrib2)
  moreover have "p AND (PROT_WRITE OR PROT_EXEC) = (p AND PROT_WRITE) OR (p AND PROT_EXEC)"
    by (rule bit.conj_disj_distrib)
  ultimately show ?thesis
    using and_bit [of p] by (auto simp: prot_contains_def Let_def)
qed

definition page_view :: "u64 \<Rightarrow> u64 \<Rightarrow> prot \<Rightarrow> bool \<Rightarrow> translation" where
  "page_view w f p b = \<lparr>tr_paddr = f OR (w AND 0xfff), tr_prot = PROT_READ OR (p AND (PROT_WRITE OR PROT_EXEC)),
                        tr_supervisor = b\<rparr>"

lemma decode_new_leaf:
  assumes "is_frame_pa f"
  shows "decode_leaf w (f OR leaf_flags p b) = Some (page_view w f p b)"
  using assms leaf_flags_bits [of p b] leaf_prot_flags [OF assms, of p b]
  by (simp add: decode_leaf_def page_view_def bit.conj_disj_distrib2)

lemma translate_ok: "as_ok t s \<Longrightarrow> as_translate t (snd s) w = Some (decode_leaf w (leaf_of t s w))"
  by (simp add: as_ok_def leaf_of_def translate_look)

lemma decode_leaf_0 [simp]: "decode_leaf w 0 = None"
  by (simp add: decode_leaf_def)

lemma decode_leaf_iff: "decode_leaf w e = None \<longleftrightarrow> \<not> present e"
  by (simp add: decode_leaf_def)

lemma leaf_of_page: "vpage v = vpage w \<Longrightarrow> leaf_of t s v = leaf_of t s w"
  using same_path_vpage [of w v] same_path_0 [of 4 w v] sub_same_path [of 1 4 w v "snd s" t]
  by (simp add: leaf_of_def look_sub split: option.split)

locale paging =
  fixes inv :: "'s \<Rightarrow> bool"
    and walk :: "'s \<Rightarrow> u64 \<Rightarrow> translation option option"
    and put :: "u64 \<Rightarrow> u64 \<Rightarrow> prot \<Rightarrow> bool \<Rightarrow> 's \<Rightarrow> ((map_err + u64 option) \<times> 's) option"
    and unput :: "u64 \<Rightarrow> 's \<Rightarrow> (u64 option \<times> 's) option"
  assumes put_total: "inv s \<Longrightarrow> put v f p b s \<noteq> None"
    and put_inv: "inv s \<Longrightarrow> put v f p b s = Some (r, s') \<Longrightarrow> inv s'"
    and put_fail: "inv s \<Longrightarrow> put v f p b s = Some (Inl e, s') \<Longrightarrow> walk s' = walk s"
    and put_walk: "inv s \<Longrightarrow> unat f < 2 ^ 52 \<Longrightarrow> put v f p b s = Some (Inr old, s') \<Longrightarrow>
      walk s' w = (if vpage w = vpage v then Some (Some (page_view w f p b)) else walk s w)"
    and unput_total: "inv s \<Longrightarrow> unput v s \<noteq> None"
    and unput_inv: "inv s \<Longrightarrow> unput v s = Some (x, s') \<Longrightarrow> inv s'"
    and unput_walk: "inv s \<Longrightarrow> unput v s = Some (x, s') \<Longrightarrow>
      walk s' w = (if vpage w = vpage v then Some None else walk s w)"
    and walk_page: "inv s \<Longrightarrow> vpage v = vpage w \<Longrightarrow> walk s v = Some None \<Longrightarrow> walk s w = Some None"
begin

text \<open>Unmapping what was just mapped over nothing restores every translation.\<close>

lemma put_unput:
  assumes "inv s" "unat f < 2 ^ 52" "walk s v = Some None"
    and "put v f p b s = Some (Inr old, s1)" "unput v s1 = Some (r, s2)"
  shows "walk s2 = walk s"
proof
  fix w
  have "inv s1" by (rule put_inv [OF assms(1,4)])
  from unput_walk [OF this assms(5), of w] put_walk [OF assms(1,2,4), of w]
  show "walk s2 w = walk s w" using walk_page [OF assms(1) _ assms(3), of w] by auto
qed

text \<open>Mappings of different pages do not interfere, in either order.\<close>

lemma put_put_commute:
  assumes "inv s" "unat f < 2 ^ 52" "unat g < 2 ^ 52" "vpage v \<noteq> vpage w"
    and "put v f p b s = Some (Inr o1, s1)" "put w g q c s1 = Some (Inr o2, s2)"
    and "put w g q c s = Some (Inr o3, s3)" "put v f p b s3 = Some (Inr o4, s4)"
  shows "walk s2 = walk s4"
proof
  fix x
  note i1 = put_inv [OF assms(1,5)] and i3 = put_inv [OF assms(1,7)]
  show "walk s2 x = walk s4 x"
    using put_walk [OF i1 assms(3,6), of x] put_walk [OF assms(1,2,5), of x]
      put_walk [OF i3 assms(2,8), of x] put_walk [OF assms(1,3,7), of x] assms(4) by auto
qed

lemma put_put_same:
  assumes "inv s" "unat f < 2 ^ 52" "unat g < 2 ^ 52"
    and "put v f p b s = Some (Inr o1, s1)" "put v g q c s1 = Some (Inr o2, s2)" "put v g q c s = Some (Inr o3, s3)"
  shows "walk s2 = walk s3"
proof
  fix x
  show "walk s2 x = walk s3 x"
    using put_walk [OF put_inv [OF assms(1,4)] assms(3,5), of x] put_walk [OF assms(1,2,4), of x]
      put_walk [OF assms(1,3,6), of x] by auto
qed

end

lemma as_map_cases:
  assumes "as_ok t s"
  obtains (err) e s' where "as_map t v f p b s = Some (Inl e, s')" "as_ok t s'" "grows t s s'" "leaf_of t s' = leaf_of t s"
    | (mapped) s' where "as_map t v f p b s = Some (Inr (frame_in (leaf_of t s v)), s')" "t \<noteq> 0"
      "unat v mod PAGE_SIZE = 0" "unat f mod PAGE_SIZE = 0" "as_ok t s'" "grows t s s'"
      "leaf_of t s' = (\<lambda>w. if vpage w = vpage v then f OR leaf_flags p b else leaf_of t s w)"
proof -
  show ?thesis
  proof (cases "t \<noteq> 0 \<and> unat v mod PAGE_SIZE = 0 \<and> unat f mod PAGE_SIZE = 0")
    case True
    then have h: "t \<noteq> 0" "unat v mod PAGE_SIZE = 0" "unat f mod PAGE_SIZE = 0" by blast+
    show ?thesis by (rule as_map_outcome [OF assms h, of p b]) (erule err, assumption+, erule mapped, rule h, rule h, rule h, assumption+)
  next
    case False
    then have "\<exists>e. as_map t v f p b s = Some (Inl e, s)" unfolding as_map_def by auto
    then show ?thesis using err [of _ s] assms by auto
  qed
qed

interpretation pt: paging "as_ok t" "\<lambda>s. as_translate t (snd s)" "as_map t" "as_unmap t"
proof (unfold_locales, goal_cases)
  case (1 s v f p b)
  show ?case by (rule as_map_cases [OF 1, of v f p b]) auto
next
  case (2 s v f p b r s')
  show ?case by (rule as_map_cases [OF 2(1), of v f p b]) (use 2(2) in auto)
next
  case (3 s v f p b e s')
  show ?case
    by (rule as_map_cases [OF 3(1), of v f p b]) (use 3 in \<open>auto simp: translate_ok fun_eq_iff\<close>)
next
  case (4 s f v p b old s' w)
  show ?case
  proof (rule as_map_cases [OF 4(1), of v f p b])
    fix s1 assume a: "as_map t v f p b s = Some (Inr (frame_in (leaf_of t s v)), s1)" "unat f mod PAGE_SIZE = 0"
      "as_ok t s1" "leaf_of t s1 = (\<lambda>w. if vpage w = vpage v then f OR leaf_flags p b else leaf_of t s w)"
    have "is_frame_pa f" using a(2) 4(2) by (rule is_frame_paI)
    moreover have "s' = s1" using a(1) 4(3) by simp
    ultimately show ?thesis using a(3,4) 4(1) by (simp add: translate_ok decode_new_leaf)
  qed (use 4(3) in simp_all)
next
  case (5 s v)
  show ?case by (rule as_unmap_outcome [OF 5, of v]) auto
next
  case (6 s v r s')
  show ?case by (rule as_unmap_outcome [OF 6(1), of v]) (use 6 in auto)
next
  case (7 s v r s' w)
  have eq: "leaf_of t s w = leaf_of t s v" if "vpage w = vpage v"
    using that by (rule leaf_of_page)
  show ?case
  proof (rule as_unmap_outcome [OF 7(1), of v])
    assume "\<not> present (leaf_of t s v)" "as_unmap t v s = Some (None, s)"
    then show ?thesis using 7 eq by (simp add: translate_ok decode_leaf_iff)
  next
    fix s1 assume "as_unmap t v s = Some (Some (leaf_of t s v AND ADDR_MASK), s1)" "as_ok t s1"
      "leaf_of t s1 = (\<lambda>w. if vpage w = vpage v then 0 else leaf_of t s w)"
    then show ?thesis using 7 by (simp add: translate_ok)
  qed
next
  case (8 s v w)
  then show ?case using leaf_of_page [OF 8(2), of t s] by (simp add: translate_ok decode_leaf_iff)
qed

subsection \<open>How many frames a mapping needs\<close>

definition avail :: "pool \<Rightarrow> nat" where
  "avail s = (if fa_use_reserve (fst s) then length (fa_free_list (fst s))
              else length (fa_free_list (fst s)) - fa_reserve (fst s))"

lemma alloc_avail:
  assumes "pool_alloc s = Some (r, s')"
  shows "r = None \<longleftrightarrow> avail s = 0" "avail s \<le> Suc (avail s')"
proof -
  have "(r = None \<longleftrightarrow> avail s = 0) \<and> avail s \<le> Suc (avail s')"
  proof (cases "fa_free_list (fst s)")
    case Nil
    then have "r = None" "s' = s" "avail s = 0"
      using assms by (simp_all add: pool_alloc_def fa_alloc_def avail_def split: if_splits)
    then show ?thesis by simp
  next
    case (Cons f rest)
    show ?thesis
    proof (cases "\<not> fa_use_reserve (fst s) \<and> length (fa_free_list (fst s)) \<le> fa_reserve (fst s)")
      case True
      then have "r = None" "s' = s" "avail s = 0"
        using assms by (simp_all add: pool_alloc_def fa_alloc_def avail_def)
      then show ?thesis by simp
    next
      case False
      then obtain pm' where "r = Some (frame_pa f)" "fa_free_list (fst s') = rest"
          "fa_use_reserve (fst s') = fa_use_reserve (fst s)" "fa_reserve (fst s') = fa_reserve (fst s)"
        using assms Cons unfolding pool_alloc_def fa_alloc_def Let_def by (auto simp: bind_eq_Some_conv)
      then show ?thesis using Cons False unfolding avail_def by (simp, linarith)
    qed
  qed
  then show "r = None \<longleftrightarrow> avail s = 0" "avail s \<le> Suc (avail s')" by blast+
qed

lemma next_or_alloc_avail:
  assumes "next_or_alloc q i s = Some (r, s')"
  shows "r = None \<Longrightarrow> avail s = 0" "avail s \<le> Suc (avail s')"
proof -
  consider "r \<noteq> None" "s' = s" | "pool_alloc s = Some (None, s')" "r = None"
    | c s1 where "pool_alloc s = Some (Some c, s1)" "r = Some c" "fst s' = fst s1"
    using assms by (auto simp: next_or_alloc_def bind_eq_Some_conv split: if_splits option.splits)
  then show "r = None \<Longrightarrow> avail s = 0" "avail s \<le> Suc (avail s')"
    by (cases; use alloc_avail [of s] in \<open>force simp: avail_def [of s'] avail_def\<close>)+
qed

lemma as_map_three:
  assumes "as_ok t s" "t \<noteq> 0" "unat v mod PAGE_SIZE = 0" "unat f mod PAGE_SIZE = 0" "3 \<le> avail s"
  shows "\<exists>s'. as_map t v f p b s = Some (Inr (frame_in (leaf_of t s v)), s')"
proof (rule as_map_outcome [OF assms(1-4), of p b])
  fix s' assume "as_map t v f p b s = Some (Inl OutOfFrames, s')"
  with assms(2-4) have oom: "do {
      (r3, s3) \<leftarrow> next_or_alloc t (table_index v 4) s;
      (case r3 of None \<Rightarrow> Some True | Some q \<Rightarrow> do {
        (r2, s2) \<leftarrow> next_or_alloc q (table_index v 3) s3;
        (case r2 of None \<Rightarrow> Some True | Some r \<Rightarrow> do {
          (r1, s1) \<leftarrow> next_or_alloc r (table_index v 2) s2;
          Some (r1 = None) }) }) } = Some True"
    by (auto simp: as_map_def Let_def split: option.splits bind_splits)
  then consider s1 where "next_or_alloc t (table_index v 4) s = Some (None, s1)"
    | q s1 s2 where "next_or_alloc t (table_index v 4) s = Some (Some q, s1)"
        "next_or_alloc q (table_index v 3) s1 = Some (None, s2)"
    | q s1 r s2 s3 where "next_or_alloc t (table_index v 4) s = Some (Some q, s1)"
        "next_or_alloc q (table_index v 3) s1 = Some (Some r, s2)"
        "next_or_alloc r (table_index v 2) s2 = Some (None, s3)"
    by (auto split: option.splits bind_splits)
  then have "avail s < 3"
  proof cases
    case (3 q s1 r s2 s3)
    have "avail s \<le> Suc (Suc (avail s2))"
      using next_or_alloc_avail(2) [OF 3(1)] next_or_alloc_avail(2) [OF 3(2)] by simp
    with next_or_alloc_avail(1) [OF 3(3)] show ?thesis by simp
  qed (use next_or_alloc_avail(1) [OF _ refl] in \<open>auto dest: next_or_alloc_avail(2)\<close>)
  then show ?thesis using assms(5) by simp
qed blast

lemma as_new_ok:
  assumes "pool_inv s" "as_new s = Some (Some t, s')"
  shows "as_ok t s'" "leaf_of t s' v = 0"
  using alloc_blank [OF assms(1), of t s'] assms(2) blank_tree [of "snd s'" t 4]
  by (simp_all add: as_new_def as_ok_def leaf_of_def)

text \<open>What a mapping or unmapping leaves alone outside the tables.\<close>

lemma touch_data:
  assumes "touch pm pm' S" "\<And>x. x \<in> S \<Longrightarrow> table_ok pm x" "table_ok pm u" "u \<notin> S"
  shows "mem_load (pm_mem pm') (unat u) PAGE_SIZE = mem_load (pm_mem pm) (unat u) PAGE_SIZE"
proof (rule mem_load_cong)
  fix a assume a: "unat u \<le> a" "a < unat u + PAGE_SIZE"
  have "a < unat x \<or> unat x + PAGE_SIZE \<le> a" if "x \<in> S" for x
    using table_ok_disjoint [OF assms(2) [OF that] assms(3)] that assms(4) a by fastforce
  then show "pm_mem pm' a = pm_mem pm a" using assms(1) by (simp add: touch_def)
qed

lemma grows_data:
  assumes "as_ok t s" "as_ok t s'" "grows t s s'" "0 < pool_rc s u"
  shows "pool_rc s' u = pool_rc s u"
    and "u \<notin> tables t s \<Longrightarrow> mem_load (pm_mem (snd s')) (unat u) PAGE_SIZE = mem_load (pm_mem (snd s)) (unat u) PAGE_SIZE"
proof -
  have fresh: "u \<notin> tables t s' - tables t s"
    using assms(3,4) unfolding grows_def by (metis less_irrefl)
  then show "pool_rc s' u = pool_rc s u" using assms(3) by (simp add: grows_def)
  assume n: "u \<notin> tables t s"
  have "table_ok (snd s) x" if "x \<in> tables t s'" for x
    using tree_table_ok [of 4 "snd s'" t x] that assms(2,3) touch_table_ok [of "snd s" "snd s'" "tables t s'" x]
    by (simp add: as_ok_def tables_def grows_def)
  moreover have "table_ok (snd s) u" using owned_table_ok [of s u] assms(1,4) by (simp add: as_ok_def)
  moreover have "u \<notin> tables t s'" using n fresh by blast
  ultimately show "mem_load (pm_mem (snd s')) (unat u) PAGE_SIZE = mem_load (pm_mem (snd s)) (unat u) PAGE_SIZE"
    using assms(3) by (intro touch_data [of _ _ "tables t s'"]) (auto simp: grows_def)
qed

lemma shrinks_data:
  assumes "as_ok t s" "shrinks t s s'" "0 < pool_rc s u" "u \<notin> tables t s"
  shows "pool_rc s' u = pool_rc s u"
    and "mem_load (pm_mem (snd s')) (unat u) PAGE_SIZE = mem_load (pm_mem (snd s)) (unat u) PAGE_SIZE"
proof -
  show "pool_rc s' u = pool_rc s u" using assms(2,4) by (simp add: shrinks_def)
  have "table_ok (snd s) x" if "x \<in> tables t s" for x
    using tree_table_ok [of 4 "snd s" t x] that assms(1) by (simp add: as_ok_def tables_def)
  moreover have "table_ok (snd s) u" using owned_table_ok [of s u] assms(1,3) by (simp add: as_ok_def)
  ultimately show "mem_load (pm_mem (snd s')) (unat u) PAGE_SIZE = mem_load (pm_mem (snd s)) (unat u) PAGE_SIZE"
    using assms(2,4) by (intro touch_data [of _ _ "tables t s"]) (auto simp: shrinks_def)
qed

subsection \<open>A concrete address space\<close>

definition example_frames :: frame_alloc where
  "example_frames = \<lparr>fa_refcount = [PINNED, 0, 0, 0, 0, 0, 0, 0], fa_free_list = [1, 2, 3, 4, 5, 6, 7],
     fa_allocated = 0, fa_reserve = 0, fa_use_reserve = False\<rparr>"

lemma example_frames_inv: "pool_inv (example_frames, phys_new 32768)"
proof -
  have "replicate 8 (0::nat) = [0, 0, 0, 0, 0, 0, 0, 0]" by (simp add: eval_nat_numeral)
  then have "fa_new 8 = Some example_frames" by (simp add: fa_new_def example_frames_def upt_conv_Cons)
  then have "fa_inv example_frames" by (intro fa_inv_new [of 8]) simp_all
  moreover have "pool_fits example_frames (phys_new 32768)"
    by (simp add: pool_fits_def example_frames_def phys_new_def region_len_def next_multiple_of_def PAGE_SIZE_def HOST_PAGE_def)
  ultimately show ?thesis by (simp add: pool_inv_def)
qed

lemma example_new:
  obtains t s where "as_new (example_frames, phys_new 32768) = Some (Some t, s)" "t \<noteq> 0" "6 \<le> avail s"
proof -
  let ?p = "(example_frames, phys_new 32768)"
  have av: "avail ?p = 7" by (simp add: avail_def example_frames_def)
  obtain r s where a: "pool_alloc ?p = Some (r, s)"
    using pool.alloc_total [OF example_frames_inv] by (cases "pool_alloc ?p") auto
  from alloc_avail [OF a] av obtain t where t: "r = Some t" "6 \<le> avail s" by (cases r) auto
  have "pool_rc ?p t = 0" using alloc_blank(2) [OF example_frames_inv a [unfolded t(1)]] .
  moreover have "pool_rc ?p 0 = PINNED"
    by (simp add: fa_rc_def frame_of_def example_frames_def Let_def)
  ultimately have "t \<noteq> 0" by auto
  then show ?thesis using that [of t s] a t by (simp add: as_new_def)
qed

lemma example_space:
  obtains t s where "as_ok t s" "t \<noteq> 0" "3 \<le> avail s" "leaf_of t s = (\<lambda>_. 0)"
proof -
  obtain t s where n: "as_new (example_frames, phys_new 32768) = Some (Some t, s)" "t \<noteq> 0" "6 \<le> avail s"
    by (rule example_new)
  have "leaf_of t s = (\<lambda>_. 0)" using as_new_ok(2) [OF example_frames_inv n(1)] by blast
  then show ?thesis using that [of t s] as_new_ok(1) [OF example_frames_inv n(1)] n(2,3) by simp
qed

subsection \<open>Properties\<close>

text \<open>
  C3. Mapping a page is a functional update of the address space. After a successful
  \<^verbatim>\<open>AddrSpace::map\<close> every address of that page translates to the same offset of the given frame,
  with the requested write, execute and supervisor bits (a present page is always readable), and every
  address of every other page translates as before. The call returns the frame it displaced, the
  tables still form a tree of owned frames, and no count and no byte of a frame somebody else owns
  changed.
\<close>

theorem map_installs_page:
  assumes "as_ok t s" "unat f < 2 ^ 52" "as_map t v f p b s = Some (Inr old, s')"
  shows "as_ok t s'
    \<and> (\<forall>w. as_translate t (snd s') w =
          (if vpage w = vpage v then Some (Some (page_view w f p b)) else as_translate t (snd s) w))
    \<and> old = frame_in (leaf_of t s v)
    \<and> (\<forall>u. 0 < pool_rc s u \<longrightarrow> pool_rc s' u = pool_rc s u)
    \<and> (\<forall>u. 0 < pool_rc s u \<longrightarrow> u \<notin> tables t s \<longrightarrow>
          mem_load (pm_mem (snd s')) (unat u) PAGE_SIZE = mem_load (pm_mem (snd s)) (unat u) PAGE_SIZE)"
proof -
  have ok: "as_ok t s'" by (rule pt.put_inv [OF assms(1,3)])
  have g: "grows t s s'" "old = frame_in (leaf_of t s v)"
    by (rule as_map_cases [OF assms(1), of v f p b]; use assms(3) in simp)+
  show ?thesis
    using ok g(2) pt.put_walk [OF assms] grows_data [OF assms(1) ok g(1)] by blast
qed

theorem map_installs_page_witness:
  "\<exists>t s s' old. as_ok t s \<and> as_map t 0x1000 0x5000 PROT_RW False s = Some (Inr old, s')
     \<and> as_translate t (snd s') 0x1234 = Some (Some (page_view 0x1234 0x5000 PROT_RW False))"
proof -
  obtain t s where s: "as_ok t s" "t \<noteq> 0" "3 \<le> avail s" by (rule example_space)
  then obtain s' where m: "as_map t 0x1000 0x5000 PROT_RW False s = Some (Inr (frame_in (leaf_of t s 0x1000)), s')"
    using as_map_three [of t s "0x1000" "0x5000" PROT_RW False] by (auto simp: PAGE_SIZE_def)
  have "vpage 0x1234 = vpage 0x1000" by (simp add: vpage_def PAGE_SIZE_def)
  with map_installs_page [OF s(1) _ m]
  have "as_translate t (snd s') 0x1234 = Some (Some (page_view 0x1234 0x5000 PROT_RW False))" by simp
  with m s(1) show ?thesis by blast
qed





text \<open>
  C6. Changing a page's protection keeps its frame. \<^verbatim>\<open>AddrSpace::protect\<close> reports whether the page was
  mapped; if it was, its addresses keep their physical addresses and take the new protection, and no
  other page and no reference count changes. A page that is not mapped stays so.
\<close>

theorem protect_keeps_frame:
  assumes "as_ok t s"
  shows "\<exists>pm'. as_protect t v p b (snd s) = Some (frame_in (leaf_of t s v) \<noteq> None, pm') \<and> as_ok t (fst s, pm')
    \<and> (\<forall>w. as_translate t pm' w =
        (if vpage w = vpage v
         then Some (map_option (\<lambda>f. page_view w f p b) (frame_in (leaf_of t s v)))
         else as_translate t (snd s) w))"
proof (rule as_protect_outcome [OF assms, of v p b])
  assume a: "\<not> present (leaf_of t s v)" "as_protect t v p b (snd s) = Some (False, snd s)"
  have "as_translate t (snd s) w = Some None" if "vpage w = vpage v" for w
    using a(1) leaf_of_page [OF that, of t s] assms by (simp add: translate_ok decode_leaf_def)
  then show ?thesis using a assms by (simp add: frame_in_def)
next
  fix pm' assume a: "present (leaf_of t s v)" "as_protect t v p b (snd s) = Some (True, pm')"
    "as_ok t (fst s, pm')"
    "leaf_of t (fst s, pm') =
       (\<lambda>w. if vpage w = vpage v then (leaf_of t s v AND ADDR_MASK) OR leaf_flags p b else leaf_of t s w)"
  have "is_frame_pa (leaf_of t s v AND ADDR_MASK)" by (simp add: is_frame_pa_def and.assoc)
  note dec = decode_new_leaf [OF this]
  have "as_translate t pm' w =
      (if vpage w = vpage v then Some (Some (page_view w (leaf_of t s v AND ADDR_MASK) p b))
       else as_translate t (snd s) w)" for w
    using translate_ok [OF a(3), of w] translate_ok [OF assms, of w] a(4) dec by simp
  then show ?thesis using a(1-3) by (simp add: frame_in_def)
qed

theorem protect_keeps_frame_witness:
  "\<exists>t s pm'. as_ok t s \<and> as_protect t 0x1000 PROT_READ False (snd s) = Some (False, pm')"
proof -
  obtain t s where s: "as_ok t s" "t \<noteq> 0" "3 \<le> avail s" "leaf_of t s = (\<lambda>_. 0)" by (rule example_space)
  with protect_keeps_frame [OF s(1), of "0x1000" PROT_READ False]
  obtain pm' where "as_protect t 0x1000 PROT_READ False (snd s) = Some (False, pm')" by (auto simp: frame_in_def)
  with s(1) show ?thesis by blast
qed

end
