(* ===== verification/Page_Locks.thy ===== *)
theory Page_Locks
  imports Nixvm_Base
begin

text \<open>
  Locked page ranges, \<^verbatim>\<open>src/vcpu/pagelocks.rs\<close>. The ordered map from range starts to range ends is
  the list of its entries in key order. The abstract view of a lock table is the set of locked pages;
  every operation is shown to be the set operation it stands for, with the page counter exact.
\<close>

type_synonym range_map = "(nat \<times> nat) list"

record page_locks =
  pl_ranges :: range_map
  pl_pages :: nat
  pl_future :: bool

definition pl_default :: page_locks where
  "pl_default = \<lparr>pl_ranges = [], pl_pages = 0, pl_future = False\<rparr>"

subsection \<open>The ordered map\<close>

definition rm_remove :: "nat \<Rightarrow> range_map \<Rightarrow> range_map" where
  "rm_remove k m = filter (\<lambda>(s, _). s \<noteq> k) m"

definition rm_insert :: "nat \<Rightarrow> nat \<Rightarrow> range_map \<Rightarrow> range_map" where
  "rm_insert k v m = filter (\<lambda>(s, _). s < k) m @ (k, v) # filter (\<lambda>(s, _). k < s) m"

text \<open>\<open>rm_back P m\<close> is \<^verbatim>\<open>range(..).next_back()\<close> for a range \<open>P\<close> of keys.\<close>

definition rm_back :: "(nat \<Rightarrow> bool) \<Rightarrow> range_map \<Rightarrow> (nat \<times> nat) option" where
  "rm_back P m = (case rev (filter (\<lambda>(s, _). P s) m) of [] \<Rightarrow> None | x # _ \<Rightarrow> Some x)"

subsection \<open>Operations\<close>

text \<open>\<open>None\<close> is a panic: \<^verbatim>\<open>BTreeMap::range\<close> refuses a range that ends before it starts.\<close>

definition locked_within :: "page_locks \<Rightarrow> nat \<Rightarrow> nat \<Rightarrow> nat option" where
  "locked_within l start end =
     (let n0 = (case rm_back (\<lambda>s. s \<le> start) (pl_ranges l) of
                  None \<Rightarrow> 0 | Some (_, e) \<Rightarrow> min e end - start)
      in if start + 1 > end then None
         else Some (foldl (\<lambda>n (s, e). n + (min e end - s)) n0
                (filter (\<lambda>(s, _). start + 1 \<le> s \<and> s < end) (pl_ranges l))))"

definition pl_drop :: "nat \<times> nat \<Rightarrow> page_locks \<Rightarrow> page_locks" where
  "pl_drop r l = (case r of (s, e) \<Rightarrow>
     l\<lparr>pl_pages := pl_pages l - (e - s), pl_ranges := rm_remove s (pl_ranges l)\<rparr>)"

fun absorb :: "(nat \<times> nat) list \<Rightarrow> nat \<Rightarrow> page_locks \<Rightarrow> nat \<times> page_locks" where
  "absorb [] end l = (end, l)"
| "absorb ((s, e) # rs) end l = absorb rs (max end e) (pl_drop (s, e) l)"

definition pl_insert :: "page_locks \<Rightarrow> nat \<Rightarrow> nat \<Rightarrow> page_locks" where
  "pl_insert l start0 end0 =
     (if start0 \<ge> end0 then l
      else let (start, end1, l1) =
                 (case rm_back (\<lambda>s. s \<le> start0) (pl_ranges l) of
                    None \<Rightarrow> (start0, end0, l)
                  | Some (s, e) \<Rightarrow>
                      if e \<ge> start0 then (s, max end0 e, pl_drop (s, e) l) else (start0, end0, l));
               touching = filter (\<lambda>(s, _). start \<le> s \<and> s \<le> end1) (pl_ranges l1);
               (end, l2) = absorb touching end1 l1
           in l2\<lparr>pl_pages := pl_pages l2 + (end - start), pl_ranges := rm_insert start end (pl_ranges l2)\<rparr>)"

definition cut1 :: "nat \<Rightarrow> nat \<Rightarrow> nat \<times> nat \<Rightarrow> page_locks \<Rightarrow> page_locks" where
  "cut1 start end r l = (case r of (s, e) \<Rightarrow>
     let l1 = l\<lparr>pl_ranges := rm_remove s (pl_ranges l), pl_pages := pl_pages l - (e - s)\<rparr>;
         l2 = (if s < start then l1\<lparr>pl_ranges := rm_insert s start (pl_ranges l1),
                                    pl_pages := pl_pages l1 + (start - s)\<rparr> else l1)
     in if e > end then l2\<lparr>pl_ranges := rm_insert end e (pl_ranges l2),
                           pl_pages := pl_pages l2 + (e - end)\<rparr> else l2)"

definition pl_remove :: "page_locks \<Rightarrow> nat \<Rightarrow> nat \<Rightarrow> page_locks" where
  "pl_remove l start end =
     (if start \<ge> end then l
      else let hit0 = (case rm_back (\<lambda>s. s < start) (pl_ranges l) of
                         None \<Rightarrow> [] | Some (s, e) \<Rightarrow> if e > start then [(s, e)] else []);
               hit = hit0 @ filter (\<lambda>(s, _). start \<le> s \<and> s < end) (pl_ranges l)
           in foldl (\<lambda>l r. cut1 start end r l) l hit)"

definition pl_clear :: "page_locks \<Rightarrow> page_locks" where
  "pl_clear l = pl_default"

subsection \<open>The set of locked pages\<close>

definition pages_of :: "range_map \<Rightarrow> nat set" where
  "pages_of m = (\<Union>(s, e)\<in>set m. {s..<e})"

definition rm_ok :: "range_map \<Rightarrow> bool" where
  "rm_ok m \<longleftrightarrow> sorted_wrt (\<lambda>x y. snd x < fst y) m \<and> (\<forall>x\<in>set m. fst x < snd x)"

definition pl_inv :: "page_locks \<Rightarrow> bool" where
  "pl_inv l \<longleftrightarrow> rm_ok (pl_ranges l) \<and> pl_pages l = card (pages_of (pl_ranges l))"

definition weight :: "range_map \<Rightarrow> nat" where
  "weight m = sum_list (map (\<lambda>(s, e). e - s) m)"

lemma pages_of_simps [simp]:
  "pages_of [] = {}" "pages_of ((s, e) # m) = {s..<e} \<union> pages_of m"
  "pages_of (m @ n) = pages_of m \<union> pages_of n"
  by (auto simp: pages_of_def)

lemma weight_simps [simp]:
  "weight [] = 0" "weight ((s, e) # m) = (e - s) + weight m" "weight (m @ n) = weight m + weight n"
  by (simp_all add: weight_def)

lemma finite_pages [simp]: "finite (pages_of m)"
  by (induction m) auto

lemma rm_ok_Nil [simp]: "rm_ok []"
  by (simp add: rm_ok_def)

lemma rm_ok_Cons: "rm_ok ((s, e) # m) \<longleftrightarrow> s < e \<and> (\<forall>x\<in>set m. e < fst x) \<and> rm_ok m"
  by (auto simp: rm_ok_def)

lemma rm_ok_append:
  "rm_ok (m @ n) \<longleftrightarrow> rm_ok m \<and> rm_ok n \<and> (\<forall>x\<in>set m. \<forall>y\<in>set n. snd x < fst y)"
  by (fastforce simp: rm_ok_def sorted_wrt_append)

lemma rm_okD: "rm_ok m \<Longrightarrow> x \<in> set m \<Longrightarrow> fst x < snd x"
  by (simp add: rm_ok_def)

lemma rm_ok_sides:
  assumes "rm_ok (a @ b)" "x \<in> set a" "y \<in> set b"
  shows "snd x < fst y" "fst x < fst y" "fst x < snd x" "fst y < snd y"
  using assms rm_okD [OF assms(1), of x] rm_okD [OF assms(1), of y] by (auto simp: rm_ok_append intro: less_trans)

lemma rm_ok_parts: "rm_ok (a @ b) \<Longrightarrow> rm_ok a" "rm_ok (a @ b) \<Longrightarrow> rm_ok b"
  by (simp_all add: rm_ok_append)

lemma filter_fst: "filter (\<lambda>(s, _). P s) m = filter (\<lambda>x. P (fst x)) m"
  by (simp add: case_prod_beta')

lemma weight_card: "rm_ok m \<Longrightarrow> weight m = card (pages_of m)"
proof (induction m)
  case (Cons r m)
  obtain s e where r: "r = (s, e)" by (cases r)
  have "{s..<e} \<inter> pages_of m = {}" using Cons.prems r by (fastforce simp: rm_ok_Cons pages_of_def)
  then show ?case using Cons r by (simp add: rm_ok_Cons card_Un_disjoint)
qed simp

lemma rm_ok_filter: "rm_ok m \<Longrightarrow> rm_ok (filter P m)"
  by (induction m) (auto simp: rm_ok_Cons split: prod.splits)

text \<open>The table around a cut point: the ranges below it and those from it on.\<close>

lemma rm_split:
  assumes "rm_ok m"
  shows "m = filter (\<lambda>(s, _). s < k) m @ filter (\<lambda>(s, _). k \<le> s) m"
  using assms
proof (induction m)
  case (Cons r m)
  obtain s e where r: "r = (s, e)" by (cases r)
  have "filter (\<lambda>(s, _). s < k) m = []" if "k \<le> s"
    using Cons.prems r that by (fastforce simp: rm_ok_Cons filter_empty_conv)
  with Cons r show ?case by (auto simp: rm_ok_Cons)
qed simp

lemma rm_back_append:
  assumes "\<forall>x\<in>set n. \<not> P (fst x)" "\<forall>x\<in>set m. P (fst x)"
  shows "rm_back P (m @ n) = (if m = [] then None else Some (last m))"
proof -
  have "filter (\<lambda>(s, _). P s) (m @ n) = m"
    using assms by (simp add: filter_fst filter_empty_conv filter_id_conv)
  then show ?thesis unfolding rm_back_def by (cases m rule: rev_cases) simp_all
qed

lemma rm_remove_mid:
  assumes "rm_ok (a @ (s, e) # b)"
  shows "rm_remove s (a @ (s, e) # b) = a @ b"
proof -
  have "\<forall>x\<in>set a. fst x \<noteq> s" using rm_ok_sides(2) [OF assms, of _ "(s, e)"] by fastforce
  moreover have "\<forall>x\<in>set b. fst x \<noteq> s"
    using rm_ok_sides(2) [of "[(s, e)]" b] rm_ok_parts(2) [OF assms] by fastforce
  ultimately show ?thesis by (simp add: rm_remove_def filter_fst filter_id_conv)
qed

lemma rm_insert_mid:
  assumes "\<forall>x\<in>set a. fst x < k" "\<forall>x\<in>set b. k < fst x"
  shows "rm_insert k v (a @ b) = a @ (k, v) # b"
proof -
  have "\<forall>x\<in>set b. \<not> fst x < k" "\<forall>x\<in>set a. \<not> k < fst x" using assms by fastforce+
  with assms show ?thesis by (simp add: rm_insert_def filter_fst filter_id_conv filter_empty_conv)
qed

lemma rm_ok_drop_mid: "rm_ok (a @ m @ b) \<Longrightarrow> rm_ok (a @ b)"
  by (auto simp: rm_ok_append)

lemma absorb_ok:
  assumes "rm_ok (a @ b1 @ b2)" "pl_ranges l = a @ b1 @ b2" "pl_pages l = weight (pl_ranges l)"
    and "start < end1" "\<forall>x\<in>set b1. start < fst x \<and> fst x \<le> end1" "\<forall>x\<in>set b2. end1 < fst x"
    and "absorb b1 end1 l = (end, l')"
  shows "pl_ranges l' = a @ b2 \<and> pl_pages l' = weight (a @ b2) \<and> end1 \<le> end
    \<and> {start..<end} = {start..<end1} \<union> pages_of b1 \<and> (\<forall>x\<in>set b2. end < fst x) \<and> pl_future l' = pl_future l"
  using assms
proof (induction b1 arbitrary: end1 l)
  case (Cons r b1)
  obtain s e where r: "r = (s, e)" by (cases r)
  have se: "s < e" using Cons.prems(1) r by (simp add: rm_ok_append rm_ok_Cons)
  have drop: "pl_ranges (pl_drop (s, e) l) = a @ b1 @ b2"
    using rm_remove_mid [of a s e "b1 @ b2"] Cons.prems(1,2) r by (simp add: pl_drop_def)
  have "pl_pages (pl_drop (s, e) l) = weight (a @ b1 @ b2)"
    using Cons.prems(2,3) r by (simp add: pl_drop_def)
  moreover have "rm_ok (a @ b1 @ b2)" using Cons.prems(1) r rm_ok_drop_mid [of a "[r]" "b1 @ b2"] by simp
  moreover have "\<forall>x\<in>set b1. start < fst x \<and> fst x \<le> max end1 e"
    using Cons.prems(5) by (simp add: le_max_iff_disj)
  moreover have "\<forall>x\<in>set b2. max end1 e < fst x"
    using rm_ok_sides(1) [of "a @ [(s, e)]" "b1 @ b2" "(s, e)"] Cons.prems(1,6) r by simp
  ultimately have "pl_ranges l' = a @ b2 \<and> pl_pages l' = weight (a @ b2) \<and> max end1 e \<le> end
    \<and> {start..<end} = {start..<max end1 e} \<union> pages_of b1 \<and> (\<forall>x\<in>set b2. end < fst x)
    \<and> pl_future l' = pl_future (pl_drop (s, e) l)"
    using Cons.IH [of "pl_drop (s, e) l" "max end1 e"] drop Cons.prems(4,7) r
    by (simp add: less_max_iff_disj del: max_less_iff_conj)
  moreover have "{start..<max end1 e} = {start..<end1} \<union> {s..<e}"
    using Cons.prems(4,5) r se by auto
  moreover have "pl_future (pl_drop (s, e) l) = pl_future l" by (simp add: pl_drop_def)
  ultimately show ?case using r by (simp add: Un_assoc)
qed simp

lemma finish_insert:
  assumes "rm_ok (a @ b1 @ b2)" "pl_ranges l = a @ b1 @ b2" "pl_pages l = weight (pl_ranges l)"
    and "start < end1" "\<forall>x\<in>set a. snd x < start" "\<forall>x\<in>set b1. start < fst x \<and> fst x \<le> end1"
    and "\<forall>x\<in>set b2. end1 < fst x" "absorb b1 end1 l = (end, l2)"
    and "l' = l2\<lparr>pl_pages := pl_pages l2 + (end - start), pl_ranges := rm_insert start end (pl_ranges l2)\<rparr>"
  shows "pl_inv l' \<and> pages_of (pl_ranges l') = pages_of a \<union> {start..<end1} \<union> pages_of b1 \<union> pages_of b2
    \<and> pl_future l' = pl_future l"
proof -
  note ab = absorb_ok [OF assms(1-4,6-8)]
  have al: "\<forall>x\<in>set a. fst x < start" using rm_okD [OF rm_ok_parts(1) [OF assms(1)]] assms(5) by fastforce
  have se: "start < end" using ab assms(4) by auto
  have bg: "\<forall>x\<in>set b2. start < fst x" using ab se by fastforce
  have r: "pl_ranges l' = a @ (start, end) # b2"
    using rm_insert_mid [OF al bg] ab assms(9) by simp
  have "rm_ok (a @ (start, end) # b2)"
    using assms(1,5) ab se by (fastforce simp: rm_ok_append rm_ok_Cons)
  moreover have "pl_pages l' = weight (a @ (start, end) # b2)" using ab assms(9) by simp
  ultimately have "pl_inv l'" unfolding pl_inv_def r by (metis weight_card)
  moreover have "pl_future l' = pl_future l" using ab assms(9) by simp
  ultimately show ?thesis using r ab by auto
qed

lemma rm_cut:
  assumes "rm_ok b"
  obtains b1 b2 where "b = b1 @ b2" "filter (\<lambda>(s, _). s < k + 1) b = b1" "\<forall>x\<in>set b1. fst x \<le> k" "\<forall>x\<in>set b2. k < fst x"
  by (rule that [OF rm_split [OF assms, of "k + 1"]]) auto

lemma pl_insert_ok:
  assumes inv: "pl_inv l" and se: "start < end"
  shows "pl_inv (pl_insert l start end)
    \<and> pages_of (pl_ranges (pl_insert l start end)) = pages_of (pl_ranges l) \<union> {start..<end}
    \<and> pl_future (pl_insert l start end) = pl_future l"
proof -
  let ?m = "pl_ranges l"
  define a where "a = filter (\<lambda>(s, _). s < start + 1) ?m"
  define b where "b = filter (\<lambda>(s, _). start + 1 \<le> s) ?m"
  have ok: "rm_ok ?m" and pg: "pl_pages l = weight ?m" using inv weight_card by (auto simp: pl_inv_def)
  have m: "?m = a @ b" using rm_split [OF ok, of "start + 1"] by (simp add: a_def b_def)
  have ak: "\<forall>x\<in>set a. fst x \<le> start" and bk: "\<forall>x\<in>set b. start < fst x"
    by (auto simp: a_def b_def)
  have okb: "rm_ok b" using ok m by (simp add: rm_ok_append)
  have bk_eq: "rm_back (\<lambda>s. s \<le> start) ?m = (if a = [] then None else Some (last a))"
    unfolding m by (rule rm_back_append) (use ak bk in fastforce)+
  show ?thesis
  proof (cases "a = [] \<or> snd (last a) < start")
    case True
    have ae: "\<forall>x\<in>set a. snd x < start"
    proof (cases "a = []")
      case False
      then obtain a' s e where a': "a = a' @ [(s, e)]" by (cases a rule: rev_cases) auto
      then have "rm_ok (a' @ [(s, e)])" using ok m rm_ok_parts(1) [of a b] by simp
      then show ?thesis using rm_ok_sides [of a' "[(s, e)]"] True a' by fastforce
    qed simp
    have tch: "filter (\<lambda>(s, _). start \<le> s \<and> s \<le> end) ?m = filter (\<lambda>(s, _). s < end + 1) b"
    proof -
      have "filter (\<lambda>(s, _). start \<le> s \<and> s \<le> end) a = []"
        using ae rm_okD [OF rm_ok_parts(1) [of a b]] ok m by (fastforce simp: filter_fst filter_empty_conv)
      moreover have "filter (\<lambda>(s, _). start \<le> s \<and> s \<le> end) b = filter (\<lambda>(s, _). s < end + 1) b"
        using bk by (intro filter_cong) fastforce+
      ultimately show ?thesis by (simp add: m)
    qed
    have sel: "(case rm_back (\<lambda>s. s \<le> start) ?m of None \<Rightarrow> (start, end, l)
        | Some (s, e) \<Rightarrow> if e \<ge> start then (s, max end e, pl_drop (s, e) l) else (start, end, l)) = (start, end, l)"
      using True by (auto simp: bk_eq split: prod.splits)
    obtain b1 b2 where b: "b = b1 @ b2" "filter (\<lambda>(s, _). s < end + 1) b = b1" "\<forall>x\<in>set b1. fst x \<le> end" "\<forall>x\<in>set b2. end < fst x"
      by (rule rm_cut [OF okb])
    obtain en l2 where ab: "absorb b1 end l = (en, l2)" by (cases "absorb b1 end l")
    have ins: "pl_insert l start end =
        l2\<lparr>pl_pages := pl_pages l2 + (en - start), pl_ranges := rm_insert start en (pl_ranges l2)\<rparr>"
      using se ab unfolding pl_insert_def sel by (simp add: tch b(2) [simplified] Let_def)
    have bb: "\<forall>x\<in>set b1. start < fst x \<and> fst x \<le> end" using b bk by auto
    have mm: "?m = a @ b1 @ b2" using m b(1) by simp
    have "pl_inv (pl_insert l start end) \<and> pages_of (pl_ranges (pl_insert l start end))
        = pages_of a \<union> {start..<end} \<union> pages_of b1 \<union> pages_of b2 \<and> pl_future (pl_insert l start end) = pl_future l"
      by (rule finish_insert [OF ok [unfolded mm] mm pg se ae bb b(4) ab ins])
    then show ?thesis using mm by auto
  next
    case False
    then obtain a' s e where a': "a = a' @ [(s, e)]" by (cases a rule: rev_cases) auto
    with False have e: "start \<le> e" by simp
    let ?fin = "max end e" and ?l = "pl_drop (s, e) l"
    have ss: "s \<le> start" using ak a' by simp
    have ok': "rm_ok (a' @ (s, e) # b)" using ok m a' by simp
    have rl: "pl_ranges ?l = a' @ b" using rm_remove_mid [OF ok'] m a' by (simp add: pl_drop_def)
    have pl: "pl_pages ?l = weight (a' @ b)" using pg m a' by (simp add: pl_drop_def)
    have ae: "\<forall>x\<in>set a'. snd x < s" using rm_ok_sides(1) [OF ok', of _ "(s, e)"] by simp
    have okd: "rm_ok (a' @ b)" using ok' rm_ok_drop_mid [of a' "[(s, e)]" b] by simp
    have tch: "filter (\<lambda>(s', _). s \<le> s' \<and> s' \<le> ?fin) (pl_ranges ?l) = filter (\<lambda>(s, _). s < ?fin + 1) b"
    proof -
      have "filter (\<lambda>(s', _). s \<le> s' \<and> s' \<le> ?fin) a' = []"
        using ae rm_okD [OF rm_ok_parts(1) [OF okd]] by (fastforce simp: filter_fst filter_empty_conv)
      moreover have "filter (\<lambda>(s', _). s \<le> s' \<and> s' \<le> ?fin) b = filter (\<lambda>(s, _). s < ?fin + 1) b"
        using bk ss by (intro filter_cong) fastforce+
      ultimately show ?thesis by (simp add: rl)
    qed
    have sel: "(case rm_back (\<lambda>s. s \<le> start) ?m of None \<Rightarrow> (start, end, l)
        | Some (s, e) \<Rightarrow> if e \<ge> start then (s, max end e, pl_drop (s, e) l) else (start, end, l)) = (s, ?fin, ?l)"
      using e a' by (simp add: bk_eq)
    obtain b1 b2 where b: "b = b1 @ b2" "filter (\<lambda>(s, _). s < ?fin + 1) b = b1" "\<forall>x\<in>set b1. fst x \<le> ?fin" "\<forall>x\<in>set b2. ?fin < fst x"
      by (rule rm_cut [OF okb])
    obtain en l2 where ab: "absorb b1 ?fin ?l = (en, l2)" by (cases "absorb b1 ?fin ?l")
    have ins: "pl_insert l start end =
        l2\<lparr>pl_pages := pl_pages l2 + (en - s), pl_ranges := rm_insert s en (pl_ranges l2)\<rparr>"
      using se ab unfolding pl_insert_def sel by (simp add: tch b(2) [simplified] Let_def)
    have bb: "\<forall>x\<in>set b1. s < fst x \<and> fst x \<le> ?fin"
      using b(1,3) bk ss by (auto intro: le_less_trans)
    have mm: "pl_ranges ?l = a' @ b1 @ b2" using rl b(1) by simp
    have "pl_inv (pl_insert l start end) \<and> pages_of (pl_ranges (pl_insert l start end))
        = pages_of a' \<union> {s..<?fin} \<union> pages_of b1 \<union> pages_of b2 \<and> pl_future (pl_insert l start end) = pl_future ?l"
      by (rule finish_insert [OF okd [folded rl, unfolded mm] mm pl [folded rl] _ ae bb b(4) ab ins]) (use ss se in simp)
    moreover have "{s..<?fin} = {s..<e} \<union> {start..<end}" using ss e se by auto
    ultimately show ?thesis
      using m a' b(1) by (auto simp: pl_drop_def)
  qed
qed

subsection \<open>Unlocking\<close>

definition piece :: "nat \<Rightarrow> nat \<Rightarrow> nat \<times> nat \<Rightarrow> range_map" where
  "piece start end x = (if fst x < start then [(fst x, start)] else []) @ (if snd x > end then [(end, snd x)] else [])"

definition overlaps :: "nat \<Rightarrow> nat \<Rightarrow> nat \<times> nat \<Rightarrow> bool" where
  "overlaps start end x \<longleftrightarrow> fst x < end \<and> start < snd x"

lemma pages_of_piece:
  "start < end \<Longrightarrow> overlaps start end x \<Longrightarrow> pages_of (piece start end x) = {fst x..<snd x} - {start..<end}"
  by (auto simp: piece_def overlaps_def)

lemma rm_ok_piece:
  assumes "rm_ok (a @ x # b)" "start < end" "overlaps start end x"
  shows "rm_ok (a @ piece start end x @ b)"
proof -
  have in_x: "fst x \<le> fst y \<and> snd y \<le> snd x \<and> fst y < snd y" if "y \<in> set (piece start end x)" for y
  proof -
    have "y = (fst x, start) \<and> fst x < start \<or> y = (end, snd x) \<and> end < snd x"
      using that by (cases "fst x < start"; cases "end < snd x") (auto simp: piece_def)
    then show ?thesis using assms(2,3) by (auto simp: overlaps_def)
  qed
  have p: "rm_ok (piece start end x)"
    using assms(2,3) by (cases "fst x < start"; cases "end < snd x") (auto simp: piece_def rm_ok_Cons overlaps_def)
  have xb: "snd x < fst y" if "y \<in> set b" for y
    using rm_ok_sides(1) [of "a @ [x]" b x y] assms(1) that by simp
  have "snd y < fst z" if "y \<in> set (piece start end x)" "z \<in> set b" for y z
    using in_x [OF that(1)] xb [OF that(2)] by simp
  moreover have "snd y < fst z" if "y \<in> set a" "z \<in> set (piece start end x)" for y z
    using in_x [OF that(2)] rm_ok_sides(1) [OF assms(1) that(1), of x] by simp
  moreover have "rm_ok a" "rm_ok b" "\<forall>y\<in>set a. \<forall>z\<in>set b. snd y < fst z"
    using assms(1) rm_ok_drop_mid [of a "[x]" b] by (simp_all add: rm_ok_append)
  ultimately show ?thesis using p by (simp add: rm_ok_append ball_Un)
qed

lemma cut1_ok:
  assumes "rm_ok (a @ x # b)" "pl_ranges l = a @ x # b" "pl_pages l = weight (pl_ranges l)"
    and "start < end" "overlaps start end x"
  shows "pl_ranges (cut1 start end x l) = a @ piece start end x @ b"
    "pl_pages (cut1 start end x l) = weight (a @ piece start end x @ b)"
    "pl_future (cut1 start end x l) = pl_future l"
proof -
  obtain s e where x: "x = (s, e)" by (cases x)
  have al: "\<forall>y\<in>set a. fst y < s" using rm_ok_sides(2) [OF assms(1), of _ x] x by simp
  have bl: "\<forall>y\<in>set b. e < fst y" using rm_ok_sides(1) [of "a @ [x]" b x] assms(1) x by simp
  have o: "s < end" "start < e" "s < e" using assms(1,5) x rm_okD [OF assms(1), of x] by (simp_all add: overlaps_def)
  have rem: "rm_remove s (a @ x # b) = a @ b" using rm_remove_mid [of a s e b] assms(1) x by simp
  have i1: "rm_insert s start (a @ b) = a @ (s, start) # b"
    using rm_insert_mid [of a s b start] al bl o by fastforce
  have al2: "\<forall>y\<in>set a. fst y < end" using al o(1) by fastforce
  have bl2: "\<forall>y\<in>set b. end < fst y" if "end < e" using bl that by fastforce
  have i2: "rm_insert end e (a @ b) = a @ (end, e) # b" if "end < e"
    using rm_insert_mid [OF al2 bl2 [OF that]] .
  have al3: "\<forall>y\<in>set (a @ [(s, start)]). fst y < end" using al2 o(1) by simp
  have i3: "rm_insert end e (a @ (s, start) # b) = a @ (s, start) # (end, e) # b" if "end < e"
    using rm_insert_mid [OF al3 bl2 [OF that]] by simp
  show "pl_ranges (cut1 start end x l) = a @ piece start end x @ b"
    using assms(2) x rem i1 i2 i3 by (simp add: cut1_def piece_def Let_def)
  show "pl_pages (cut1 start end x l) = weight (a @ piece start end x @ b)"
    using assms(2,3) x by (simp add: cut1_def piece_def Let_def add_ac)
  show "pl_future (cut1 start end x l) = pl_future l"
    using x by (simp add: cut1_def Let_def)
qed

lemma cut_all_ok:
  assumes "rm_ok (a @ t @ b)" "pl_ranges l = a @ t @ b" "pl_pages l = weight (pl_ranges l)"
    and "start < end" "\<forall>x\<in>set t. overlaps start end x"
  shows "pl_ranges (foldl (\<lambda>l r. cut1 start end r l) l t) = a @ concat (map (piece start end) t) @ b
    \<and> pl_pages (foldl (\<lambda>l r. cut1 start end r l) l t) = weight (a @ concat (map (piece start end) t) @ b)
    \<and> rm_ok (a @ concat (map (piece start end) t) @ b)
    \<and> pl_future (foldl (\<lambda>l r. cut1 start end r l) l t) = pl_future l"
  using assms
proof (induction t arbitrary: a l)
  case (Cons x t)
  have o: "overlaps start end x" using Cons.prems(5) by simp
  have ok: "rm_ok (a @ x # (t @ b))" using Cons.prems(1) by simp
  have "pl_ranges l = a @ x # (t @ b)" using Cons.prems(2) by simp
  note c = cut1_ok [OF ok this Cons.prems(3,4) o]
  show ?case
    using Cons.IH [of "a @ piece start end x" "cut1 start end x l"] rm_ok_piece [OF ok Cons.prems(4) o] c
      Cons.prems(4,5) by simp
qed simp

lemma pages_of_pieces:
  assumes "start < end" "\<forall>x\<in>set t. overlaps start end x"
  shows "pages_of (concat (map (piece start end) t)) = pages_of t - {start..<end}"
  using assms(2)
proof (induction t)
  case (Cons x t)
  then show ?case using pages_of_piece [OF assms(1), of x] by (cases x) (simp add: Un_Diff)
qed simp

lemma pages_of_outside: "\<forall>x\<in>set m. {fst x..<snd x} \<inter> S = {} \<Longrightarrow> pages_of m \<inter> S = {}"
proof (induction m)
  case (Cons x m)
  then show ?case by (cases x) (simp add: Int_Un_distrib2)
qed simp

lemma hit_split:
  assumes ok: "rm_ok m" and se: "start < end"
  shows "\<exists>a t b. m = a @ t @ b
    \<and> (case rm_back (\<lambda>s. s < start) m of None \<Rightarrow> [] | Some (s, e) \<Rightarrow> if e > start then [(s, e)] else [])
        @ filter (\<lambda>(s, _). start \<le> s \<and> s < end) m = t
    \<and> (\<forall>x\<in>set t. overlaps start end x) \<and> (\<forall>x\<in>set a. snd x \<le> start) \<and> (\<forall>x\<in>set b. end \<le> fst x)"
proof -
  define lo where "lo = filter (\<lambda>(s, _). s < start) m"
  define hi where "hi = filter (\<lambda>(s, _). start \<le> s) m"
  have m: "m = lo @ hi" using rm_split [OF ok, of start] by (simp add: lo_def hi_def)
  have lo: "\<forall>x\<in>set lo. fst x < start" and hi: "\<forall>x\<in>set hi. start \<le> fst x"
    by (auto simp: lo_def hi_def)
  have okl: "rm_ok lo" and okh: "rm_ok hi" using ok m by (simp_all add: rm_ok_append)
  have bk_eq: "rm_back (\<lambda>s. s < start) m = (if lo = [] then None else Some (last lo))"
    unfolding m by (rule rm_back_append) (use lo hi in auto)
  define t1 where "t1 = filter (\<lambda>(s, _). s < end) hi"
  define b where "b = filter (\<lambda>(s, _). end \<le> s) hi"
  have h: "hi = t1 @ b" using rm_split [OF okh, of "end"] by (simp add: t1_def b_def)
  have mid: "filter (\<lambda>(s, _). start \<le> s \<and> s < end) m = t1"
  proof -
    have "filter (\<lambda>(s, _). start \<le> s \<and> s < end) lo = []" using lo by (auto simp: filter_empty_conv)
    moreover have "filter (\<lambda>(s, _). start \<le> s \<and> s < end) hi = t1"
      unfolding t1_def by (rule filter_cong) (use hi in auto)
    ultimately show ?thesis by (simp add: m)
  qed
  have t1: "\<forall>x\<in>set t1. overlaps start end x"
  proof
    fix x assume x: "x \<in> set t1"
    then have "x \<in> set hi" "fst x < end" by (auto simp: t1_def)
    then show "overlaps start end x" using hi rm_okD [OF okh, of x] by (fastforce simp: overlaps_def)
  qed
  have b: "\<forall>x\<in>set b. end \<le> fst x" by (auto simp: b_def)
  show ?thesis
  proof (cases "lo = [] \<or> snd (last lo) \<le> start")
    case True
    have "\<forall>x\<in>set lo. snd x \<le> start"
    proof (cases lo rule: rev_cases)
      case (snoc lo' y)
      then show ?thesis using True rm_ok_sides [of lo' "[y]"] okl by fastforce
    qed simp
    moreover have "(case rm_back (\<lambda>s. s < start) m of None \<Rightarrow> [] | Some (s, e) \<Rightarrow> if e > start then [(s, e)] else []) = []"
      using True by (cases "last lo") (auto simp: bk_eq)
    ultimately show ?thesis using m [unfolded h] mid t1 b
      by (intro exI [of _ lo] exI [of _ t1] exI [of _ b] conjI) (simp_all only: append_Nil)
  next
    case False
    then obtain lo' s e where l: "lo = lo' @ [(s, e)]" by (cases lo rule: rev_cases) auto
    with False have e: "start < e" by simp
    have "\<forall>x\<in>set lo'. snd x \<le> start" using rm_ok_sides(1) [of lo' "[(s, e)]"] okl l lo by fastforce
    moreover have "overlaps start end (s, e)" using lo l e se by (simp add: overlaps_def)
    moreover have "(case rm_back (\<lambda>s. s < start) m of None \<Rightarrow> [] | Some (s, e) \<Rightarrow> if e > start then [(s, e)] else []) = [(s, e)]"
      using l e by (simp add: bk_eq)
    moreover have "m = lo' @ ((s, e) # t1) @ b" using m h l by simp
    ultimately show ?thesis using mid t1 b
      by (intro exI [of _ lo'] exI [of _ "(s, e) # t1"] exI [of _ b] conjI) simp_all
  qed
qed

lemma pl_remove_ok:
  assumes inv: "pl_inv l" and se: "start < end"
  shows "pl_inv (pl_remove l start end)
    \<and> pages_of (pl_ranges (pl_remove l start end)) = pages_of (pl_ranges l) - {start..<end}
    \<and> pl_future (pl_remove l start end) = pl_future l"
proof -
  let ?m = "pl_ranges l"
  have ok: "rm_ok ?m" and pg: "pl_pages l = weight ?m" using inv weight_card by (auto simp: pl_inv_def)
  define hit where "hit = (case rm_back (\<lambda>s. s < start) ?m of None \<Rightarrow> [] | Some (s, e) \<Rightarrow> if e > start then [(s, e)] else [])
    @ filter (\<lambda>(s, _). start \<le> s \<and> s < end) ?m"
  obtain a t b where m: "?m = a @ t @ b" and t: "hit = t" "\<forall>x\<in>set t. overlaps start end x"
    and out: "\<forall>x\<in>set a. snd x \<le> start" "\<forall>x\<in>set b. end \<le> fst x"
    using hit_split [OF ok se] unfolding hit_def by blast
  have "pl_remove l start end = foldl (\<lambda>l r. cut1 start end r l) l t"
    using se unfolding t(1) [symmetric] pl_remove_def hit_def by (simp add: Let_def)
  with cut_all_ok [OF ok [unfolded m] m pg se t(2)]
  have r: "pl_ranges (pl_remove l start end) = a @ concat (map (piece start end) t) @ b"
    "pl_pages (pl_remove l start end) = weight (a @ concat (map (piece start end) t) @ b)"
    "rm_ok (a @ concat (map (piece start end) t) @ b)" "pl_future (pl_remove l start end) = pl_future l" by simp_all
  have "pages_of (concat (map (piece start end) t)) = pages_of t - {start..<end}"
    by (rule pages_of_pieces [OF se t(2)])
  moreover have "pages_of a \<inter> {start..<end} = {}" "pages_of b \<inter> {start..<end} = {}"
    using out by (auto intro!: pages_of_outside)
  ultimately have "pages_of (pl_ranges (pl_remove l start end)) = pages_of ?m - {start..<end}"
    unfolding r(1) m by auto
  moreover have "pl_inv (pl_remove l start end)"
    unfolding pl_inv_def r(1,2) using r(3) weight_card [OF r(3)] by blast
  ultimately show ?thesis using r(4) by blast
qed

subsection \<open>Counting\<close>

lemma foldl_plus: "foldl (\<lambda>n (s, e). n + f s e) (n0 :: nat) m = n0 + sum_list (map (\<lambda>(s, e). f s e) m)"
  by (induction m arbitrary: n0) auto

lemma pages_apart: "rm_ok (a @ b) \<Longrightarrow> set b1 \<subseteq> set b \<Longrightarrow> pages_of a \<inter> pages_of b1 = {}"
proof -
  assume ok: "rm_ok (a @ b)" and s: "set b1 \<subseteq> set b"
  have "{fst x..<snd x} \<inter> pages_of b1 = {}" if "x \<in> set a" for x
  proof -
    have "{fst y..<snd y} \<inter> {fst x..<snd x} = {}" if "y \<in> set b1" for y
      using rm_ok_sides(1) [OF ok \<open>x \<in> set a\<close>, of y] that s by auto
    then show ?thesis using pages_of_outside [of b1 "{fst x..<snd x}"] by (simp add: Int_commute)
  qed
  then show ?thesis by (intro pages_of_outside) blast
qed

lemma weight_clip:
  assumes "rm_ok m" "\<forall>x\<in>set m. start < fst x \<and> fst x < end"
  shows "sum_list (map (\<lambda>(s, e). min e end - s) m) = card (pages_of m \<inter> {start..<end})"
  using assms
proof (induction m)
  case (Cons r m)
  obtain s e where r: "r = (s, e)" by (cases r)
  have "{s..<e} \<inter> {start..<end} = {s..<min e end}" using Cons.prems(2) r by auto
  moreover have "{s..<e} \<inter> pages_of m = {}"
    using pages_apart [of "[(s, e)]" m m] Cons.prems(1) r by simp
  then have "card (({s..<e} \<union> pages_of m) \<inter> {start..<end}) = card ({s..<e} \<inter> {start..<end}) + card (pages_of m \<inter> {start..<end})"
    by (subst card_Un_disjoint [symmetric]) (auto simp: Int_Un_distrib2)
  ultimately show ?case using Cons r rm_ok_parts(2) [of "[r]" m] by simp
qed simp

lemma locked_within_ok:
  assumes inv: "pl_inv l" and se: "start < end"
  shows "locked_within l start end = Some (card (pages_of (pl_ranges l) \<inter> {start..<end}))"
proof -
  let ?m = "pl_ranges l"
  have ok: "rm_ok ?m" using inv by (simp add: pl_inv_def)
  obtain a b where m: "?m = a @ b" and a: "\<forall>x\<in>set a. fst x \<le> start" and b: "\<forall>x\<in>set b. start < fst x"
    using rm_cut [OF ok, of start] by metis
  have oka: "rm_ok a" and okb: "rm_ok b" using ok m by (simp_all add: rm_ok_append)
  have bk_eq: "rm_back (\<lambda>s. s \<le> start) ?m = (if a = [] then None else Some (last a))"
    unfolding m by (rule rm_back_append) (use a b in fastforce)+
  obtain b1 b2 where bb: "b = b1 @ b2" "\<forall>x\<in>set b1. fst x < end" "\<forall>x\<in>set b2. end \<le> fst x"
    by (rule that [OF rm_split [OF okb, of "end"]]) auto
  have mid: "filter (\<lambda>(s, _). start + 1 \<le> s \<and> s < end) ?m = b1"
  proof -
    have "filter (\<lambda>(s, _). start + 1 \<le> s \<and> s < end) a = []" using a by (fastforce simp: filter_empty_conv)
    moreover have "filter (\<lambda>(s, _). start + 1 \<le> s \<and> s < end) b2 = []" using bb(3) by (fastforce simp: filter_empty_conv)
    moreover have "filter (\<lambda>(s, _). start + 1 \<le> s \<and> s < end) b1 = b1" using bb b by (auto simp: filter_fst filter_id_conv Suc_le_eq)
    ultimately show ?thesis by (simp add: m bb(1))
  qed
  have "sum_list (map (\<lambda>(s, e). min e end - s) b1) = card (pages_of b1 \<inter> {start..<end})"
    by (rule weight_clip) (use okb bb b in \<open>auto simp: rm_ok_append\<close>)
  moreover have "pages_of b2 \<inter> {start..<end} = {}" using bb(3) by (auto intro!: pages_of_outside)
  moreover have "pages_of a \<inter> pages_of b1 = {}"
    by (rule pages_apart [of _ "b1 @ b2"]) (use ok m bb(1) in simp_all)
  moreover have "(case rm_back (\<lambda>s. s \<le> start) ?m of None \<Rightarrow> 0 | Some (_, e) \<Rightarrow> min e end - start)
      = card (pages_of a \<inter> {start..<end})"
  proof (cases a rule: rev_cases)
    case (snoc a' y)
    obtain s e where y: "y = (s, e)" by (cases y)
    have "pages_of a' \<inter> {start..<end} = {}"
    proof (rule pages_of_outside, rule ballI)
      fix x assume "x \<in> set a'"
      then have "snd x < s" using rm_ok_sides(1) [of a' "[y]" x y] oka snoc y by simp
      then show "{fst x..<snd x} \<inter> {start..<end} = {}" using a snoc y by auto
    qed
    moreover have "{s..<e} \<inter> {start..<end} = {start..<min e end}" using a snoc y by auto
    ultimately show ?thesis using snoc y by (simp add: bk_eq Int_Un_distrib2)
  qed (simp add: bk_eq)
  ultimately have "foldl (\<lambda>n (s, e). n + (min e end - s))
      (case rm_back (\<lambda>s. s \<le> start) ?m of None \<Rightarrow> 0 | Some (_, e) \<Rightarrow> min e end - start) b1
      = card (pages_of a \<inter> {start..<end}) + card (pages_of b1 \<inter> {start..<end})"
    by (simp add: foldl_plus)
  also have "\<dots> = card (pages_of ?m \<inter> {start..<end})"
  proof -
    have "pages_of ?m \<inter> {start..<end} = (pages_of a \<inter> {start..<end}) \<union> (pages_of b1 \<inter> {start..<end})"
      using m bb(1) \<open>pages_of b2 \<inter> {start..<end} = {}\<close> by auto
    then show ?thesis using \<open>pages_of a \<inter> pages_of b1 = {}\<close> by (auto intro!: card_Un_disjoint [symmetric])
  qed
  finally show ?thesis using se unfolding locked_within_def Let_def mid by simp
qed

subsection \<open>Lock tables as machines\<close>

datatype lock_op = Lock nat nat | Unlock nat nat | UnlockAll | Future bool

fun lock_step :: "page_locks \<Rightarrow> lock_op \<Rightarrow> page_locks" where
  "lock_step l (Lock s e) = pl_insert l s e"
| "lock_step l (Unlock s e) = pl_remove l s e"
| "lock_step l UnlockAll = pl_clear l"
| "lock_step l (Future b) = l\<lparr>pl_future := b\<rparr>"

fun lock_spec :: "nat set \<Rightarrow> lock_op \<Rightarrow> nat set" where
  "lock_spec S (Lock s e) = S \<union> {s..<e}"
| "lock_spec S (Unlock s e) = S - {s..<e}"
| "lock_spec S UnlockAll = {}"
| "lock_spec S (Future b) = S"

lemma pl_default_inv [simp]: "pl_inv pl_default"
  by (simp add: pl_inv_def pl_default_def)

lemma lock_step_ok:
  assumes "pl_inv l"
  shows "pl_inv (lock_step l x)" "pages_of (pl_ranges (lock_step l x)) = lock_spec (pages_of (pl_ranges l)) x"
proof -
  have "pl_inv (lock_step l x) \<and> pages_of (pl_ranges (lock_step l x)) = lock_spec (pages_of (pl_ranges l)) x"
  proof (cases x)
    case (Lock s e)
    then show ?thesis using pl_insert_ok [OF assms, of s e] assms by (cases "s < e") (auto simp: pl_insert_def)
  next
    case (Unlock s e)
    then show ?thesis using pl_remove_ok [OF assms, of s e] assms by (cases "s < e") (auto simp: pl_remove_def)
  next
    case (Future b)
    then show ?thesis using assms by (simp add: pl_inv_def)
  qed (simp add: pl_clear_def, simp add: pl_default_def)
  then show "pl_inv (lock_step l x)" "pages_of (pl_ranges (lock_step l x)) = lock_spec (pages_of (pl_ranges l)) x"
    by blast+
qed

interpretation locks: machine lock_step pl_inv
  by unfold_locales (rule lock_step_ok(1))

lemma lock_run_refines: "pl_inv l \<Longrightarrow> pages_of (pl_ranges (run_ops lock_step l xs)) = run_ops lock_spec (pages_of (pl_ranges l)) xs"
  by (induction xs arbitrary: l) (simp_all add: lock_step_ok)

subsection \<open>Properties\<close>

text \<open>
  C7. A lock table implements a set of pages. After any sequence of \<^verbatim>\<open>mlock\<close>, \<^verbatim>\<open>munlock\<close> and
  \<^verbatim>\<open>munlockall\<close> from an empty table, the pages its ranges cover are exactly those the same sequence
  leaves in a set, its ranges are disjoint, ordered and never adjacent, and its page counter, what
  \<^verbatim>\<open>RLIMIT_MEMLOCK\<close> is charged by, is the size of that set.
\<close>

theorem page_locks_refine_set:
  "pages_of (pl_ranges (run_ops lock_step pl_default xs)) = run_ops lock_spec {} xs
   \<and> rm_ok (pl_ranges (run_ops lock_step pl_default xs))
   \<and> pl_pages (run_ops lock_step pl_default xs) = card (run_ops lock_spec {} xs)"
proof -
  have "pages_of (pl_ranges (run_ops lock_step pl_default xs)) = run_ops lock_spec {} xs"
    using lock_run_refines [OF pl_default_inv, of xs] by (simp add: pl_default_def)
  with locks.run_inv [OF pl_default_inv, of xs] show ?thesis by (simp add: pl_inv_def)
qed

text \<open>
  C8. Counting the locked pages of a range: on any table such a sequence reaches, \<^verbatim>\<open>locked_within\<close> returns
  how many pages of a non-empty range are locked, the number that decides how much a new lock would be
  charged, and it does not panic.
\<close>

theorem locked_within_counts:
  assumes "start < end"
  shows "locked_within (run_ops lock_step pl_default xs) start end
    = Some (card (run_ops lock_spec {} xs \<inter> {start..<end}))"
  using locked_within_ok [OF locks.run_inv [OF pl_default_inv] assms, of xs]
    lock_run_refines [OF pl_default_inv, of xs] by (simp add: pl_default_def)

theorem locked_within_counts_witness:
  "locked_within (run_ops lock_step pl_default [Lock 10 20, Lock 20 25, Unlock 12 14]) 11 22
    = Some (card (run_ops lock_spec {} [Lock 10 20, Lock 20 25, Unlock 12 14] \<inter> {11..<22}))"
  by (rule locked_within_counts) simp

end
