(* ===== verification/Limits_Quota.thy ===== *)
theory Limits_Quota
  imports Rust_Text
begin

text \<open>
  VM-wide ceilings, \<^verbatim>\<open>src/limits.rs\<close>: the limits a VM starts with, and the shared byte counter the
  kernel charges. A counter is used by many threads at once, so its operations are the atomic accesses
  they are made of, interleaved in any order.
\<close>

subsection \<open>Limits\<close>

record limits =
  li_kernel_memory :: u64
  li_tasks :: u32
  li_open_files :: u32
  li_disk_bytes :: u64
  li_cpu_time :: "u64 option"
  li_wall_time :: "u64 option"

text \<open>
  The environment is a function from names to values, and \<open>meminfo\<close> the kibibytes of the
  \<^verbatim>\<open>MemTotal\<close> line of \<^verbatim>\<open>/proc/meminfo\<close>, if it could be read.
\<close>

type_synonym env = "string \<Rightarrow> string option"

definition env_u64 :: "env \<Rightarrow> string \<Rightarrow> u64 option" where
  "env_u64 env name = (case env name of None \<Rightarrow> None | Some v \<Rightarrow> parse_u64 (trim v))"

definition host_memory_bytes :: "u64 option \<Rightarrow> u64" where
  "host_memory_bytes meminfo = (case meminfo of None \<Rightarrow> 4 * 1024 * 1024 * 1024 | Some kib \<Rightarrow> kib * 1024)"

definition clamp_u64 :: "u64 \<Rightarrow> u64 \<Rightarrow> u64 \<Rightarrow> u64" where
  "clamp_u64 v lo hi = (if v < lo then lo else if v > hi then hi else v)"

definition or_default :: "u64 option \<Rightarrow> u64 \<Rightarrow> u64" where
  "or_default x d = (case x of None \<Rightarrow> d | Some v \<Rightarrow> v)"

definition for_this_host :: "env \<Rightarrow> u64 option \<Rightarrow> limits" where
  "for_this_host env meminfo =
     (let mib = 1024 * 1024;
          km = clamp_u64 (host_memory_bytes meminfo div 4) (256 * mib) (8192 * mib)
      in \<lparr>li_kernel_memory = or_default (env_u64 env ''NIXVM_LIMIT_KERNEL_MEMORY'') km,
          li_tasks = (case env_u64 env ''NIXVM_LIMIT_TASKS'' of None \<Rightarrow> 4096 | Some n \<Rightarrow> ucast (min n (2 ^ 22))),
          li_open_files = (case env_u64 env ''NIXVM_LIMIT_OPEN_FILES'' of
                             None \<Rightarrow> 2 ^ 18 | Some n \<Rightarrow> ucast (min n (2 ^ 32 - 1))),
          li_disk_bytes = or_default (env_u64 env ''NIXVM_LIMIT_DISK_BYTES'') (- 1),
          li_cpu_time = env_u64 env ''NIXVM_LIMIT_CPU_SECONDS'',
          li_wall_time = env_u64 env ''NIXVM_LIMIT_WALL_SECONDS''\<rparr>)"

definition guest_memory_ceiling :: "env \<Rightarrow> u64 option \<Rightarrow> u64" where
  "guest_memory_ceiling env meminfo =
     or_default (env_u64 env ''NIXVM_LIMIT_GUEST_MEMORY'') (host_memory_bytes meminfo div 4 * 3)"

subsection \<open>The quota\<close>

record quota =
  q_limit :: u64
  q_used :: u64

definition quota_new :: "u64 \<Rightarrow> quota" where
  "quota_new limit = \<lparr>q_limit = limit, q_used = 0\<rparr>"

definition quota_unlimited :: quota where
  "quota_unlimited = quota_new (- 1)"

definition quota_set_limit :: "u64 \<Rightarrow> quota \<Rightarrow> quota" where
  "quota_set_limit limit q = q\<lparr>q_limit := limit\<rparr>"

definition force_charge :: "u64 \<Rightarrow> quota \<Rightarrow> quota" where
  "force_charge bytes q = q\<lparr>q_used := q_used q + bytes\<rparr>"

definition checked_add_u64 :: "u64 \<Rightarrow> u64 \<Rightarrow> u64 option" where
  "checked_add_u64 a b = (if unat a + unat b < 2 ^ 64 then Some (a + b) else None)"

definition saturating_sub_u64 :: "u64 \<Rightarrow> u64 \<Rightarrow> u64" where
  "saturating_sub_u64 a b = (if b \<le> a then a - b else 0)"

text \<open>
  What a thread is doing with the quota: \<open>Charging b limit used\<close> is inside the loop of
  \<^verbatim>\<open>try_charge\<close> with what it loaded, \<open>Releasing b used\<close> inside that of \<^verbatim>\<open>release\<close>.
\<close>

datatype qthread = Idle | Charging u64 u64 u64 | Charged u64 | Refused u64 | Releasing u64 u64 | Released u64

text \<open>
  One atomic access of a thread. A weak compare-and-exchange may fail although the value is the
  expected one.
\<close>

inductive qstep :: "quota \<times> qthread \<Rightarrow> quota \<times> qthread \<Rightarrow> bool" where
  load_charge: "qstep (q, Idle) (q, Charging b (q_limit q) (q_used q))"
| refuse: "checked_add_u64 used b = None \<or> (\<exists>t. checked_add_u64 used b = Some t \<and> \<not> t \<le> lim) \<Longrightarrow>
    qstep (q, Charging b lim used) (q, Refused b)"
| cas_charge: "checked_add_u64 used b = Some t \<Longrightarrow> t \<le> lim \<Longrightarrow> q_used q = used \<Longrightarrow>
    qstep (q, Charging b lim used) (q\<lparr>q_used := t\<rparr>, Charged b)"
| cas_charge_fail: "checked_add_u64 used b = Some t \<Longrightarrow> t \<le> lim \<Longrightarrow>
    qstep (q, Charging b lim used) (q, Charging b lim (q_used q))"
| load_release: "qstep (q, Charged b) (q, Releasing b (q_used q))"
| cas_release: "q_used q = used \<Longrightarrow>
    qstep (q, Releasing b used) (q\<lparr>q_used := saturating_sub_u64 used b\<rparr>, Released b)"
| cas_release_fail: "qstep (q, Releasing b used) (q, Releasing b (q_used q))"
| again_refused: "qstep (q, Refused b) (q, Idle)"
| again_released: "qstep (q, Released b) (q, Idle)"

text \<open>Any number of threads, interleaved: thread \<open>i\<close> takes one step.\<close>

inductive qsys :: "quota \<times> qthread list \<Rightarrow> quota \<times> qthread list \<Rightarrow> bool" where
  qsys: "i < length ts \<Longrightarrow> qstep (q, ts ! i) (q', t') \<Longrightarrow> qsys (q, ts) (q', ts[i := t'])"

inductive qreach :: "u64 \<Rightarrow> nat \<Rightarrow> quota \<times> qthread list \<Rightarrow> bool" for limit n where
  qinit: "qreach limit n (quota_new limit, replicate n Idle)"
| qnext: "qreach limit n s \<Longrightarrow> qsys s s' \<Longrightarrow> qreach limit n s'"

fun held :: "qthread \<Rightarrow> nat" where
  "held (Charged b) = unat b"
| "held (Releasing b _) = unat b"
| "held _ = 0"

fun thread_limit_ok :: "u64 \<Rightarrow> qthread \<Rightarrow> bool" where
  "thread_limit_ok limit (Charging b lim used) = (lim = limit)"
| "thread_limit_ok limit _ = True"

definition qinv :: "u64 \<Rightarrow> quota \<times> qthread list \<Rightarrow> bool" where
  "qinv limit s \<longleftrightarrow> q_limit (fst s) = limit \<and> q_used (fst s) \<le> limit
     \<and> unat (q_used (fst s)) = sum_list (map held (snd s)) \<and> list_all (thread_limit_ok limit) (snd s)"

lemma held_le: "i < length ts \<Longrightarrow> held (ts ! i) \<le> sum_list (map held ts)"
  using elem_le_sum_list [of i "map held ts"] by simp

lemma sum_held_update:
  "i < length ts \<Longrightarrow> sum_list (map held (ts[i := t])) + held (ts ! i) = sum_list (map held ts) + held t"
proof (induction ts arbitrary: i)
  case (Cons a ts)
  then show ?case by (cases i) auto
qed simp

lemma checked_add_Some: "checked_add_u64 a b = Some t \<Longrightarrow> unat t = unat a + unat b"
  by (auto simp: checked_add_u64_def unat_add_less split: if_splits)

lemma unat_saturating_sub: "unat (saturating_sub_u64 a b) = unat a - unat b"
  by (auto simp: saturating_sub_u64_def unat_sub word_le_nat_alt)

lemma list_all_update: "list_all P xs \<Longrightarrow> P y \<Longrightarrow> list_all P (xs[i := y])"
  using set_update_subset_insert [of xs i y] by (auto simp: list_all_iff)

lemma qinv_step:
  assumes inv: "qinv limit s" and step: "qsys s s'"
  shows "qinv limit s'"
  using step
proof (cases rule: qsys.cases)
  case (qsys i ts q q' t')
  have q: "q_limit q = limit" "q_used q \<le> limit" "unat (q_used q) = sum_list (map held ts)"
    "list_all (thread_limit_ok limit) ts"
    using inv qsys(1) by (simp_all add: qinv_def)
  have ti: "thread_limit_ok limit (ts ! i)" using q(4) qsys(3) by (simp add: list_all_length)
  note up = sum_held_update [OF qsys(3), of t'] and hl = held_le [OF qsys(3)]
  have keep: "qinv limit s'" if "q' = q" "held t' = held (ts ! i)" "thread_limit_ok limit t'"
    using that q qsys(2) up list_all_update [OF q(4)] by (simp add: qinv_def)
  from qsys(4) show ?thesis
  proof (cases rule: qstep.cases)
    case (cas_charge used b t lim)
    then have "unat t = sum_list (map held (ts[i := t']))"
      using checked_add_Some [of used b t] q(3) up by simp
    moreover have "lim = limit" using ti cas_charge by simp
    ultimately show ?thesis using cas_charge q qsys(2) list_all_update [OF q(4)] by (simp add: qinv_def)
  next
    case (cas_release used b)
    then have "unat (saturating_sub_u64 used b) = sum_list (map held (ts[i := t']))"
      using q(3) up by (simp add: unat_saturating_sub)
    moreover have "saturating_sub_u64 used b \<le> limit"
      using cas_release q(2) by (simp add: word_le_nat_alt unat_saturating_sub)
    ultimately show ?thesis
      using cas_release q qsys(2) list_all_update [OF q(4)] by (simp add: qinv_def)
  qed (use keep ti q(1) in auto)
qed

lemma qinv_reach: "qreach limit n s \<Longrightarrow> qinv limit s"
proof (induction rule: qreach.induct)
  case qinit
  show ?case by (simp add: qinv_def quota_new_def list_all_length sum_list_replicate)
next
  case (qnext s s')
  then show ?case by (blast intro: qinv_step)
qed

subsection \<open>Properties\<close>



end
