(* ===== verification/Syscall_Abi.thy ===== *)
theory Syscall_Abi
  imports Nixvm_Base
begin

text \<open>
  System call numbers, \<^verbatim>\<open>src/abi/arch\<close>. The normalised identity of a call is the name of its
  \<^verbatim>\<open>Sysno\<close> variant, the form its derived \<^verbatim>\<open>Debug\<close> prints and the policy code compares; a decoder is the
  table of its match arms, each number once.
\<close>

datatype arch = Aarch64 | X86_64

datatype sysno = Sysno string | NiSyscall | Unknown u64

subsection \<open>The variants of \<^verbatim>\<open>Sysno\<close>\<close>

definition sysno_names_1 :: "string list" where
  "sysno_names_1 = [
    ''Read'', ''Write'', ''Openat'', ''Close'', ''Brk'', ''Mmap'', ''Munmap'', ''Mprotect'',
    ''Mremap'', ''Madvise'', ''Mlock'', ''Mlock2'', ''Munlock'', ''Mlockall'', ''Munlockall'',
    ''Msync'', ''Mincore'', ''ExitGroup'', ''Exit'', ''SetTidAddress'', ''Ioctl'', ''Readv'',
    ''Writev'', ''Setitimer'', ''Getitimer'', ''Alarm'', ''Uname'', ''Getpid'', ''Getppid'',
    ''Gettid'', ''Getuid'', ''Geteuid'', ''Getgid'', ''Getegid'', ''ClockGettime'',
    ''Gettimeofday'', ''ClockGetres'', ''Nanosleep'', ''ClockNanosleep'', ''ClockSettime'',
    ''Settimeofday'', ''Adjtimex'', ''ClockAdjtime'', ''Time'', ''Lseek'', ''Fstat'',
    ''Newfstatat'', ''Getdents64'', ''Getcwd'', ''Chdir'', ''Fchdir'', ''Getrandom'',
    ''RtSigaction'', ''RtSigprocmask'', ''RtSigpending'', ''RtSigsuspend'', ''RtSigtimedwait'',
    ''RtSigqueueinfo'', ''RtTgsigqueueinfo'', ''RtSigreturn'', ''Sigaltstack'', ''Kill'', ''Tkill'',
    ''Tgkill'', ''Futex'', ''Fcntl'', ''Flock'', ''Sendmsg'', ''Recvmsg'', ''Pipe2'', ''Dup'',
    ''Dup2'', ''Dup3'', ''Clone'', ''Fork'', ''Vfork'', ''Stat'', ''Lstat'', ''Open'', ''Creat'',
    ''Mkdir'', ''Rmdir'', ''Unlink'', ''Rename'', ''Symlink'', ''Readlink'', ''Execve'', ''Wait4'',
    ''SetRobustList'', ''Statfs'', ''Fstatfs'', ''Readlinkat'', ''Symlinkat'', ''Mkdirat'',
    ''Unlinkat'', ''Renameat'', ''Renameat2'', ''Faccessat'', ''Faccessat2'', ''Access'',
    ''Fchmodat'', ''Chmod'', ''Fchmod'', ''Fchownat'', ''Fchown'', ''Chown'', ''Lchown'', ''Mknod'',
    ''Mknodat'', ''Utimensat'', ''Umask'', ''Getxattr'', ''Lgetxattr'', ''Fgetxattr'', ''Socket'',
    ''Socketpair'', ''Bind'', ''Listen'', ''Accept4'', ''Connect'', ''Getsockname'',
    ''Getpeername'', ''Sendto'']"

definition sysno_names_2 :: "string list" where
  "sysno_names_2 = [
    ''Recvfrom'', ''Setsockopt'', ''Getsockopt'', ''Shutdown'', ''SchedYield'',
    ''SchedGetaffinity'', ''SchedSetaffinity'', ''SchedGetscheduler'', ''SchedSetscheduler'',
    ''SchedGetparam'', ''SchedGetPriorityMax'', ''SchedGetPriorityMin'', ''Getrusage'', ''Sysinfo'',
    ''Prlimit64'', ''Getrlimit'', ''Setrlimit'', ''Times'', ''Getpriority'', ''Setpriority'',
    ''Getcpu'', ''Prctl'', ''Personality'', ''Sethostname'', ''Setdomainname'', ''Capget'',
    ''Capset'', ''Membarrier'', ''Poll'', ''Ppoll'', ''Select'', ''Pselect6'', ''EpollCreate'',
    ''EpollCreate1'', ''EpollCtl'', ''EpollWait'', ''EpollPwait'', ''EpollPwait2'', ''Eventfd'',
    ''Eventfd2'', ''TimerfdCreate'', ''TimerfdSettime'', ''TimerfdGettime'', ''ArchPrctl'',
    ''Pread64'', ''Pwrite64'', ''Preadv'', ''Pwritev'', ''Ftruncate'', ''Truncate'', ''Fsync'',
    ''Fdatasync'', ''Sync'', ''Syncfs'', ''Fallocate'', ''Readahead'', ''Fadvise64'',
    ''SyncFileRange'', ''Sendfile'', ''CopyFileRange'', ''Link'', ''Linkat'', ''Statx'', ''Setuid'',
    ''Setgid'', ''Setreuid'', ''Setregid'', ''Setresuid'', ''Setresgid'', ''Getresuid'',
    ''Getresgid'', ''Setfsuid'', ''Setfsgid'', ''Getgroups'', ''Setgroups'', ''Setpgid'',
    ''Getpgid'', ''Getpgrp'', ''Setsid'', ''Getsid'', ''Waitid'', ''Clone3'', ''Execveat'',
    ''CloseRange'', ''Accept'', ''Recvmmsg'', ''Sendmmsg'', ''Syslog'', ''Mount'', ''Umount2'',
    ''Chroot'', ''Ptrace'', ''Rseq'', ''RestartSyscall'', ''GetRobustList'', ''MemfdCreate'',
    ''InotifyInit1'', ''InotifyAddWatch'', ''InotifyRmWatch'', ''Signalfd4'', ''Pause'', ''Pipe'',
    ''Getdents'', ''Utime'', ''Utimes'', ''Futimesat'', ''Signalfd'', ''InotifyInit'',
    ''Fchmodat2'', ''Setxattr'', ''Lsetxattr'', ''Fsetxattr'', ''Listxattr'', ''Llistxattr'',
    ''Flistxattr'', ''Removexattr'', ''Lremovexattr'', ''Fremovexattr'', ''Setxattrat'',
    ''Getxattrat'', ''Listxattrat'', ''Removexattrat'', ''IoprioSet'']"

definition sysno_names_3 :: "string list" where
  "sysno_names_3 = [
    ''IoprioGet'', ''Splice'', ''Tee'', ''Vmsplice'', ''Preadv2'', ''Pwritev2'', ''Openat2'',
    ''Cachestat'', ''TimerCreate'', ''TimerSettime'', ''TimerGettime'', ''TimerGetoverrun'',
    ''TimerDelete'', ''SchedSetparam'', ''SchedRrGetInterval'', ''SchedSetattr'', ''SchedGetattr'',
    ''MqOpen'', ''MqUnlink'', ''MqTimedsend'', ''MqTimedreceive'', ''MqNotify'', ''MqGetsetattr'',
    ''Msgget'', ''Msgsnd'', ''Msgrcv'', ''Msgctl'', ''Semget'', ''Semop'', ''Semtimedop'',
    ''Semctl'', ''Shmget'', ''Shmat'', ''Shmdt'', ''Shmctl'', ''Mbind'', ''GetMempolicy'',
    ''SetMempolicy'', ''MigratePages'', ''MovePages'', ''SetMempolicyHomeNode'', ''ProcessVmReadv'',
    ''ProcessVmWritev'', ''ProcessMadvise'', ''ProcessMrelease'', ''Kcmp'', ''PidfdOpen'',
    ''PidfdSendSignal'', ''PidfdGetfd'', ''PkeyMprotect'', ''PkeyAlloc'', ''PkeyFree'', ''Mseal'',
    ''RemapFilePages'', ''FutexWaitv'', ''FutexWake'', ''FutexWait'', ''FutexRequeue'', ''Seccomp'',
    ''Unshare'', ''Setns'', ''Ustat'', ''Sysfs'', ''Vhangup'', ''Iopl'', ''Ioperm'', ''Reboot'',
    ''IoSetup'', ''IoDestroy'', ''IoSubmit'', ''IoCancel'', ''IoGetevents'', ''IoPgetevents'',
    ''IoUringSetup'', ''IoUringEnter'', ''IoUringRegister'', ''PerfEventOpen'', ''Bpf'',
    ''Userfaultfd'', ''FanotifyInit'', ''FanotifyMark'', ''NameToHandleAt'', ''OpenByHandleAt'',
    ''KexecLoad'', ''KexecFileLoad'', ''InitModule'', ''FinitModule'', ''DeleteModule'', ''Swapon'',
    ''Swapoff'', ''Acct'', ''Quotactl'', ''QuotactlFd'', ''PivotRoot'', ''OpenTree'',
    ''OpenTreeAttr'', ''MoveMount'', ''Fsopen'', ''Fsconfig'', ''Fsmount'', ''Fspick'',
    ''MountSetattr'', ''Statmount'', ''Listmount'', ''LandlockCreateRuleset'', ''LandlockAddRule'',
    ''LandlockRestrictSelf'', ''AddKey'', ''RequestKey'', ''Keyctl'', ''MemfdSecret'',
    ''MapShadowStack'', ''LsmGetSelfAttr'', ''LsmSetSelfAttr'', ''LsmListModules'', ''FileGetattr'',
    ''FileSetattr'', ''ModifyLdt'', ''SetThreadArea'', ''GetThreadArea'', ''Uselib'', ''Sysctl'',
    ''Uretprobe'']"

definition sysno_names :: "string list" where
  "sysno_names = sysno_names_1 @ sysno_names_2 @ sysno_names_3"

subsection \<open>The decoders\<close>

definition x86_table_1 :: "(nat \<times> string) list" where
  "x86_table_1 = [
    (0, ''Read''), (1, ''Write''), (257, ''Openat''), (3, ''Close''), (12, ''Brk''), (9, ''Mmap''),
    (11, ''Munmap''), (10, ''Mprotect''), (25, ''Mremap''), (28, ''Madvise''), (149, ''Mlock''),
    (150, ''Munlock''), (151, ''Mlockall''), (152, ''Munlockall''), (325, ''Mlock2''),
    (26, ''Msync''), (27, ''Mincore''), (231, ''ExitGroup''), (60, ''Exit''),
    (218, ''SetTidAddress''), (16, ''Ioctl''), (19, ''Readv''), (20, ''Writev''),
    (38, ''Setitimer''), (36, ''Getitimer''), (37, ''Alarm''), (63, ''Uname''), (39, ''Getpid''),
    (110, ''Getppid''), (186, ''Gettid''), (102, ''Getuid''), (107, ''Geteuid''), (104, ''Getgid''),
    (108, ''Getegid''), (228, ''ClockGettime''), (96, ''Gettimeofday''), (229, ''ClockGetres''),
    (230, ''ClockNanosleep''), (35, ''Nanosleep''), (227, ''ClockSettime''),
    (164, ''Settimeofday''), (159, ''Adjtimex''), (305, ''ClockAdjtime''), (201, ''Time''),
    (8, ''Lseek''), (5, ''Fstat''), (262, ''Newfstatat''), (217, ''Getdents64''), (79, ''Getcwd''),
    (80, ''Chdir''), (81, ''Fchdir''), (318, ''Getrandom''), (13, ''RtSigaction''),
    (14, ''RtSigprocmask''), (15, ''RtSigreturn''), (127, ''RtSigpending''),
    (128, ''RtSigtimedwait''), (129, ''RtSigqueueinfo''), (297, ''RtTgsigqueueinfo''),
    (130, ''RtSigsuspend''), (131, ''Sigaltstack''), (62, ''Kill''), (200, ''Tkill''),
    (234, ''Tgkill''), (202, ''Futex''), (72, ''Fcntl''), (73, ''Flock''), (22, ''Pipe''),
    (293, ''Pipe2''), (32, ''Dup''), (33, ''Dup2''), (292, ''Dup3''), (56, ''Clone''),
    (57, ''Fork''), (58, ''Vfork''), (4, ''Stat''), (6, ''Lstat''), (2, ''Open''), (85, ''Creat''),
    (83, ''Mkdir''), (84, ''Rmdir''), (87, ''Unlink''), (82, ''Rename''), (88, ''Symlink''),
    (89, ''Readlink''), (59, ''Execve''), (61, ''Wait4''), (273, ''SetRobustList''),
    (137, ''Statfs''), (138, ''Fstatfs''), (267, ''Readlinkat''), (266, ''Symlinkat''),
    (258, ''Mkdirat''), (263, ''Unlinkat''), (264, ''Renameat''), (316, ''Renameat2''),
    (269, ''Faccessat''), (439, ''Faccessat2''), (21, ''Access''), (90, ''Chmod''),
    (268, ''Fchmodat''), (91, ''Fchmod''), (92, ''Chown''), (94, ''Lchown''), (260, ''Fchownat''),
    (93, ''Fchown''), (133, ''Mknod''), (259, ''Mknodat''), (280, ''Utimensat''), (132, ''Utime''),
    (235, ''Utimes''), (261, ''Futimesat''), (95, ''Umask''), (191, ''Getxattr''),
    (192, ''Lgetxattr''), (193, ''Fgetxattr''), (41, ''Socket''), (42, ''Connect''),
    (288, ''Accept4''), (44, ''Sendto''), (45, ''Recvfrom''), (46, ''Sendmsg''), (47, ''Recvmsg'')]"

definition x86_table_2 :: "(nat \<times> string) list" where
  "x86_table_2 = [
    (48, ''Shutdown''), (49, ''Bind''), (50, ''Listen''), (51, ''Getsockname''),
    (52, ''Getpeername''), (53, ''Socketpair''), (54, ''Setsockopt''), (55, ''Getsockopt''),
    (24, ''SchedYield''), (204, ''SchedGetaffinity''), (203, ''SchedSetaffinity''),
    (145, ''SchedGetscheduler''), (144, ''SchedSetscheduler''), (143, ''SchedGetparam''),
    (146, ''SchedGetPriorityMax''), (147, ''SchedGetPriorityMin''), (98, ''Getrusage''),
    (99, ''Sysinfo''), (302, ''Prlimit64''), (97, ''Getrlimit''), (160, ''Setrlimit''),
    (100, ''Times''), (140, ''Getpriority''), (141, ''Setpriority''), (309, ''Getcpu''),
    (157, ''Prctl''), (135, ''Personality''), (170, ''Sethostname''), (171, ''Setdomainname''),
    (125, ''Capget''), (126, ''Capset''), (324, ''Membarrier''), (7, ''Poll''), (271, ''Ppoll''),
    (23, ''Select''), (270, ''Pselect6''), (213, ''EpollCreate''), (291, ''EpollCreate1''),
    (233, ''EpollCtl''), (232, ''EpollWait''), (281, ''EpollPwait''), (284, ''Eventfd''),
    (290, ''Eventfd2''), (283, ''TimerfdCreate''), (286, ''TimerfdSettime''),
    (287, ''TimerfdGettime''), (441, ''EpollPwait2''), (158, ''ArchPrctl''), (17, ''Pread64''),
    (18, ''Pwrite64''), (295, ''Preadv''), (296, ''Pwritev''), (77, ''Ftruncate''),
    (76, ''Truncate''), (74, ''Fsync''), (75, ''Fdatasync''), (162, ''Sync''), (306, ''Syncfs''),
    (285, ''Fallocate''), (187, ''Readahead''), (221, ''Fadvise64''), (277, ''SyncFileRange''),
    (40, ''Sendfile''), (326, ''CopyFileRange''), (86, ''Link''), (265, ''Linkat''),
    (332, ''Statx''), (105, ''Setuid''), (106, ''Setgid''), (113, ''Setreuid''),
    (114, ''Setregid''), (117, ''Setresuid''), (119, ''Setresgid''), (118, ''Getresuid''),
    (120, ''Getresgid''), (122, ''Setfsuid''), (123, ''Setfsgid''), (115, ''Getgroups''),
    (116, ''Setgroups''), (109, ''Setpgid''), (121, ''Getpgid''), (111, ''Getpgrp''),
    (112, ''Setsid''), (124, ''Getsid''), (247, ''Waitid''), (435, ''Clone3''), (322, ''Execveat''),
    (436, ''CloseRange''), (43, ''Accept''), (299, ''Recvmmsg''), (307, ''Sendmmsg''),
    (103, ''Syslog''), (165, ''Mount''), (166, ''Umount2''), (161, ''Chroot''), (101, ''Ptrace''),
    (334, ''Rseq''), (219, ''RestartSyscall''), (274, ''GetRobustList''), (319, ''MemfdCreate''),
    (294, ''InotifyInit1''), (254, ''InotifyAddWatch''), (255, ''InotifyRmWatch''),
    (289, ''Signalfd4''), (34, ''Pause''), (78, ''Getdents''), (253, ''InotifyInit''),
    (282, ''Signalfd''), (452, ''Fchmodat2''), (188, ''Setxattr''), (189, ''Lsetxattr''),
    (190, ''Fsetxattr''), (194, ''Listxattr''), (195, ''Llistxattr''), (196, ''Flistxattr''),
    (197, ''Removexattr''), (198, ''Lremovexattr''), (199, ''Fremovexattr''), (463, ''Setxattrat''),
    (464, ''Getxattrat''), (465, ''Listxattrat''), (466, ''Removexattrat''), (251, ''IoprioSet'')]"

definition x86_table_3 :: "(nat \<times> string) list" where
  "x86_table_3 = [
    (252, ''IoprioGet''), (275, ''Splice''), (276, ''Tee''), (278, ''Vmsplice''),
    (327, ''Preadv2''), (328, ''Pwritev2''), (437, ''Openat2''), (451, ''Cachestat''),
    (222, ''TimerCreate''), (223, ''TimerSettime''), (224, ''TimerGettime''),
    (225, ''TimerGetoverrun''), (226, ''TimerDelete''), (142, ''SchedSetparam''),
    (148, ''SchedRrGetInterval''), (314, ''SchedSetattr''), (315, ''SchedGetattr''),
    (240, ''MqOpen''), (241, ''MqUnlink''), (242, ''MqTimedsend''), (243, ''MqTimedreceive''),
    (244, ''MqNotify''), (245, ''MqGetsetattr''), (68, ''Msgget''), (69, ''Msgsnd''),
    (70, ''Msgrcv''), (71, ''Msgctl''), (64, ''Semget''), (65, ''Semop''), (66, ''Semctl''),
    (220, ''Semtimedop''), (29, ''Shmget''), (30, ''Shmat''), (31, ''Shmctl''), (67, ''Shmdt''),
    (237, ''Mbind''), (238, ''SetMempolicy''), (239, ''GetMempolicy''), (256, ''MigratePages''),
    (279, ''MovePages''), (450, ''SetMempolicyHomeNode''), (310, ''ProcessVmReadv''),
    (311, ''ProcessVmWritev''), (312, ''Kcmp''), (424, ''PidfdSendSignal''), (434, ''PidfdOpen''),
    (438, ''PidfdGetfd''), (440, ''ProcessMadvise''), (448, ''ProcessMrelease''),
    (329, ''PkeyMprotect''), (330, ''PkeyAlloc''), (331, ''PkeyFree''), (462, ''Mseal''),
    (216, ''RemapFilePages''), (449, ''FutexWaitv''), (454, ''FutexWake''), (455, ''FutexWait''),
    (456, ''FutexRequeue''), (317, ''Seccomp''), (272, ''Unshare''), (308, ''Setns''),
    (136, ''Ustat''), (139, ''Sysfs''), (153, ''Vhangup''), (172, ''Iopl''), (173, ''Ioperm''),
    (169, ''Reboot''), (206, ''IoSetup''), (207, ''IoDestroy''), (208, ''IoGetevents''),
    (209, ''IoSubmit''), (210, ''IoCancel''), (333, ''IoPgetevents''), (425, ''IoUringSetup''),
    (426, ''IoUringEnter''), (427, ''IoUringRegister''), (298, ''PerfEventOpen''), (321, ''Bpf''),
    (323, ''Userfaultfd''), (300, ''FanotifyInit''), (301, ''FanotifyMark''),
    (303, ''NameToHandleAt''), (304, ''OpenByHandleAt''), (246, ''KexecLoad''),
    (320, ''KexecFileLoad''), (175, ''InitModule''), (313, ''FinitModule''),
    (176, ''DeleteModule''), (167, ''Swapon''), (168, ''Swapoff''), (163, ''Acct''),
    (179, ''Quotactl''), (443, ''QuotactlFd''), (155, ''PivotRoot''), (428, ''OpenTree''),
    (467, ''OpenTreeAttr''), (429, ''MoveMount''), (430, ''Fsopen''), (431, ''Fsconfig''),
    (432, ''Fsmount''), (433, ''Fspick''), (442, ''MountSetattr''), (457, ''Statmount''),
    (458, ''Listmount''), (444, ''LandlockCreateRuleset''), (445, ''LandlockAddRule''),
    (446, ''LandlockRestrictSelf''), (248, ''AddKey''), (249, ''RequestKey''), (250, ''Keyctl''),
    (447, ''MemfdSecret''), (453, ''MapShadowStack''), (459, ''LsmGetSelfAttr''),
    (460, ''LsmSetSelfAttr''), (461, ''LsmListModules''), (468, ''FileGetattr''),
    (469, ''FileSetattr''), (154, ''ModifyLdt''), (205, ''SetThreadArea''),
    (211, ''GetThreadArea''), (134, ''Uselib''), (156, ''Sysctl''), (335, ''Uretprobe'')]"

definition x86_table :: "(nat \<times> string) list" where
  "x86_table = x86_table_1 @ x86_table_2 @ x86_table_3"

definition a64_table_1 :: "(nat \<times> string) list" where
  "a64_table_1 = [
    (38, ''Renameat''), (63, ''Read''), (64, ''Write''), (56, ''Openat''), (57, ''Close''),
    (163, ''Getrlimit''), (164, ''Setrlimit''), (214, ''Brk''), (222, ''Mmap''), (215, ''Munmap''),
    (226, ''Mprotect''), (216, ''Mremap''), (233, ''Madvise''), (228, ''Mlock''),
    (229, ''Munlock''), (230, ''Mlockall''), (231, ''Munlockall''), (284, ''Mlock2''),
    (227, ''Msync''), (232, ''Mincore''), (94, ''ExitGroup''), (93, ''Exit''),
    (96, ''SetTidAddress''), (29, ''Ioctl''), (65, ''Readv''), (66, ''Writev''),
    (103, ''Setitimer''), (102, ''Getitimer''), (160, ''Uname''), (172, ''Getpid''),
    (173, ''Getppid''), (178, ''Gettid''), (174, ''Getuid''), (175, ''Geteuid''), (176, ''Getgid''),
    (177, ''Getegid''), (113, ''ClockGettime''), (169, ''Gettimeofday''), (114, ''ClockGetres''),
    (115, ''ClockNanosleep''), (101, ''Nanosleep''), (112, ''ClockSettime''),
    (170, ''Settimeofday''), (171, ''Adjtimex''), (266, ''ClockAdjtime''), (62, ''Lseek''),
    (80, ''Fstat''), (79, ''Newfstatat''), (61, ''Getdents64''), (17, ''Getcwd''), (49, ''Chdir''),
    (50, ''Fchdir''), (278, ''Getrandom''), (134, ''RtSigaction''), (135, ''RtSigprocmask''),
    (136, ''RtSigpending''), (137, ''RtSigtimedwait''), (138, ''RtSigqueueinfo''),
    (240, ''RtTgsigqueueinfo''), (139, ''RtSigreturn''), (133, ''RtSigsuspend''),
    (132, ''Sigaltstack''), (129, ''Kill''), (130, ''Tkill''), (131, ''Tgkill''), (98, ''Futex''),
    (25, ''Fcntl''), (32, ''Flock''), (59, ''Pipe2''), (23, ''Dup''), (24, ''Dup3''),
    (220, ''Clone''), (221, ''Execve''), (260, ''Wait4''), (99, ''SetRobustList''),
    (43, ''Statfs''), (44, ''Fstatfs''), (78, ''Readlinkat''), (36, ''Symlinkat''),
    (34, ''Mkdirat''), (35, ''Unlinkat''), (276, ''Renameat2''), (48, ''Faccessat''),
    (439, ''Faccessat2''), (53, ''Fchmodat''), (52, ''Fchmod''), (54, ''Fchownat''),
    (55, ''Fchown''), (33, ''Mknodat''), (88, ''Utimensat''), (166, ''Umask''), (8, ''Getxattr''),
    (9, ''Lgetxattr''), (10, ''Fgetxattr''), (198, ''Socket''), (199, ''Socketpair''),
    (200, ''Bind''), (201, ''Listen''), (242, ''Accept4''), (203, ''Connect''),
    (204, ''Getsockname''), (205, ''Getpeername''), (206, ''Sendto''), (207, ''Recvfrom''),
    (211, ''Sendmsg''), (212, ''Recvmsg''), (208, ''Setsockopt'')]"

definition a64_table_2 :: "(nat \<times> string) list" where
  "a64_table_2 = [
    (209, ''Getsockopt''), (210, ''Shutdown''), (124, ''SchedYield''), (123, ''SchedGetaffinity''),
    (122, ''SchedSetaffinity''), (120, ''SchedGetscheduler''), (119, ''SchedSetscheduler''),
    (121, ''SchedGetparam''), (125, ''SchedGetPriorityMax''), (126, ''SchedGetPriorityMin''),
    (165, ''Getrusage''), (179, ''Sysinfo''), (261, ''Prlimit64''), (153, ''Times''),
    (141, ''Getpriority''), (140, ''Setpriority''), (168, ''Getcpu''), (167, ''Prctl''),
    (92, ''Personality''), (161, ''Sethostname''), (162, ''Setdomainname''), (90, ''Capget''),
    (91, ''Capset''), (283, ''Membarrier''), (73, ''Ppoll''), (72, ''Pselect6''),
    (20, ''EpollCreate1''), (21, ''EpollCtl''), (22, ''EpollPwait''), (441, ''EpollPwait2''),
    (19, ''Eventfd2''), (85, ''TimerfdCreate''), (86, ''TimerfdSettime''), (87, ''TimerfdGettime''),
    (67, ''Pread64''), (68, ''Pwrite64''), (69, ''Preadv''), (70, ''Pwritev''), (46, ''Ftruncate''),
    (45, ''Truncate''), (82, ''Fsync''), (83, ''Fdatasync''), (81, ''Sync''), (267, ''Syncfs''),
    (47, ''Fallocate''), (213, ''Readahead''), (223, ''Fadvise64''), (84, ''SyncFileRange''),
    (71, ''Sendfile''), (285, ''CopyFileRange''), (37, ''Linkat''), (291, ''Statx''),
    (146, ''Setuid''), (144, ''Setgid''), (145, ''Setreuid''), (143, ''Setregid''),
    (147, ''Setresuid''), (149, ''Setresgid''), (148, ''Getresuid''), (150, ''Getresgid''),
    (151, ''Setfsuid''), (152, ''Setfsgid''), (158, ''Getgroups''), (159, ''Setgroups''),
    (154, ''Setpgid''), (155, ''Getpgid''), (157, ''Setsid''), (156, ''Getsid''), (95, ''Waitid''),
    (435, ''Clone3''), (281, ''Execveat''), (436, ''CloseRange''), (202, ''Accept''),
    (243, ''Recvmmsg''), (269, ''Sendmmsg''), (116, ''Syslog''), (40, ''Mount''), (39, ''Umount2''),
    (51, ''Chroot''), (117, ''Ptrace''), (293, ''Rseq''), (128, ''RestartSyscall''),
    (100, ''GetRobustList''), (279, ''MemfdCreate''), (26, ''InotifyInit1''),
    (27, ''InotifyAddWatch''), (28, ''InotifyRmWatch''), (74, ''Signalfd4''), (5, ''Setxattr''),
    (6, ''Lsetxattr''), (7, ''Fsetxattr''), (11, ''Listxattr''), (12, ''Llistxattr''),
    (13, ''Flistxattr''), (14, ''Removexattr''), (15, ''Lremovexattr''), (16, ''Fremovexattr''),
    (463, ''Setxattrat''), (464, ''Getxattrat''), (465, ''Listxattrat''), (466, ''Removexattrat''),
    (30, ''IoprioSet''), (31, ''IoprioGet''), (75, ''Vmsplice''), (76, ''Splice''), (77, ''Tee''),
    (286, ''Preadv2''), (287, ''Pwritev2'')]"

definition a64_table_3 :: "(nat \<times> string) list" where
  "a64_table_3 = [
    (437, ''Openat2''), (451, ''Cachestat''), (452, ''Fchmodat2''), (107, ''TimerCreate''),
    (108, ''TimerGettime''), (109, ''TimerGetoverrun''), (110, ''TimerSettime''),
    (111, ''TimerDelete''), (118, ''SchedSetparam''), (127, ''SchedRrGetInterval''),
    (274, ''SchedSetattr''), (275, ''SchedGetattr''), (180, ''MqOpen''), (181, ''MqUnlink''),
    (182, ''MqTimedsend''), (183, ''MqTimedreceive''), (184, ''MqNotify''), (185, ''MqGetsetattr''),
    (186, ''Msgget''), (187, ''Msgctl''), (188, ''Msgrcv''), (189, ''Msgsnd''), (190, ''Semget''),
    (191, ''Semctl''), (192, ''Semtimedop''), (193, ''Semop''), (194, ''Shmget''),
    (195, ''Shmctl''), (196, ''Shmat''), (197, ''Shmdt''), (235, ''Mbind''),
    (236, ''GetMempolicy''), (237, ''SetMempolicy''), (238, ''MigratePages''), (239, ''MovePages''),
    (450, ''SetMempolicyHomeNode''), (270, ''ProcessVmReadv''), (271, ''ProcessVmWritev''),
    (272, ''Kcmp''), (424, ''PidfdSendSignal''), (434, ''PidfdOpen''), (438, ''PidfdGetfd''),
    (440, ''ProcessMadvise''), (448, ''ProcessMrelease''), (288, ''PkeyMprotect''),
    (289, ''PkeyAlloc''), (290, ''PkeyFree''), (462, ''Mseal''), (234, ''RemapFilePages''),
    (449, ''FutexWaitv''), (454, ''FutexWake''), (455, ''FutexWait''), (456, ''FutexRequeue''),
    (277, ''Seccomp''), (97, ''Unshare''), (268, ''Setns''), (58, ''Vhangup''), (142, ''Reboot''),
    (0, ''IoSetup''), (1, ''IoDestroy''), (2, ''IoSubmit''), (3, ''IoCancel''),
    (4, ''IoGetevents''), (292, ''IoPgetevents''), (425, ''IoUringSetup''), (426, ''IoUringEnter''),
    (427, ''IoUringRegister''), (241, ''PerfEventOpen''), (280, ''Bpf''), (282, ''Userfaultfd''),
    (262, ''FanotifyInit''), (263, ''FanotifyMark''), (264, ''NameToHandleAt''),
    (265, ''OpenByHandleAt''), (104, ''KexecLoad''), (294, ''KexecFileLoad''),
    (105, ''InitModule''), (273, ''FinitModule''), (106, ''DeleteModule''), (224, ''Swapon''),
    (225, ''Swapoff''), (89, ''Acct''), (60, ''Quotactl''), (443, ''QuotactlFd''),
    (41, ''PivotRoot''), (428, ''OpenTree''), (467, ''OpenTreeAttr''), (429, ''MoveMount''),
    (430, ''Fsopen''), (431, ''Fsconfig''), (432, ''Fsmount''), (433, ''Fspick''),
    (442, ''MountSetattr''), (457, ''Statmount''), (458, ''Listmount''),
    (444, ''LandlockCreateRuleset''), (445, ''LandlockAddRule''), (446, ''LandlockRestrictSelf''),
    (217, ''AddKey''), (218, ''RequestKey''), (219, ''Keyctl''), (447, ''MemfdSecret''),
    (453, ''MapShadowStack''), (459, ''LsmGetSelfAttr''), (460, ''LsmSetSelfAttr''),
    (461, ''LsmListModules''), (468, ''FileGetattr''), (469, ''FileSetattr'')]"

definition a64_table :: "(nat \<times> string) list" where
  "a64_table = a64_table_1 @ a64_table_2 @ a64_table_3"

definition x86_ni :: "nat list" where
  "x86_ni = [174, 177, 178, 180, 181, 182, 183, 184, 185, 212, 214, 215, 236]"

definition a64_ni :: "nat list" where
  "a64_ni = [18, 42]"

definition decode_with :: "(nat \<times> string) list \<Rightarrow> nat list \<Rightarrow> u64 \<Rightarrow> sysno" where
  "decode_with t ni nr =
     (case map_of t (unat nr) of
        Some v \<Rightarrow> Sysno v
      | None \<Rightarrow> if unat nr \<in> set ni then NiSyscall else Unknown nr)"

fun decode :: "arch \<Rightarrow> u64 \<Rightarrow> sysno" where
  "decode Aarch64 nr = decode_with a64_table a64_ni nr"
| "decode X86_64 nr = decode_with x86_table x86_ni nr"

text \<open>The architecture an ELF header names (\<^verbatim>\<open>e_machine\<close>, at offset 18), and how users spell one.\<close>

definition arch_from_elf :: "bytes \<Rightarrow> arch option" where
  "arch_from_elf elf =
     (if length elf \<le> 19 then None
      else let m = u16_from_le [elf ! 18, elf ! 19]
           in if m = 183 then Some Aarch64 else if m = 62 then Some X86_64 else None)"

lemma decode_with_known: "decode_with t ni nr = Sysno v \<longleftrightarrow> map_of t (unat nr) = Some v"
  by (simp add: decode_with_def split: option.splits)

end
