(* ===== verification/Syscall_Policy.thy ===== *)
theory Syscall_Policy
  imports Syscall_Abi Rust_Text
begin

text \<open>
  The embedder's syscall policy, \<^verbatim>\<open>src/policy.rs\<close>, and the kernel's check of it
  (\<^verbatim>\<open>Kernel::policy_check\<close> of \<^verbatim>\<open>src/kernel/mod.rs\<close>). Error messages are the values of an error type.
\<close>

subsection \<open>Rules\<close>

datatype action = Fail errno | Kill

datatype policy_error = UnknownGroup string | UnknownSyscall string | ErrnoOutOfRange int | UnknownErrno string

definition GROUPS :: "(string \<times> string list) list" where
  "GROUPS =
    [(''@mount'', [''mount'', ''umount2'', ''pivot_root'', ''chroot'', ''fsopen'', ''fsmount'', ''fsconfig'',
                   ''fspick'', ''move_mount'', ''open_tree'', ''mount_setattr'']),
     (''@namespaces'', [''unshare'', ''setns'']),
     (''@network'', [''socket'', ''socketpair'', ''bind'', ''connect'', ''listen'', ''accept'', ''accept4'',
                     ''sendto'', ''recvfrom'', ''sendmsg'', ''recvmsg'', ''sendmmsg'', ''recvmmsg'']),
     (''@debug'', [''ptrace'', ''process_vm_readv'', ''process_vm_writev'', ''kcmp'', ''pidfd_getfd'',
                   ''perf_event_open'']),
     (''@clock'', [''settimeofday'', ''clock_settime'', ''clock_adjtime'', ''adjtimex'']),
     (''@keyring'', [''add_key'', ''request_key'', ''keyctl''])]"

type_synonym rule = "string \<times> action"

record syscall_policy =
  sp_rules :: "rule list"
  sp_log :: bool

definition key :: "string \<Rightarrow> string" where
  "key name = map lower_char (filter (\<lambda>c. c \<noteq> CHR ''_'') name)"

definition sysno_key :: "arch \<Rightarrow> nat \<Rightarrow> (nat \<times> string \<times> string) option" where
  "sysno_key a nr = (case decode a (word_of_nat nr) of Sysno v \<Rightarrow> Some (nr, v, key v) | _ \<Rightarrow> None)"

definition table :: "arch \<Rightarrow> (nat \<times> string \<times> string) list" where
  "table a = List.map_filter (sysno_key a) [0..<1024]"

definition is_syscall :: "string \<Rightarrow> bool" where
  "is_syscall name \<longleftrightarrow> list_ex (\<lambda>a. list_ex (\<lambda>(_, _, n). n = key name) (table a)) [X86_64, Aarch64]"

definition policy_new :: syscall_policy where
  "policy_new = \<lparr>sp_rules = [], sp_log = False\<rparr>"

definition deny :: "string \<Rightarrow> action \<Rightarrow> syscall_policy \<Rightarrow> policy_error + syscall_policy" where
  "deny name0 act p =
     (let name = trim name0
      in if starts_with ''@'' name
         then (case List.find (\<lambda>(g, _). g = name) GROUPS of
                 None \<Rightarrow> Inl (UnknownGroup name)
               | Some (_, members) \<Rightarrow> Inr (p\<lparr>sp_rules := sp_rules p @ map (\<lambda>m. (m, act)) members\<rparr>))
         else if \<not> is_syscall name then Inl (UnknownSyscall name)
         else Inr (p\<lparr>sp_rules := sp_rules p @ [(name, act)]\<rparr>))"

definition log_denials :: "bool \<Rightarrow> syscall_policy \<Rightarrow> syscall_policy" where
  "log_denials on p = p\<lparr>sp_log := on\<rparr>"

definition parse_action :: "string \<Rightarrow> policy_error + action" where
  "parse_action how0 =
     (let how = trim how0
      in if eq_ignore_ascii_case how ''kill'' then Inr Kill
         else case parse_i32 how of
           Some n \<Rightarrow> if 1 \<le> n \<and> n < 4096 then Inr (Fail (Errno n)) else Inl (ErrnoOutOfRange n)
         | None \<Rightarrow> (case errno_from_name (to_ascii_uppercase how) of
                     Some e \<Rightarrow> Inr (Fail e) | None \<Rightarrow> Inl (UnknownErrno how)))"

definition parse_rule :: "string \<Rightarrow> policy_error + (string \<times> action)" where
  "parse_rule rule =
     (case split_once CHR '':'' rule of
        None \<Rightarrow> Inr (rule, Fail EPERM)
      | Some (name, how) \<Rightarrow> (case parse_action how of Inl e \<Rightarrow> Inl e | Inr act \<Rightarrow> Inr (name, act)))"

fun parse_rules :: "string list \<Rightarrow> syscall_policy \<Rightarrow> policy_error + syscall_policy" where
  "parse_rules [] p = Inr p"
| "parse_rules (rule # rs) p =
     (case parse_rule rule of Inl e \<Rightarrow> Inl e
      | Inr (name, act) \<Rightarrow> (case deny name act p of Inl e \<Rightarrow> Inl e | Inr p' \<Rightarrow> parse_rules rs p'))"

definition policy_parse :: "string \<Rightarrow> policy_error + syscall_policy" where
  "policy_parse spec =
     parse_rules (filter (\<lambda>r. r \<noteq> []) (map trim (split_at CHR '','' spec))) policy_new"

definition policy_from_env :: "(string \<Rightarrow> string option) \<Rightarrow> policy_error + syscall_policy" where
  "policy_from_env env =
     (let log = (case env ''NIXVM_LOG_DENIALS'' of None \<Rightarrow> False | Some v \<Rightarrow> v \<noteq> [] \<and> v \<noteq> ''0'')
      in case (case env ''NIXVM_DENY_SYSCALLS'' of Some spec \<Rightarrow> policy_parse spec | None \<Rightarrow> Inr policy_new) of
           Inl e \<Rightarrow> Inl e | Inr p \<Rightarrow> Inr (log_denials log p))"

subsection \<open>The compiled policy\<close>

record compiled_policy =
  cp_by_nr :: "action option list"
  cp_names :: "string list"
  cp_log :: bool
  cp_deny_all :: bool
  cp_active :: bool

definition rule_for :: "rule list \<Rightarrow> string \<Rightarrow> action option" where
  "rule_for rules k = map_option snd (List.find (\<lambda>(n, _). key n = k) (rev rules))"

fun fill :: "rule list \<Rightarrow> (nat \<times> string \<times> string) list \<Rightarrow> action option list \<times> string list \<Rightarrow>
    action option list \<times> string list" where
  "fill rules [] acc = acc"
| "fill rules ((nr, sys, k) # es) (by_nr, names) =
     fill rules es (case rule_for rules k of
        Some act \<Rightarrow> (by_nr[nr := Some act], names[nr := sys]) | None \<Rightarrow> (by_nr, names))"

definition compile :: "syscall_policy \<Rightarrow> arch \<Rightarrow> compiled_policy" where
  "compile p a =
     (if sp_rules p = []
      then \<lparr>cp_by_nr = [], cp_names = [], cp_log = sp_log p, cp_deny_all = False, cp_active = False\<rparr>
      else let (by_nr, names) = fill (sp_rules p) (table a) (replicate 1024 None, replicate 1024 [])
           in \<lparr>cp_by_nr = by_nr, cp_names = names, cp_log = sp_log p, cp_deny_all = False,
               cp_active = list_ex (\<lambda>x. x \<noteq> None) by_nr\<rparr>)"

definition deny_everything :: compiled_policy where
  "deny_everything = \<lparr>cp_by_nr = [], cp_names = [], cp_log = True, cp_deny_all = True, cp_active = True\<rparr>"

definition verdict :: "compiled_policy \<Rightarrow> u64 \<Rightarrow> (action \<times> string) option" where
  "verdict cp nr =
     (if cp_deny_all cp then Some (Kill, ''any'')
      else let i = unat nr
           in if i < length (cp_by_nr cp)
              then (case cp_by_nr cp ! i of None \<Rightarrow> None | Some act \<Rightarrow> Some (act, cp_names cp ! i))
              else None)"

subsection \<open>The kernel's check\<close>

record denial =
  de_pid :: int
  de_syscall :: string
  de_action :: action

record denials =
  dn_count :: u64
  dn_log :: "denial list"

datatype gate_result = Returns int | KillGroup int

definition record_denial :: "int \<Rightarrow> action \<Rightarrow> string \<Rightarrow> denials \<Rightarrow> denials" where
  "record_denial tgid act name d =
     \<lparr>dn_count = dn_count d + 1,
      dn_log = (if length (dn_log d) \<ge> 1024 then tl (dn_log d) else dn_log d)
               @ [\<lparr>de_pid = tgid, de_syscall = name, de_action = act\<rparr>]\<rparr>"

definition policy_check :: "compiled_policy \<Rightarrow> int \<Rightarrow> u64 \<Rightarrow> denials \<Rightarrow> gate_result option \<times> denials" where
  "policy_check cp tgid raw d =
     (case verdict cp raw of
        None \<Rightarrow> (None, d)
      | Some (act, name) \<Rightarrow>
          (Some (case act of Fail e \<Rightarrow> Returns (err e) | Kill \<Rightarrow> KillGroup 9),
           record_denial tgid act name d))"

subsection \<open>What is compiled is what the rules say\<close>

lemma sysno_key_Some: "sysno_key a n = Some (m, v, k) \<longleftrightarrow> m = n \<and> decode a (word_of_nat n) = Sysno v \<and> k = key v"
  by (auto simp: sysno_key_def split: sysno.splits)

lemma set_map_filter: "y \<in> set (List.map_filter f xs) \<longleftrightarrow> (\<exists>x\<in>set xs. f x = Some y)"
  by (force simp: List.map_filter_def)

lemma in_table:
  "(n, v, k) \<in> set (table a) \<longleftrightarrow> n < 1024 \<and> decode a (word_of_nat n) = Sysno v \<and> k = key v"
  by (auto simp: table_def set_map_filter sysno_key_Some)

lemma map_filter_fst:
  assumes "\<And>n x. f n = Some x \<Longrightarrow> fst x = n"
  shows "map fst (List.map_filter f ns) = filter (\<lambda>n. f n \<noteq> None) ns"
  using assms by (induction ns) (auto simp: map_filter_simps split: option.splits)

lemma distinct_table: "distinct (map fst (table a))"
  unfolding table_def by (subst map_filter_fst) (auto simp: sysno_key_Some)

lemma fill_length:
  "length (fst (fill rules es acc)) = length (fst acc)" "length (snd (fill rules es acc)) = length (snd acc)"
  by (induction rules es acc rule: fill.induct) (auto split: option.splits)

lemma fill_other:
  "n \<notin> fst ` set es \<Longrightarrow> fst (fill rules es acc) ! n = fst acc ! n \<and> snd (fill rules es acc) ! n = snd acc ! n"
  by (induction rules es acc rule: fill.induct) (auto split: option.splits)

lemma fill_entry:
  assumes "distinct (map fst es)" "(n, v, k) \<in> set es" "n < length (fst acc)" "n < length (snd acc)"
  shows "fst (fill rules es acc) ! n = (case rule_for rules k of Some act \<Rightarrow> Some act | None \<Rightarrow> fst acc ! n)
    \<and> snd (fill rules es acc) ! n = (if rule_for rules k = None then snd acc ! n else v)"
  using assms
proof (induction rules es acc rule: fill.induct)
  case (2 rules nr sys k' es by_nr names)
  show ?case
  proof (cases "n = nr")
    case True
    then have "n \<notin> fst ` set es" "v = sys" "k = k'" using 2(2,3) by (auto simp: image_iff)
    with True 2(4,5) fill_other [of n es rules] show ?thesis by (auto split: option.splits)
  next
    case False
    then show ?thesis using 2 by (auto split: option.splits)
  qed
qed simp

definition policy_spec :: "syscall_policy \<Rightarrow> arch \<Rightarrow> u64 \<Rightarrow> (action \<times> string) option" where
  "policy_spec p a nr =
     (case decode a nr of
        Sysno v \<Rightarrow> if unat nr < 1024 then map_option (\<lambda>act. (act, v)) (rule_for (sp_rules p) (key v)) else None
      | _ \<Rightarrow> None)"

lemma compile_tables:
  assumes "sp_rules p \<noteq> []"
  shows "length (cp_by_nr (compile p a)) = 1024" "cp_deny_all (compile p a) = False"
    "n < 1024 \<Longrightarrow> decode a (word_of_nat n) = Sysno v \<Longrightarrow> cp_by_nr (compile p a) ! n = rule_for (sp_rules p) (key v)"
    "n < 1024 \<Longrightarrow> decode a (word_of_nat n) = Sysno v \<Longrightarrow> rule_for (sp_rules p) (key v) \<noteq> None \<Longrightarrow> cp_names (compile p a) ! n = v"
    "n < 1024 \<Longrightarrow> (\<nexists>v. decode a (word_of_nat n) = Sysno v) \<Longrightarrow> cp_by_nr (compile p a) ! n = None"
proof -
  let ?f = "fill (sp_rules p) (table a) (replicate 1024 None, replicate 1024 [])"
  have c: "cp_by_nr (compile p a) = fst ?f" "cp_names (compile p a) = snd ?f"
    using assms by (simp_all add: compile_def case_prod_beta)
  show "length (cp_by_nr (compile p a)) = 1024" unfolding c by (simp add: fill_length)
  show "cp_deny_all (compile p a) = False" using assms by (simp add: compile_def case_prod_beta)
  { assume n: "n < 1024" "decode a (word_of_nat n) = Sysno v"
    then have "(n, v, key v) \<in> set (table a)" by (simp add: in_table)
    note f = fill_entry [OF distinct_table this, of "(replicate 1024 None, replicate 1024 [])" "sp_rules p"]
    show "cp_by_nr (compile p a) ! n = rule_for (sp_rules p) (key v)"
      using f n(1) unfolding c by (simp split: option.splits)
    show "cp_names (compile p a) ! n = v" if "rule_for (sp_rules p) (key v) \<noteq> None"
      using f n(1) that unfolding c by simp }
  assume n: "n < 1024" "\<nexists>v. decode a (word_of_nat n) = Sysno v"
  then have "n \<notin> fst ` set (table a)" by (auto simp: in_table)
  from fill_other [OF this, of "sp_rules p" "(replicate 1024 None, replicate 1024 [])"] n(1)
  show "cp_by_nr (compile p a) ! n = None" unfolding c by simp
qed

lemma compile_verdict: "verdict (compile p a) nr = policy_spec p a nr"
proof (cases "sp_rules p = []")
  case True
  then show ?thesis by (simp add: verdict_def compile_def policy_spec_def rule_for_def split: sysno.splits)
next
  case False
  note t = compile_tables [OF False, where a = a]
  show ?thesis
  proof (cases "unat nr < 1024")
    case small: True
    have w: "word_of_nat (unat nr) = nr" by simp
    show ?thesis
    proof (cases "\<exists>v. decode a nr = Sysno v")
      case True
      then obtain v where v: "decode a nr = Sysno v" by blast
      show ?thesis using t(1,2) t(3,4) [OF small] v small w
        by (cases "rule_for (sp_rules p) (key v)") (simp_all add: verdict_def policy_spec_def)
    next
      case False
      then show ?thesis using t(1,2) t(5) [OF small] small w
        by (auto simp: verdict_def policy_spec_def split: sysno.splits)
    qed
  qed (use t(1,2) in \<open>auto simp: verdict_def policy_spec_def split: sysno.splits\<close>)
qed

lemma find_last:
  "List.find P (rev xs) = Some y \<Longrightarrow> \<exists>ys zs. xs = ys @ y # zs \<and> P y \<and> (\<forall>z\<in>set zs. \<not> P z)"
proof (induction xs rule: rev_induct)
  case (snoc x xs)
  show ?case
  proof (cases "P x")
    case True
    then show ?thesis using snoc.prems by (intro exI [of _ xs] exI [of _ "[]"]) simp
  next
    case False
    with snoc obtain ys zs where "xs = ys @ y # zs" "P y" "\<forall>z\<in>set zs. \<not> P z" by auto
    then show ?thesis using False by (intro exI [of _ ys] exI [of _ "zs @ [x]"]) simp
  qed
qed simp

lemma active_iff: "cp_active (compile p a) \<longleftrightarrow> (\<exists>nr. verdict (compile p a) nr \<noteq> None)"
proof (cases "sp_rules p = []")
  case True
  then show ?thesis by (simp add: verdict_def compile_def)
next
  case False
  note t = compile_tables(1,2) [OF False, where a = a]
  have "cp_active (compile p a) \<longleftrightarrow> (\<exists>n<1024. cp_by_nr (compile p a) ! n \<noteq> None)"
    using False t(1) by (auto simp: compile_def case_prod_beta list_ex_length)
  also have "\<dots> \<longleftrightarrow> (\<exists>nr. verdict (compile p a) nr \<noteq> None)"
  proof
    assume "\<exists>n<1024. cp_by_nr (compile p a) ! n \<noteq> None"
    then obtain n where n: "n < 1024" "cp_by_nr (compile p a) ! n \<noteq> None" by blast
    then have "unat (word_of_nat n :: u64) = n" by (simp add: unat_word_of_nat_eq)
    with n t have "verdict (compile p a) (word_of_nat n) \<noteq> None" by (auto simp: verdict_def)
    then show "\<exists>nr. verdict (compile p a) nr \<noteq> None" by blast
  next
    assume "\<exists>nr. verdict (compile p a) nr \<noteq> None"
    then obtain nr where "verdict (compile p a) nr \<noteq> None" by blast
    then show "\<exists>n<1024. cp_by_nr (compile p a) ! n \<noteq> None"
      using t by (auto simp: verdict_def Let_def split: if_splits option.splits)
  qed
  finally show ?thesis .
qed

subsection \<open>Parsing\<close>

definition rule_names_known :: "syscall_policy \<Rightarrow> bool" where
  "rule_names_known p \<longleftrightarrow> list_all (\<lambda>(n, _). is_syscall n \<or> (\<exists>(g, ms)\<in>set GROUPS. n \<in> set ms)) (sp_rules p)"

lemma deny_known: "rule_names_known p \<Longrightarrow> deny n act p = Inr p' \<Longrightarrow> rule_names_known p'"
  by (fastforce simp: deny_def rule_names_known_def Let_def list_all_iff find_Some_iff
      split: if_splits option.splits dest: nth_mem)

lemma deny_extends: "deny n act p = Inr p' \<Longrightarrow> \<exists>rs. sp_rules p' = sp_rules p @ rs \<and> (\<forall>(_, a)\<in>set rs. a = act)"
  by (auto simp: deny_def Let_def split: if_splits option.splits)

lemma parse_rules_known: "rule_names_known p \<Longrightarrow> parse_rules rs p = Inr p' \<Longrightarrow> rule_names_known p'"
  by (induction rs arbitrary: p) (auto split: sum.splits prod.splits dest: deny_known)

lemma parse_rules_all:
  "parse_rules rs p = Inr p' \<Longrightarrow> r \<in> set rs \<Longrightarrow> \<exists>n act q q'. parse_rule r = Inr (n, act) \<and> deny n act q = Inr q'"
  by (induction rs arbitrary: p) (auto split: sum.splits prod.splits)

lemma find_last_iff:
  "List.find P (rev xs) = Some y \<longleftrightarrow> (\<exists>ys zs. xs = ys @ y # zs \<and> P y \<and> (\<forall>z\<in>set zs. \<not> P z))"
proof
  assume "\<exists>ys zs. xs = ys @ y # zs \<and> P y \<and> (\<forall>z\<in>set zs. \<not> P z)"
  then obtain ys zs where x: "xs = ys @ y # zs" "P y" "\<forall>z\<in>set zs. \<not> P z" by blast
  have "List.find P (rev zs @ [y] @ rev ys) = Some y"
    using x(2,3) by (induction zs rule: rev_induct) auto
  then show "List.find P (rev xs) = Some y" by (simp add: x(1))
qed (rule find_last)

subsection \<open>Checks as a machine\<close>

text \<open>
  The record of denials under a sequence of calls, each a thread group and a raw number: a machine
  whose log never grows past its cap.
\<close>

definition denials_step :: "compiled_policy \<Rightarrow> denials \<Rightarrow> int \<times> u64 \<Rightarrow> denials" where
  "denials_step cp d x = snd (policy_check cp (fst x) (snd x) d)"

definition denials_ok :: "denials \<Rightarrow> bool" where
  "denials_ok d \<longleftrightarrow> length (dn_log d) \<le> 1024"

interpretation denied: bounded_machine "denials_step cp" denials_ok "\<lambda>d. length (dn_log d)" "\<lambda>_. 1024"
  by unfold_locales
    (auto simp: denials_ok_def denials_step_def policy_check_def record_denial_def split: option.splits)

subsection \<open>Properties\<close>

text \<open>
  C16. What the kernel looks up is what the rules say. A raw number is denied exactly when it decodes to a
  call of the architecture's table below 1024 that some rule names, spelled in any mixture of case and
  underscores; the last rule for it decides the action, the name recorded is the call's, and the flag
  that lets the kernel skip the lookup is set exactly when some number is denied.
\<close>

theorem compiled_policy_last_rule_wins:
  "(verdict (compile p a) nr = Some (act, v) \<longleftrightarrow>
      decode a nr = Sysno v \<and> unat nr < 1024
      \<and> (\<exists>ys n zs. sp_rules p = ys @ (n, act) # zs \<and> key n = key v \<and> (\<forall>(m, _)\<in>set zs. key m \<noteq> key v)))
   \<and> (cp_active (compile p a) \<longleftrightarrow> (\<exists>nr. verdict (compile p a) nr \<noteq> None))"
proof -
  have "rule_for (sp_rules p) (key v) = Some act \<longleftrightarrow>
      (\<exists>ys n zs. sp_rules p = ys @ (n, act) # zs \<and> key n = key v \<and> (\<forall>(m, _)\<in>set zs. key m \<noteq> key v))"
    unfolding rule_for_def by (auto simp: find_last_iff case_prod_beta)
  then show ?thesis
    using active_iff [of p a] by (auto simp: compile_verdict policy_spec_def split: sysno.splits if_splits)
qed

theorem compiled_policy_last_rule_wins_witness:
  "verdict (compile \<lparr>sp_rules = [(''chroot'', Kill), (''mount'', Fail EPERM), (''MO_unt'', Kill)], sp_log = False\<rparr> X86_64) 165
     = Some (Kill, ''Mount'')"
proof -
  let ?p = "\<lparr>sp_rules = [(''chroot'', Kill), (''mount'', Fail EPERM), (''MO_unt'', Kill)], sp_log = False\<rparr>"
  have d: "decode X86_64 165 = Sysno ''Mount''"
    by (simp add: decode_with_def x86_table_def x86_table_1_def x86_table_2_def x86_table_3_def)
  have k: "key ''MO_unt'' = key ''Mount''" by code_simp
  have "sp_rules ?p = [(''chroot'', Kill), (''mount'', Fail EPERM)] @ (''MO_unt'', Kill) # []" by simp
  with k have "\<exists>ys n zs. sp_rules ?p = ys @ (n, Kill) # zs \<and> key n = key ''Mount''
      \<and> (\<forall>(m, _)\<in>set zs. key m \<noteq> key ''Mount'')" by (metis (no_types, lifting) empty_iff empty_set)
  with compiled_policy_last_rule_wins [THEN conjunct1, THEN iffD2, of X86_64 165 "''Mount''" ?p Kill] d
  show ?thesis by simp
qed




end
