(* ===== verification/Sig_Queue.thy ===== *)
theory Sig_Queue
  imports Nixvm_Base
begin

text \<open>
  A task's queued signal information: \<^verbatim>\<open>post_siginfo\<close>, \<^verbatim>\<open>take_siginfo\<close>, \<^verbatim>\<open>drain_rt\<close> and
  \<^verbatim>\<open>queued_signals\<close> of \<^verbatim>\<open>ProcInfo\<close> in \<^verbatim>\<open>src/kernel/mod.rs\<close>. Standard signals keep the newest
  information, real-time signals queue.
\<close>

record queued_sig =
  qs_code :: int
  qs_pid :: int
  qs_uid :: u32
  qs_value :: u64

definition NSIG_SLOTS :: nat where "NSIG_SLOTS = 65"
definition SIGRTMIN :: nat where "SIGRTMIN = 32"
definition MAX_QUEUED :: nat where "MAX_QUEUED = 4096"

record sig_queues =
  sq_info :: "queued_sig option list"
  sq_rt :: "(u32, queued_sig list) fmap"

definition rt_total :: "(u32, queued_sig list) fmap \<Rightarrow> nat" where
  "rt_total m = sum_list (map (\<lambda>k. length (the (fmlookup m k))) (fm_keys m))"

definition queued_signals :: "sig_queues \<Rightarrow> nat" where
  "queued_signals s = rt_total (sq_rt s) + length (filter (\<lambda>q. q \<noteq> None) (sq_info s))"

definition post_siginfo :: "u64 \<Rightarrow> queued_sig \<Rightarrow> sig_queues \<Rightarrow> sig_queues" where
  "post_siginfo sig qs s =
     (if unat sig \<ge> SIGRTMIN
      then (if rt_total (sq_rt s) < MAX_QUEUED
            then let k = ucast sig; q = (case fmlookup (sq_rt s) k of None \<Rightarrow> [] | Some q \<Rightarrow> q)
                 in s\<lparr>sq_rt := fmupd k (q @ [qs]) (sq_rt s)\<rparr>
            else s)
      else if unat sig < NSIG_SLOTS then s\<lparr>sq_info := (sq_info s)[unat sig := Some qs]\<rparr> else s)"

text \<open>\<^verbatim>\<open>pop_front\<close> of an empty queue gives nothing.\<close>

definition take_siginfo :: "u64 \<Rightarrow> sig_queues \<Rightarrow> (queued_sig option \<times> bool) \<times> sig_queues" where
  "take_siginfo sig s =
     (if unat sig \<ge> SIGRTMIN
      then (case fmlookup (sq_rt s) (ucast sig) of
              Some q \<Rightarrow>
                let info = (case q of [] \<Rightarrow> None | x # _ \<Rightarrow> Some x); q' = tl q; more = (q' \<noteq> [])
                in ((info, more), s\<lparr>sq_rt := (if more then fmupd (ucast sig) q' (sq_rt s)
                                              else fmdrop (ucast sig) (sq_rt s))\<rparr>)
            | None \<Rightarrow> ((None, False), s))
      else if unat sig < NSIG_SLOTS
           then ((sq_info s ! unat sig, False), s\<lparr>sq_info := (sq_info s)[unat sig := None]\<rparr>)
           else ((None, False), s))"

definition drain_rt :: "u64 \<Rightarrow> sig_queues \<Rightarrow> sig_queues" where
  "drain_rt sig s = (if unat sig \<ge> SIGRTMIN then s\<lparr>sq_rt := fmdrop (ucast sig) (sq_rt s)\<rparr> else s)"

definition sig_queues_new :: sig_queues where
  "sig_queues_new = \<lparr>sq_info = replicate NSIG_SLOTS None, sq_rt = fmempty\<rparr>"

subsection \<open>Lengths of the real-time queues\<close>

definition rt_of :: "u32 \<Rightarrow> sig_queues \<Rightarrow> queued_sig list" where
  "rt_of k s = (case fmlookup (sq_rt s) k of None \<Rightarrow> [] | Some q \<Rightarrow> q)"

lemma rt_total_set: "rt_total m = (\<Sum>k\<in>fset (fmdom m). length (the (fmlookup m k)))"
  unfolding rt_total_def by (simp add: sum_list_distinct_conv_sum_set)

lemma rt_total_drop: "rt_total (fmdrop k m) = rt_total m - length (case fmlookup m k of None \<Rightarrow> [] | Some q \<Rightarrow> q)"
proof (cases "fmlookup m k")
  case None
  then have "fmdrop k m = m" by (intro fmap_ext) auto
  with None show ?thesis by simp
next
  case (Some q)
  then have k: "k \<in> fset (fmdom m)" by (metis fmdomI)
  have "(\<Sum>j\<in>fset (fmdom m) - {k}. length (the (fmlookup (fmdrop k m) j)))
      = (\<Sum>j\<in>fset (fmdom m) - {k}. length (the (fmlookup m j)))" by (rule sum.cong) auto
  then show ?thesis using Some sum.remove [OF finite_fset k, of "\<lambda>j. length (the (fmlookup m j))"]
    by (simp add: rt_total_set)
qed

lemma rt_total_upd:
  "rt_total (fmupd k q m) = rt_total (fmdrop k m) + length q"
proof -
  have k: "k \<in> fset (fmdom (fmupd k q m))" by simp
  have "(\<Sum>j\<in>fset (fmdom (fmupd k q m)) - {k}. length (the (fmlookup (fmupd k q m) j)))
      = (\<Sum>j\<in>fset (fmdom (fmdrop k m)). length (the (fmlookup (fmdrop k m) j)))"
    by (rule sum.cong) auto
  then show ?thesis using sum.remove [OF finite_fset k, of "\<lambda>j. length (the (fmlookup (fmupd k q m) j))"]
    by (simp add: rt_total_set)
qed

lemma rt_total_ge: "length (case fmlookup m k of None \<Rightarrow> [] | Some q \<Rightarrow> q) \<le> rt_total m"
proof (cases "fmlookup m k")
  case (Some q)
  then have "k \<in> fset (fmdom m)" by (metis fmdomI)
  then show ?thesis using Some member_le_sum [of k "fset (fmdom m)" "\<lambda>j. length (the (fmlookup m j))"]
    by (simp add: rt_total_set)
qed simp

definition sq_inv :: "sig_queues \<Rightarrow> bool" where
  "sq_inv s \<longleftrightarrow> length (sq_info s) = NSIG_SLOTS \<and> rt_total (sq_rt s) \<le> MAX_QUEUED
     \<and> (\<forall>k q. fmlookup (sq_rt s) k = Some q \<longrightarrow> q \<noteq> [])"

lemma sq_inv_new [simp]: "sq_inv sig_queues_new"
  by (simp add: sq_inv_def sig_queues_new_def rt_total_def)

lemma post_siginfo_inv: "sq_inv s \<Longrightarrow> sq_inv (post_siginfo sig qs s)"
  using rt_total_ge [of "sq_rt s" "ucast sig"]
  by (auto simp: sq_inv_def post_siginfo_def Let_def rt_total_upd rt_total_drop split: option.splits)

lemma take_siginfo_inv:
  assumes "sq_inv s"
  shows "sq_inv (snd (take_siginfo sig s))"
proof (cases "fmlookup (sq_rt s) (ucast sig)")
  case (Some q)
  have "rt_total (fmdrop (ucast sig) (sq_rt s)) + length (tl q) \<le> MAX_QUEUED"
    using Some rt_total_ge [of "sq_rt s" "ucast sig"] assms unfolding sq_inv_def rt_total_drop by (simp, linarith)
  with Some assms show ?thesis
    by (auto simp: sq_inv_def take_siginfo_def Let_def rt_total_upd)
qed (use assms in \<open>auto simp: sq_inv_def take_siginfo_def\<close>)

lemma drain_rt_inv: "sq_inv s \<Longrightarrow> sq_inv (drain_rt sig s)"
  by (auto simp: sq_inv_def drain_rt_def rt_total_drop)

datatype sig_op = Post u64 queued_sig | Take u64 | Drain u64

fun sig_step :: "sig_queues \<Rightarrow> sig_op \<Rightarrow> sig_queues" where
  "sig_step s (Post sig qs) = post_siginfo sig qs s"
| "sig_step s (Take sig) = snd (take_siginfo sig s)"
| "sig_step s (Drain sig) = drain_rt sig s"

interpretation sigs: bounded_machine sig_step sq_inv "\<lambda>s. rt_total (sq_rt s)" "\<lambda>_. MAX_QUEUED"
proof (unfold_locales, goal_cases)
  case (1 s x)
  then show ?case by (cases x) (simp_all add: post_siginfo_inv take_siginfo_inv drain_rt_inv)
next
  case (2 s)
  then show ?case by (simp add: sq_inv_def)
qed

subsection \<open>First in, first out\<close>

text \<open>A bounded queue as its clients see it.\<close>

locale bounded_fifo =
  fixes inv :: "'s \<Rightarrow> bool"
    and items :: "'s \<Rightarrow> 'a list"
    and room :: "'s \<Rightarrow> nat"
    and push :: "'a \<Rightarrow> 's \<Rightarrow> 's"
    and pop :: "'s \<Rightarrow> 'a option \<times> 's"
  assumes push_inv: "inv s \<Longrightarrow> inv (push x s)"
    and pop_inv: "inv s \<Longrightarrow> inv (snd (pop s))"
    and push_items: "inv s \<Longrightarrow> 0 < room s \<Longrightarrow> items (push x s) = items s @ [x]"
    and push_room: "inv s \<Longrightarrow> room s \<le> Suc (room (push x s))"
    and pop_items: "inv s \<Longrightarrow> items (snd (pop s)) = tl (items s)"
    and pop_head: "inv s \<Longrightarrow> fst (pop s) = (case items s of [] \<Rightarrow> None | x # _ \<Rightarrow> Some x)"
begin

fun push_all :: "'a list \<Rightarrow> 's \<Rightarrow> 's" where
  "push_all [] s = s"
| "push_all (x # xs) s = push_all xs (push x s)"

fun pop_n :: "nat \<Rightarrow> 's \<Rightarrow> 'a option list" where
  "pop_n 0 s = []"
| "pop_n (Suc n) s = fst (pop s) # pop_n n (snd (pop s))"

lemma push_all_items:
  "inv s \<Longrightarrow> length xs \<le> room s \<Longrightarrow> inv (push_all xs s) \<and> items (push_all xs s) = items s @ xs"
proof (induction xs arbitrary: s)
  case (Cons x xs)
  have "length xs \<le> room (push x s)" using Cons.prems push_room [of s x] by simp
  with Cons.IH [of "push x s"] Cons.prems push_inv push_items [of s x] show ?case by simp
qed simp

lemma pop_n_items: "inv s \<Longrightarrow> n \<le> length (items s) \<Longrightarrow> pop_n n s = map Some (take n (items s))"
proof (induction n arbitrary: s)
  case (Suc n)
  then obtain x xs where "items s = x # xs" by (cases "items s") auto
  with Suc pop_items [of s] pop_head [of s] pop_inv [of s] show ?case by simp
qed simp

lemma fifo:
  assumes "inv s" "items s = []" "length xs \<le> room s"
  shows "pop_n (length xs) (push_all xs s) = map Some xs"
  using push_all_items [OF assms(1,3)] pop_n_items [of "push_all xs s" "length xs"] assms(2) by simp

end

definition rt_push :: "u64 \<Rightarrow> queued_sig \<Rightarrow> sig_queues \<Rightarrow> sig_queues" where
  "rt_push sig qs s = post_siginfo sig qs s"

definition rt_pop :: "u64 \<Rightarrow> sig_queues \<Rightarrow> queued_sig option \<times> sig_queues" where
  "rt_pop sig s = (fst (fst (take_siginfo sig s)), snd (take_siginfo sig s))"

definition rt_signal :: "u64 \<Rightarrow> u64" where
  "rt_signal sig = (if unat sig \<ge> SIGRTMIN then sig else 32)"

lemma rt_signal_ge [simp]: "SIGRTMIN \<le> unat (rt_signal sig)"
  by (simp add: rt_signal_def SIGRTMIN_def)

interpretation rt: bounded_fifo sq_inv "rt_of (ucast (rt_signal sig))" "\<lambda>s. MAX_QUEUED - rt_total (sq_rt s)"
  "rt_push (rt_signal sig)" "rt_pop (rt_signal sig)"
proof (unfold_locales, goal_cases)
  case (1 s x)
  then show ?case by (simp add: rt_push_def post_siginfo_inv)
next
  case (2 s)
  then show ?case by (simp add: rt_pop_def take_siginfo_inv)
next
  case (3 s x)
  then show ?case by (simp add: rt_push_def post_siginfo_def rt_of_def Let_def)
next
  case (4 s x)
  then show ?case using rt_total_ge [of "sq_rt s" "ucast (rt_signal sig)"]
    by (auto simp: rt_push_def post_siginfo_def Let_def rt_total_upd rt_total_drop split: option.splits)
next
  case (5 s)
  then show ?case
    by (auto simp: rt_pop_def take_siginfo_def rt_of_def Let_def split: option.splits)
next
  case (6 s)
  then show ?case
    by (auto simp: rt_pop_def take_siginfo_def rt_of_def Let_def split: option.splits)
qed

text \<open>Taking a signal's information a number of times, as the delivery loop does.\<close>

fun take_times :: "u64 \<Rightarrow> nat \<Rightarrow> sig_queues \<Rightarrow> queued_sig option list" where
  "take_times sig 0 s = []"
| "take_times sig (Suc n) s = fst (fst (take_siginfo sig s)) # take_times sig n (snd (take_siginfo sig s))"

lemma take_times_pop_n: "take_times (rt_signal sig) n s = rt.pop_n sig n s"
  by (induction n arbitrary: s) (simp_all add: rt_pop_def)

lemma post_all: "foldl (\<lambda>s x. post_siginfo (rt_signal sig) x s) s xs = rt.push_all sig xs s"
  by (induction xs arbitrary: s) (simp_all add: rt_push_def)

subsection \<open>Properties\<close>

text \<open>
  C19. Real-time signals are delivered in the order they were sent: whatever happened to the task's queues
  before, once a real-time signal has none queued, posting any number of them that fits the bound and
  then taking as many returns exactly those, each with its own information, first posted first.
\<close>

theorem rt_signals_fifo:
  assumes "unat sig \<ge> SIGRTMIN" "rt_of (ucast sig) (run_ops sig_step sig_queues_new ops) = []"
    and "length xs \<le> MAX_QUEUED - rt_total (sq_rt (run_ops sig_step sig_queues_new ops))"
    and "s = foldl (\<lambda>s x. post_siginfo sig x s) (run_ops sig_step sig_queues_new ops) xs"
  shows "take_times sig (length xs) s = map Some xs"
proof -
  have r: "rt_signal sig = sig" using assms(1) by (simp add: rt_signal_def)
  have "sq_inv (run_ops sig_step sig_queues_new ops)" by (rule sigs.run_inv) simp
  from rt.fifo [of "run_ops sig_step sig_queues_new ops" sig xs, OF this,
      folded take_times_pop_n post_all, unfolded r] assms
  show ?thesis by simp
qed

theorem rt_signals_fifo_witness:
  "take_times 34 2 (post_siginfo 34 \<lparr>qs_code = -1, qs_pid = 7, qs_uid = 0, qs_value = 2\<rparr>
     (post_siginfo 34 \<lparr>qs_code = -1, qs_pid = 7, qs_uid = 0, qs_value = 1\<rparr>
       (run_ops sig_step sig_queues_new [Post 40 \<lparr>qs_code = 0, qs_pid = 1, qs_uid = 0, qs_value = 0\<rparr>])))
   = [Some \<lparr>qs_code = -1, qs_pid = 7, qs_uid = 0, qs_value = 1\<rparr>,
      Some \<lparr>qs_code = -1, qs_pid = 7, qs_uid = 0, qs_value = 2\<rparr>]"
proof -
  let ?x = "\<lparr>qs_code = -1, qs_pid = 7, qs_uid = 0, qs_value = 1\<rparr>"
    and ?y = "\<lparr>qs_code = -1, qs_pid = 7, qs_uid = 0, qs_value = 2\<rparr>"
    and ?ops = "[Post 40 \<lparr>qs_code = 0, qs_pid = 1, qs_uid = 0, qs_value = 0\<rparr>]"
  have len: "length [?x, ?y] = 2" by simp
  have "rt_of (ucast (34 :: u64)) (run_ops sig_step sig_queues_new ?ops) = []"
    by (simp add: rt_of_def post_siginfo_def SIGRTMIN_def sig_queues_new_def rt_total_def)
  moreover have "length [?x, ?y] \<le> MAX_QUEUED - rt_total (sq_rt (run_ops sig_step sig_queues_new ?ops))"
    by (simp add: rt_of_def post_siginfo_def SIGRTMIN_def sig_queues_new_def MAX_QUEUED_def rt_total_upd)
      (simp add: rt_total_def)
  ultimately show ?thesis
    using rt_signals_fifo [of 34 ?ops "[?x, ?y]", OF _ _ _ refl, unfolded len] by (simp add: SIGRTMIN_def)
qed

text \<open>
  C20. A task's queued signals are bounded whatever is sent to it: after every sequence of posts, takes and
  drains, \<^verbatim>\<open>queued_signals\<close> is at most the real-time bound plus one per standard signal slot, and no
  empty real-time queue is left behind.
\<close>

theorem queued_signals_bounded:
  "queued_signals (run_ops sig_step sig_queues_new ops) \<le> MAX_QUEUED + NSIG_SLOTS
   \<and> fmlookup (sq_rt (run_ops sig_step sig_queues_new ops)) k \<noteq> Some []"
proof -
  have "sq_inv (run_ops sig_step sig_queues_new ops)" by (rule sigs.run_inv) simp
  moreover have "rt_total (sq_rt (run_ops sig_step sig_queues_new ops)) \<le> MAX_QUEUED"
    by (rule sigs.run_bound) simp
  moreover have "length (filter (\<lambda>q. q \<noteq> None) (sq_info (run_ops sig_step sig_queues_new ops)))
      \<le> length (sq_info (run_ops sig_step sig_queues_new ops))" by (rule length_filter_le)
  ultimately show ?thesis unfolding queued_signals_def sq_inv_def by (metis add_mono)
qed

end
