(* ===== verification/Seccomp.thy ===== *)
theory Seccomp
  imports Syscall_Policy Sig_Queue "HOL-Library.Sublist"
begin

text \<open>
  The system call filter of the guest kernel, \<^verbatim>\<open>src/kernel/seccomp.rs\<close>: classic BPF programs, their
  validation and interpreter, the combination of the installed filters' verdicts, the operations that
  install them, and the gate in \<^verbatim>\<open>Kernel::service\<close> (\<^verbatim>\<open>src/kernel/mod.rs\<close>) where the embedder's policy
  and the filters meet. Guest memory is the argument \<open>rd\<close> (and \<open>wr\<close>): reading \<open>n\<close> bytes at an address
  gives them or faults.
\<close>

record insn =
  i_code :: u16
  i_jt :: u8
  i_jf :: u8
  i_k :: u32

type_synonym prog = "insn list"

record seccomp_state =
  sc_mode :: u8
  sc_filters :: "prog list"

definition RET_KILL_PROCESS :: u32 where "RET_KILL_PROCESS = 0x80000000"
definition RET_KILL_THREAD :: u32 where "RET_KILL_THREAD = 0x00000000"
definition RET_TRAP :: u32 where "RET_TRAP = 0x00030000"
definition RET_ERRNO :: u32 where "RET_ERRNO = 0x00050000"
definition RET_USER_NOTIF :: u32 where "RET_USER_NOTIF = 0x7fc00000"
definition RET_TRACE :: u32 where "RET_TRACE = 0x7ff00000"
definition RET_LOG :: u32 where "RET_LOG = 0x7ffc0000"
definition RET_ALLOW :: u32 where "RET_ALLOW = 0x7fff0000"
definition RET_ACTION_FULL :: u32 where "RET_ACTION_FULL = 0xffff0000"
definition RET_DATA :: u32 where "RET_DATA = 0x0000ffff"
definition BPF_MAXINSNS :: nat where "BPF_MAXINSNS = 4096"
definition DATA_LEN :: u32 where "DATA_LEN = 64"

lemmas RET_defs = RET_KILL_PROCESS_def RET_KILL_THREAD_def RET_TRAP_def RET_ERRNO_def RET_USER_NOTIF_def
  RET_TRACE_def RET_LOG_def RET_ALLOW_def RET_ACTION_FULL_def RET_DATA_def

definition seccomp_default :: seccomp_state where
  "seccomp_default = \<lparr>sc_mode = 0, sc_filters = []\<rparr>"

definition sc_active :: "seccomp_state \<Rightarrow> bool" where
  "sc_active st \<longleftrightarrow> sc_mode st \<noteq> 0"

subsection \<open>Validation\<close>

definition plain_codes :: "u16 list" where
  "plain_codes = [0x00, 0x01, 0x80, 0x81, 0x04, 0x14, 0x24, 0x44, 0x54, 0x64, 0x74, 0xa4,
     0x0c, 0x1c, 0x2c, 0x3c, 0x4c, 0x5c, 0x6c, 0x7c, 0x9c, 0xac, 0x84, 0x06, 0x16, 0x07, 0x87]"

definition jump_codes :: "u16 list" where
  "jump_codes = [0x15, 0x25, 0x35, 0x45, 0x1d, 0x2d, 0x3d, 0x4d]"

definition insn_ok :: "nat \<Rightarrow> nat \<Rightarrow> insn \<Rightarrow> bool" where
  "insn_ok len pc i =
     (if i_code i \<in> set plain_codes then True
      else if i_code i = 0x20 then unat (i_k i) mod 4 = 0 \<and> i_k i < DATA_LEN
      else if i_code i \<in> {0x60, 0x61, 0x02, 0x03} then i_k i < 16
      else if i_code i \<in> {0x34, 0x94} then i_k i \<noteq> 0
      else if i_code i = 0x05 then pc + 1 + unat (i_k i) < len
      else if i_code i \<in> set jump_codes then pc + 1 + unat (i_jt i) < len \<and> pc + 1 + unat (i_jf i) < len
      else False)"

definition validate :: "prog \<Rightarrow> bool" where
  "validate prog \<longleftrightarrow>
     prog \<noteq> [] \<and> length prog \<le> BPF_MAXINSNS
     \<and> (\<forall>(pc, i)\<in>set (enumerate 0 prog). insn_ok (length prog) pc i)
     \<and> i_code (last prog) \<in> {0x06, 0x16}"

subsection \<open>The interpreter\<close>

record bpf =
  b_a :: u32
  b_x :: u32
  b_m :: "u32 list"

datatype bpf_result = Goto nat bpf | Return u32 | Illegal

definition word_at :: "bytes \<Rightarrow> u32 \<Rightarrow> u32 option" where
  "word_at data k =
     (if unat k + 4 \<le> length data then Some (u32_from_le (take 4 (drop (unat k) data))) else None)"

definition jump_hit :: "u16 \<Rightarrow> u32 \<Rightarrow> u32 \<Rightarrow> bool" where
  "jump_hit code a src =
     (let op = code AND 0xf0
      in if op = 0x10 then a = src
         else if op = 0x20 then a > src
         else if op = 0x30 then a \<ge> src
         else a AND src \<noteq> 0)"

text \<open>The arithmetic group; division by zero and shifts past the width give zero.\<close>

definition alu :: "u16 \<Rightarrow> u32 \<Rightarrow> u32 \<Rightarrow> u32 option" where
  "alu code a src =
     (if code \<in> {0x04, 0x0c} then Some (a + src)
      else if code \<in> {0x14, 0x1c} then Some (a - src)
      else if code \<in> {0x24, 0x2c} then Some (a * src)
      else if code \<in> {0x34, 0x3c} then Some (if src = 0 then 0 else a div src)
      else if code \<in> {0x94, 0x9c} then Some (if src = 0 then 0 else a mod src)
      else if code \<in> {0x44, 0x4c} then Some (a OR src)
      else if code \<in> {0x54, 0x5c} then Some (a AND src)
      else if code \<in> {0x64, 0x6c} then Some (if src < 32 then push_bit (unat src) a else 0)
      else if code \<in> {0x74, 0x7c} then Some (if src < 32 then drop_bit (unat src) a else 0)
      else if code \<in> {0xa4, 0xac} then Some (a XOR src)
      else if code = 0x84 then Some (- a)
      else None)"

text \<open>
  One instruction, \<open>pc\<close> already advanced. \<^const>\<open>None\<close> is a panic: a slice of the data or a scratch slot
  out of range.
\<close>

definition exec1 :: "insn \<Rightarrow> bytes \<Rightarrow> nat \<Rightarrow> bpf \<Rightarrow> bpf_result option" where
  "exec1 i data pc s =
     (let code = i_code i; k = i_k i; slot = unat k;
          src = (if code AND 0x08 \<noteq> 0 then b_x s else k)
      in if code = 0x00 then Some (Goto pc (s\<lparr>b_a := k\<rparr>))
         else if code = 0x01 then Some (Goto pc (s\<lparr>b_x := k\<rparr>))
         else if code = 0x20 then map_option (\<lambda>w. Goto pc (s\<lparr>b_a := w\<rparr>)) (word_at data k)
         else if code = 0x80 then Some (Goto pc (s\<lparr>b_a := DATA_LEN\<rparr>))
         else if code = 0x81 then Some (Goto pc (s\<lparr>b_x := DATA_LEN\<rparr>))
         else if code = 0x60 then (if slot < length (b_m s) then Some (Goto pc (s\<lparr>b_a := b_m s ! slot\<rparr>)) else None)
         else if code = 0x61 then (if slot < length (b_m s) then Some (Goto pc (s\<lparr>b_x := b_m s ! slot\<rparr>)) else None)
         else if code = 0x02 then (if slot < length (b_m s) then Some (Goto pc (s\<lparr>b_m := (b_m s)[slot := b_a s]\<rparr>)) else None)
         else if code = 0x03 then (if slot < length (b_m s) then Some (Goto pc (s\<lparr>b_m := (b_m s)[slot := b_x s]\<rparr>)) else None)
         else case alu code (b_a s) src of
           Some v \<Rightarrow> Some (Goto pc (s\<lparr>b_a := v\<rparr>))
         | None \<Rightarrow>
             if code = 0x05 then Some (Goto (pc + slot) s)
             else if code \<in> set jump_codes
               then Some (Goto (pc + unat (if jump_hit code (b_a s) src then i_jt i else i_jf i)) s)
             else if code = 0x06 then Some (Return k)
             else if code = 0x16 then Some (Return (b_a s))
             else if code = 0x07 then Some (Goto pc (s\<lparr>b_x := b_a s\<rparr>))
             else if code = 0x87 then Some (Goto pc (s\<lparr>b_a := b_x s\<rparr>))
             else Some Illegal)"

lemma exec1_forward: "exec1 i data pc s = Some (Goto pc' s') \<Longrightarrow> pc \<le> pc'"
  by (auto simp: exec1_def Let_def split: if_splits option.splits)

function run_from :: "prog \<Rightarrow> bytes \<Rightarrow> nat \<Rightarrow> bpf \<Rightarrow> u32 option" where
  "run_from prog data pc s =
     (if pc < length prog
      then case exec1 (prog ! pc) data (pc + 1) s of
             None \<Rightarrow> None
           | Some (Goto pc' s') \<Rightarrow> run_from prog data pc' s'
           | Some (Return r) \<Rightarrow> Some r
           | Some Illegal \<Rightarrow> Some RET_KILL_THREAD
      else Some RET_KILL_THREAD)"
  by pat_completeness auto
termination
  by (relation "measure (\<lambda>(prog, _, pc, _). length prog - pc)") (auto dest!: exec1_forward)

declare run_from.simps [simp del]

definition bpf_start :: bpf where
  "bpf_start = \<lparr>b_a = 0, b_x = 0, b_m = replicate 16 0\<rparr>"

definition run :: "prog \<Rightarrow> bytes \<Rightarrow> u32 option" where
  "run prog data = run_from prog data 0 bpf_start"

text \<open>
  The interpreter a validated program is meant for: it has no answer for a program counter outside the
  program or for an unknown instruction.
\<close>

function strict_from :: "prog \<Rightarrow> bytes \<Rightarrow> nat \<Rightarrow> bpf \<Rightarrow> u32 option" where
  "strict_from prog data pc s =
     (if pc < length prog
      then case exec1 (prog ! pc) data (pc + 1) s of
             None \<Rightarrow> None
           | Some (Goto pc' s') \<Rightarrow> strict_from prog data pc' s'
           | Some (Return r) \<Rightarrow> Some r
           | Some Illegal \<Rightarrow> None
      else None)"
  by pat_completeness auto
termination
  by (relation "measure (\<lambda>(prog, _, pc, _). length prog - pc)") (auto dest!: exec1_forward)

declare strict_from.simps [simp del]

lemma validate_nth: "validate prog \<Longrightarrow> pc < length prog \<Longrightarrow> insn_ok (length prog) pc (prog ! pc)"
  by (auto simp: validate_def in_set_enumerate_eq)

lemma word_at_Some: "length data = 64 \<Longrightarrow> unat k mod 4 = 0 \<Longrightarrow> k < DATA_LEN \<Longrightarrow> \<exists>w. word_at data k = Some w"
  by (simp add: word_at_def DATA_LEN_def word_less_nat_alt) presburger

lemma slot_less: "k < (16 :: u32) \<Longrightarrow> unat k < 16"
  by (simp add: word_less_nat_alt)

text \<open>
  A validated instruction neither panics nor is unknown; it returns, or goes on inside the program or to
  the next instruction.
\<close>

lemma exec1_plain:
  assumes "i_code i \<in> set plain_codes" "length (b_m s) = 16"
  shows "(\<exists>r. exec1 i data pc s = Some (Return r) \<and> i_code i \<in> {0x06, 0x16})
    \<or> (\<exists>s'. exec1 i data pc s = Some (Goto pc s') \<and> i_code i \<notin> {0x06, 0x16} \<and> length (b_m s') = 16)"
  using assms unfolding plain_codes_def
  by (simp, elim disjE) (simp_all add: exec1_def alu_def Let_def jump_codes_def)

lemma jump_codes_plain:
  assumes "code \<in> set jump_codes"
  shows "alu code a src = None" "code \<notin> {0x00, 0x01, 0x20, 0x80, 0x81, 0x60, 0x61, 0x02, 0x03, 0x05, 0x06, 0x16}"
  using assms by (auto simp: jump_codes_def alu_def)

lemma exec1_jump:
  assumes "i_code i \<in> set jump_codes"
  shows "\<exists>hit. exec1 i data pc s = Some (Goto (pc + unat (if hit then i_jt i else i_jf i)) s)
    \<and> i_code i \<notin> {0x06, 0x16}"
  using jump_codes_plain [OF assms] assms unfolding exec1_def Let_def by simp metis

lemma exec1_ok:
  assumes "insn_ok n pc i" "length data = 64" "length (b_m s) = 16"
  shows "(\<exists>r. exec1 i data (pc + 1) s = Some (Return r) \<and> i_code i \<in> {0x06, 0x16})
    \<or> (\<exists>pc' s'. exec1 i data (pc + 1) s = Some (Goto pc' s') \<and> i_code i \<notin> {0x06, 0x16}
         \<and> (pc' < n \<or> pc' = pc + 1) \<and> length (b_m s') = 16)"
proof -
  consider "i_code i \<in> set plain_codes" | "i_code i = 0x20" "unat (i_k i) mod 4 = 0" "i_k i < DATA_LEN"
    | "i_code i \<in> {0x60, 0x61, 0x02, 0x03}" "i_k i < 16" | "i_code i \<in> {0x34, 0x94}"
    | "i_code i = 0x05" "pc + 1 + unat (i_k i) < n"
    | "i_code i \<in> set jump_codes" "pc + 1 + unat (i_jt i) < n" "pc + 1 + unat (i_jf i) < n"
    using assms(1) by (auto simp: insn_ok_def split: if_splits)
  then show ?thesis
  proof cases
    case 1
    from exec1_plain [OF this assms(3), of data "pc + 1"] show ?thesis by blast
  next
    case 2
    then show ?thesis using word_at_Some [OF assms(2) 2(2,3)] assms(3) by (auto simp: exec1_def)
  next
    case 3
    then show ?thesis using assms(3) slot_less [of "i_k i"] by (auto simp: exec1_def)
  next
    case 4
    then show ?thesis using assms(3) by (auto simp: exec1_def alu_def Let_def)
  next
    case 5
    then show ?thesis using assms(3) by (auto simp: exec1_def alu_def Let_def)
  next
    case 6
    from exec1_jump [OF 6(1), of data "pc + 1" s] obtain hit where
      "exec1 i data (pc + 1) s = Some (Goto (pc + 1 + unat (if hit then i_jt i else i_jf i)) s)"
      "i_code i \<notin> {0x06, 0x16}" by blast
    then show ?thesis using 6 assms(3) by (cases hit) auto
  qed
qed

lemma validated_run:
  assumes "validate prog" "length data = 64"
  shows "pc < length prog \<Longrightarrow> length (b_m s) = 16 \<Longrightarrow>
    \<exists>r. strict_from prog data pc s = Some r \<and> run_from prog data pc s = Some r"
proof (induction "length prog - pc" arbitrary: pc s rule: less_induct)
  case less
  from exec1_ok [OF validate_nth [OF assms(1) less.prems(1)] assms(2) less.prems(2)]
  consider (ret) r where "exec1 (prog ! pc) data (pc + 1) s = Some (Return r)"
    | (go) pc' s' where "exec1 (prog ! pc) data (pc + 1) s = Some (Goto pc' s')"
        "i_code (prog ! pc) \<notin> {0x06, 0x16}" "pc' < length prog \<or> pc' = pc + 1" "length (b_m s') = 16"
    by blast
  then show ?case
  proof cases
    case ret
    then show ?thesis
      using less.prems(1) by (simp add: run_from.simps [of prog] strict_from.simps [of prog])
  next
    case go
    have "pc \<noteq> length prog - 1" using go(2) assms(1) less.prems(1)
      by (auto simp: validate_def last_conv_nth)
    then have "pc' < length prog" using go(3) less.prems(1) by auto
    moreover have "pc < pc'" using exec1_forward [OF go(1)] by simp
    ultimately have "\<exists>r. strict_from prog data pc' s' = Some r \<and> run_from prog data pc' s' = Some r"
      using less.hyps [of pc' s'] less.prems(1) go(4) by simp
    then show ?thesis using go(1) less.prems(1)
      by (simp add: run_from.simps [of prog data pc] strict_from.simps [of prog data pc])
  qed
qed

subsection \<open>Verdicts\<close>

fun first_min :: "('a \<Rightarrow> int) \<Rightarrow> 'a list \<Rightarrow> 'a option" where
  "first_min rk [] = None"
| "first_min rk (x # xs) = Some (foldl (\<lambda>m y. if rk y < rk m then y else m) x xs)"

definition action_key :: "u32 \<Rightarrow> int" where
  "action_key r = sint (r AND RET_ACTION_FULL)"

definition audit_arch :: "arch \<Rightarrow> u32" where
  "audit_arch a = (case a of X86_64 \<Rightarrow> 0xc000003e | Aarch64 \<Rightarrow> 0xc00000b7)"

definition seccomp_data :: "arch \<Rightarrow> u64 \<Rightarrow> u64 list \<Rightarrow> u64 \<Rightarrow> bytes" where
  "seccomp_data a raw args pc =
     u32_to_le (ucast raw) @ u32_to_le (audit_arch a) @ u64_to_le pc @ concat (map u64_to_le args)"

text \<open>The verdicts of all filters, \<^const>\<open>None\<close> if one of them panics.\<close>

fun run_all :: "prog list \<Rightarrow> bytes \<Rightarrow> u32 list option" where
  "run_all [] data = Some []"
| "run_all (f # fs) data =
     (case run f data of None \<Rightarrow> None | Some r \<Rightarrow> map_option (\<lambda>rs. r # rs) (run_all fs data))"

definition combined :: "prog list \<Rightarrow> bytes \<Rightarrow> u32 option" where
  "combined filters data =
     map_option (\<lambda>rs. case first_min action_key rs of None \<Rightarrow> RET_ALLOW | Some r \<Rightarrow> r) (run_all (rev filters) data)"

text \<open>The parts of a task the filter looks at or changes.\<close>

record task =
  t_tgid :: int
  t_euid :: u32
  t_ns_caps :: bool
  t_no_new_privs :: bool
  t_seccomp :: seccomp_state
  t_pending :: u64
  t_sigs :: sig_queues

definition privileged :: "task \<Rightarrow> bool" where
  "privileged t \<longleftrightarrow> t_euid t = 0 \<or> t_ns_caps t"

definition STRICT_ALLOWED :: "sysno list" where
  "STRICT_ALLOWED = [Sysno ''Read'', Sysno ''Write'', Sysno ''Exit'', Sysno ''RtSigreturn'']"

definition seccomp_check :: "arch \<Rightarrow> sysno \<Rightarrow> u64 \<Rightarrow> u64 list \<Rightarrow> u64 \<Rightarrow> task \<Rightarrow> (gate_result option \<times> task) option" where
  "seccomp_check a sys raw args pc t =
     (if sc_mode (t_seccomp t) = 1
      then Some (if sys \<in> set STRICT_ALLOWED then None else Some (KillGroup 9), t)
      else case combined (sc_filters (t_seccomp t)) (seccomp_data a raw args pc) of
             None \<Rightarrow> None
           | Some v \<Rightarrow>
               let value = v AND RET_DATA; act = v AND RET_ACTION_FULL
               in if act = RET_ALLOW \<or> act = RET_LOG then Some (None, t)
                  else if act = RET_ERRNO then Some (Some (Returns (- uint (min value 4095))), t)
                  else if act = RET_TRAP then
                    let info = \<lparr>qs_code = 1, qs_pid = sint (ucast pc :: u32), qs_uid = ucast (drop_bit 32 pc),
                                qs_value = ucast (ucast raw :: u32) OR push_bit 32 (ucast (audit_arch a))\<rparr>
                    in Some (Some (Returns (err ENOSYS)),
                             t\<lparr>t_pending := t_pending t OR push_bit 30 1, t_sigs := post_siginfo 31 info (t_sigs t)\<rparr>)
                  else if act = RET_TRACE \<or> act = RET_USER_NOTIF then Some (Some (Returns (err ENOSYS)), t)
                  else Some (Some (KillGroup 31), t))"

lemma length_seccomp_data [simp]: "length args = 6 \<Longrightarrow> length (seccomp_data a raw args pc) = 64"
  by (simp add: seccomp_data_def length_concat comp_def sum_list_triv)

lemma run_all_validated:
  "\<forall>f\<in>set fs. validate f \<Longrightarrow> length data = 64 \<Longrightarrow> \<exists>rs. run_all fs data = Some rs \<and> length rs = length fs"
proof (induction fs)
  case (Cons f fs)
  then obtain rs where "run_all fs data = Some rs" "length rs = length fs" by auto
  moreover obtain r where "run f data = Some r"
    using validated_run [of f data 0 bpf_start] Cons.prems by (auto simp: run_def bpf_start_def validate_def)
  ultimately show ?case by simp
qed simp

lemma foldl_first_min:
  fixes rk :: "'a \<Rightarrow> int"
  shows "foldl (\<lambda>m y. if rk y < rk m then y else m) x xs \<in> insert x (set xs)
   \<and> (\<forall>y\<in>insert x (set xs). rk (foldl (\<lambda>m y. if rk y < rk m then y else m) x xs) \<le> rk y)"
proof (induction xs arbitrary: x)
  case (Cons z xs)
  from Cons [of z] Cons [of x] show ?case by (cases "rk z < rk x") auto
qed simp

lemma first_min_Some: "first_min rk xs = Some m \<Longrightarrow> m \<in> set xs \<and> (\<forall>y\<in>set xs. rk m \<le> rk y)"
  using foldl_first_min [of rk] by (cases xs) auto

lemma first_min_None [simp]: "first_min rk xs = None \<longleftrightarrow> xs = []"
  by (cases xs) auto

subsection \<open>Installing filters\<close>

definition insn_of :: "bytes \<Rightarrow> insn" where
  "insn_of c = \<lparr>i_code = u16_from_le (take 2 c), i_jt = c ! 2, i_jf = c ! 3, i_k = u32_from_le (take 4 (drop 4 c))\<rparr>"

definition chunks8 :: "bytes \<Rightarrow> bytes list" where
  "chunks8 raw = map (\<lambda>i. take 8 (drop (8 * i) raw)) [0..<length raw div 8]"

definition read_fprog :: "('m \<Rightarrow> u64 \<Rightarrow> nat \<Rightarrow> bytes option) \<Rightarrow> 'm \<Rightarrow> u64 \<Rightarrow> int + prog" where
  "read_fprog rd mem ptr =
     (case (rd mem ptr 2, rd mem (ptr + 8) 8) of
        (Some lb, Some fb) \<Rightarrow>
          let len = unat (u16_from_le lb); filter = u64_from_le fb
          in if len = 0 \<or> len > BPF_MAXINSNS then Inl (err EINVAL)
             else (case rd mem filter (len * 8) of
                     None \<Rightarrow> Inl (err EFAULT)
                   | Some raw \<Rightarrow> let prog = map insn_of (chunks8 raw)
                                 in if validate prog then Inr prog else Inl (err EINVAL))
      | _ \<Rightarrow> Inl (err EFAULT))"

definition seccomp_set_mode ::
    "('m \<Rightarrow> u64 \<Rightarrow> nat \<Rightarrow> bytes option) \<Rightarrow> 'm \<Rightarrow> u64 \<Rightarrow> u64 \<Rightarrow> u64 \<Rightarrow> task \<Rightarrow> int \<times> task" where
  "seccomp_set_mode rd mem mode args flags t =
     (let st = t_seccomp t
      in if mode = 1
         then if flags \<noteq> 0 \<or> args \<noteq> 0 then (err EINVAL, t)
              else if sc_mode st = 2 then (err EINVAL, t)
              else (0, t\<lparr>t_seccomp := st\<lparr>sc_mode := 1\<rparr>\<rparr>)
         else if mode = 2
         then if sc_mode st = 1 then (err EINVAL, t)
              else if \<not> t_no_new_privs t \<and> \<not> privileged t then (err EACCES, t)
              else (case read_fprog rd mem args of
                      Inl e \<Rightarrow> (e, t)
                    | Inr prog \<Rightarrow> (0, t\<lparr>t_seccomp := \<lparr>sc_mode = 2, sc_filters = sc_filters st @ [prog]\<rparr>\<rparr>))
         else (err EINVAL, t))"

text \<open>The other tasks are \<^verbatim>\<open>sh.procs\<close>, whose slots may be empty.\<close>

definition tsync :: "task \<Rightarrow> task option list \<Rightarrow> task option list" where
  "tsync t = map (map_option (\<lambda>p. if t_tgid p = t_tgid t then p\<lparr>t_seccomp := t_seccomp t\<rparr> else p))"

definition sys_seccomp ::
    "('m \<Rightarrow> u64 \<Rightarrow> nat \<Rightarrow> bytes option) \<Rightarrow> ('m \<Rightarrow> u64 \<Rightarrow> bytes \<Rightarrow> 'm option) \<Rightarrow> u64 \<Rightarrow> u64 \<Rightarrow> u64 \<Rightarrow>
     task \<times> task option list \<times> 'm \<Rightarrow> int \<times> task \<times> task option list \<times> 'm" where
  "sys_seccomp rd wr op flags args = (\<lambda>(t, procs, mem).
     if op = 0 then let (r, t') = seccomp_set_mode rd mem 1 args flags t in (r, t', procs, mem)
     else if op = 1 then
       let known = 1 OR 2 OR 4 OR 8 OR 16 OR 32
       in if flags AND NOT known \<noteq> 0 \<or> flags AND 8 \<noteq> 0 then (err EINVAL, t, procs, mem)
          else let (r, t') = seccomp_set_mode rd mem 2 args 0 t
               in (r, t', if r = 0 \<and> flags AND 1 \<noteq> 0 then tsync t' procs else procs, mem)
     else if op = 2 then
       (if flags \<noteq> 0 then (err EINVAL, t, procs, mem)
        else case rd mem args 4 of
               None \<Rightarrow> (err EFAULT, t, procs, mem)
             | Some b \<Rightarrow>
                 (if u32_from_le b \<in> {RET_KILL_PROCESS, RET_KILL_THREAD, RET_TRAP, RET_ERRNO, RET_TRACE, RET_LOG, RET_ALLOW}
                  then 0 else err EOPNOTSUPP, t, procs, mem))
     else if op = 3 then
       (if flags \<noteq> 0 then (err EINVAL, t, procs, mem)
        else case wr mem args [80, 0, 24, 0, 64, 0] of
               None \<Rightarrow> (err EFAULT, t, procs, mem)
             | Some mem' \<Rightarrow> (0, t, procs, mem'))
     else (err EINVAL, t, procs, mem))"

subsection \<open>The gate in front of the handlers\<close>

text \<open>
  What \<^verbatim>\<open>service\<close> decides about a system call before dispatching it: \<^const>\<open>None\<close> as the verdict means the
  handler runs.
\<close>

definition gate :: "compiled_policy \<Rightarrow> arch \<Rightarrow> u64 \<Rightarrow> u64 list \<Rightarrow> u64 \<Rightarrow> task \<times> denials \<Rightarrow>
    (gate_result option \<times> task \<times> denials) option" where
  "gate cp a raw args pc = (\<lambda>(t, d).
     let sys = decode a raw;
         (pv, d') = (if cp_active cp then policy_check cp (t_tgid t) raw d else (None, d))
     in case pv of
          Some r \<Rightarrow> Some (Some r, t, d')
        | None \<Rightarrow> if sc_active (t_seccomp t)
                  then map_option (\<lambda>(v, t'). (v, t', d')) (seccomp_check a sys raw args pc t)
                  else Some (None, t, d'))"

subsection \<open>The invariant of a task's filters\<close>

definition sec_ok :: "seccomp_state \<Rightarrow> bool" where
  "sec_ok st \<longleftrightarrow> sc_mode st \<in> {0, 1, 2} \<and> (\<forall>f\<in>set (sc_filters st). validate f)
     \<and> (sc_mode st = 2 \<longleftrightarrow> sc_filters st \<noteq> [])"

lemma sec_ok_default [simp]: "sec_ok seccomp_default"
  by (simp add: sec_ok_def seccomp_default_def)

lemma read_fprog_valid: "read_fprog rd mem ptr = Inr prog \<Longrightarrow> validate prog"
  by (auto simp: read_fprog_def Let_def split: option.splits if_splits)

lemma read_fprog_error: "read_fprog rd mem ptr = Inl e \<Longrightarrow> e < 0"
  by (auto simp: read_fprog_def Let_def split: option.splits if_splits)

lemma set_mode_cases:
  obtains (fail) "fst (seccomp_set_mode rd mem mode args flags t) < 0" "snd (seccomp_set_mode rd mem mode args flags t) = t"
  | (strict) "sc_mode (t_seccomp t) \<noteq> 2" "seccomp_set_mode rd mem mode args flags t
        = (0, t\<lparr>t_seccomp := (t_seccomp t)\<lparr>sc_mode := 1\<rparr>\<rparr>)" "mode = 1"
  | (filter) prog where "sc_mode (t_seccomp t) \<noteq> 1" "validate prog" "t_no_new_privs t \<or> privileged t"
      "seccomp_set_mode rd mem mode args flags t
        = (0, t\<lparr>t_seccomp := \<lparr>sc_mode = 2, sc_filters = sc_filters (t_seccomp t) @ [prog]\<rparr>\<rparr>)" "mode = 2"
proof -
  have "fst (seccomp_set_mode rd mem mode args flags t) < 0 \<and> snd (seccomp_set_mode rd mem mode args flags t) = t"
    if "\<not> (mode = 1 \<and> flags = 0 \<and> args = 0 \<and> sc_mode (t_seccomp t) \<noteq> 2)"
      "\<not> (mode = 2 \<and> sc_mode (t_seccomp t) \<noteq> 1 \<and> (t_no_new_privs t \<or> privileged t) \<and> (\<not> isl (read_fprog rd mem args)))"
    using that by (cases "read_fprog rd mem args") (auto simp: seccomp_set_mode_def Let_def dest: read_fprog_error)
  then consider "mode = 1 \<and> flags = 0 \<and> args = 0 \<and> sc_mode (t_seccomp t) \<noteq> 2"
    | prog where "mode = 2 \<and> sc_mode (t_seccomp t) \<noteq> 1 \<and> (t_no_new_privs t \<or> privileged t)"
        "read_fprog rd mem args = Inr prog"
    | "fst (seccomp_set_mode rd mem mode args flags t) < 0" "snd (seccomp_set_mode rd mem mode args flags t) = t"
    by (cases "read_fprog rd mem args") auto
  then show thesis
  proof cases
    case 1
    then show thesis by (intro strict) (simp_all add: seccomp_set_mode_def Let_def)
  next
    case (2 prog)
    then show thesis
      by (intro filter [of prog]) (auto simp: seccomp_set_mode_def Let_def dest: read_fprog_valid)
  next
    case 3
    then show thesis by (rule fail)
  qed
qed

text \<open>
  What happens to one task: it sets a mode, a call of it is checked, and its privileges change in ways
  the filter does not control.
\<close>

datatype 'm sec_op =
    SetMode 'm u64 u64 u64
  | Check arch sysno u64 "u64 list" u64
  | SetPrivs u32 bool bool

fun sec_step :: "('m \<Rightarrow> u64 \<Rightarrow> nat \<Rightarrow> bytes option) \<Rightarrow> task \<Rightarrow> 'm sec_op \<Rightarrow> task" where
  "sec_step rd t (SetMode mem mode args flags) = snd (seccomp_set_mode rd mem mode args flags t)"
| "sec_step rd t (Check a sys raw args pc) =
     (case seccomp_check a sys raw args pc t of None \<Rightarrow> t | Some (_, t') \<Rightarrow> t')"
| "sec_step rd t (SetPrivs euid caps nnp) = t\<lparr>t_euid := euid, t_ns_caps := caps, t_no_new_privs := nnp\<rparr>"

lemma check_keeps_filters: "seccomp_check a sys raw args pc t = Some (v, t') \<Longrightarrow> t_seccomp t' = t_seccomp t"
  by (auto simp: seccomp_check_def Let_def split: if_splits option.splits)

lemma set_mode_ok:
  assumes "sec_ok (t_seccomp t)"
  shows "sec_ok (t_seccomp (snd (seccomp_set_mode rd mem mode args flags t)))"
  by (rule set_mode_cases [of rd mem mode args flags t]) (use assms in \<open>auto simp: sec_ok_def\<close>)

text \<open>A state is at least as confined as another: a strict one stays so, filters are only added.\<close>

definition confines :: "seccomp_state \<Rightarrow> seccomp_state \<Rightarrow> bool" where
  "confines st st' \<longleftrightarrow> (sc_mode st = 1 \<longrightarrow> st' = st) \<and> (sc_mode st = 2 \<longrightarrow> sc_mode st' = 2)
     \<and> prefix (sc_filters st) (sc_filters st')"

lemma confines_refl [simp]: "confines st st"
  by (simp add: confines_def)

lemma set_mode_confines: "confines (t_seccomp t) (t_seccomp (snd (seccomp_set_mode rd mem mode args flags t)))"
  by (rule set_mode_cases [of rd mem mode args flags t]) (auto simp: confines_def)

lemma confines_trans: "confines a b \<Longrightarrow> confines b c \<Longrightarrow> confines a c"
  by (auto simp: confines_def)

lemma sec_step_ok:
  "sec_ok (t_seccomp t) \<Longrightarrow> sec_ok (t_seccomp (sec_step rd t x)) \<and> confines (t_seccomp t) (t_seccomp (sec_step rd t x))"
  by (cases x) (auto simp: set_mode_ok set_mode_confines split: option.splits dest: check_keeps_filters)

interpretation sec: machine "sec_step rd" "\<lambda>t. sec_ok (t_seccomp t) \<and> confines st (t_seccomp t)"
  by unfold_locales (use sec_step_ok confines_trans in blast)

lemma check_total:
  assumes "sec_ok (t_seccomp t)" "length args = 6"
  shows "\<exists>v t'. seccomp_check a sys raw args pc t = Some (v, t')"
proof -
  have "\<forall>f\<in>set (rev (sc_filters (t_seccomp t))). validate f" using assms(1) by (simp add: sec_ok_def)
  then obtain rs where "run_all (rev (sc_filters (t_seccomp t))) (seccomp_data a raw args pc) = Some rs"
    using run_all_validated assms(2) by (metis length_seccomp_data)
  then show ?thesis by (simp add: seccomp_check_def combined_def Let_def)
qed

subsection \<open>Adding a filter\<close>

definition KNOWN_ACTIONS :: "u32 list" where
  "KNOWN_ACTIONS = [RET_KILL_PROCESS, RET_KILL_THREAD, RET_TRAP, RET_ERRNO, RET_USER_NOTIF, RET_TRACE, RET_LOG, RET_ALLOW]"

definition lets_run :: "u32 \<Rightarrow> bool" where
  "lets_run v \<longleftrightarrow> v AND RET_ACTION_FULL \<in> {RET_ALLOW, RET_LOG}"

lemma check_filters:
  "sc_mode (t_seccomp t) \<noteq> 1 \<Longrightarrow>
   seccomp_check a sys raw args pc t = Some (g, t') \<Longrightarrow>
   \<exists>v. combined (sc_filters (t_seccomp t)) (seccomp_data a raw args pc) = Some v \<and> (g = None \<longleftrightarrow> lets_run v)"
  by (auto simp: seccomp_check_def lets_run_def Let_def RET_defs split: if_splits option.splits)

lemma lets_run_key: "lets_run v \<Longrightarrow> action_key RET_LOG \<le> action_key v"
  by (auto simp: lets_run_def action_key_def RET_defs)

lemma refusing_key:
  "v AND RET_ACTION_FULL \<in> set KNOWN_ACTIONS \<Longrightarrow> \<not> lets_run v \<Longrightarrow> action_key v < action_key RET_LOG"
  by (auto simp: lets_run_def action_key_def KNOWN_ACTIONS_def RET_defs)

lemma combined_snoc:
  assumes "combined fs data = Some v" "fs \<noteq> []" "combined (fs @ [f]) data = Some w"
  shows "action_key w \<le> action_key v"
proof -
  from assms(1) obtain rs where rs: "run_all (rev fs) data = Some rs" by (auto simp: combined_def)
  have "length xs = length ys" if "run_all xs data = Some ys" for xs ys
    using that by (induction xs arbitrary: ys) (auto split: option.splits)
  from this [OF rs] assms(2) have ne: "rs \<noteq> []" by auto
  from assms(3) rs obtain r where r: "run f data = Some r" by (auto simp: combined_def split: option.splits)
  from assms(1) rs ne have "v \<in> set rs" using first_min_Some [of action_key rs]
    by (auto simp: combined_def split: option.splits)
  moreover from assms(3) rs r have "\<forall>y\<in>set (r # rs). action_key w \<le> action_key y"
    using first_min_Some [of action_key "r # rs" w] by (simp add: combined_def)
  ultimately show ?thesis by simp
qed

subsection \<open>What the filter sees\<close>

lemma take_drop_mid: "length xs = n \<Longrightarrow> length ys = m \<Longrightarrow> take m (drop n (xs @ ys @ zs)) = ys"
  by simp

lemma concat_eight: "i < length args \<Longrightarrow> take 8 (drop (8 * i) (concat (map u64_to_le args))) = u64_to_le (args ! i)"
proof (induction args arbitrary: i)
  case (Cons a args)
  then show ?case by (cases i) simp_all
qed simp

lemma to_le_add: "to_le (m + n) v = to_le m v @ to_le n (v div 256 ^ m)"
  by (induction m arbitrary: v) (simp_all add: div_mult2_eq)

lemma to_le_mod: "to_le n (v mod 256 ^ n) = to_le n v"
  using to_le_from_le [of "to_le n v"] by (simp add: from_le_to_le)

lemma u64_to_le_halves: "u64_to_le w = u32_to_le (ucast w) @ u32_to_le (ucast (drop_bit 32 w))"
proof -
  have lo: "unat (ucast w :: u32) = unat w mod 256 ^ 4"
    by (simp add: unsigned_ucast_eq take_bit_eq_mod)
  have "unat w div 256 ^ 4 < 2 ^ 32" using unat_u64_less [of w] by (simp add: less_mult_imp_div_less)
  moreover have "unat (drop_bit 32 w) = unat w div 256 ^ 4"
    by (simp only: unat_drop_bit_eq) (simp add: drop_bit_eq_div)
  ultimately have hi: "unat (ucast (drop_bit 32 w) :: u32) = unat w div 256 ^ 4"
    by (simp only: unsigned_ucast_eq) (simp add: take_bit_nat_eq_self)
  show ?thesis using to_le_add [of 4 4 "unat w"]
    by (simp add: u64_to_le_def u32_to_le_def lo hi to_le_mod [of 4, simplified])
qed

lemma word_at_seccomp_data:
  assumes "length args = 6"
  shows "word_at (seccomp_data a raw args pc) 0 = Some (ucast raw)"
    and "word_at (seccomp_data a raw args pc) 4 = Some (audit_arch a)"
    and "word_at (seccomp_data a raw args pc) 8 = Some (ucast pc)"
    and "word_at (seccomp_data a raw args pc) 12 = Some (ucast (drop_bit 32 pc))"
  using assms by (simp_all add: word_at_def seccomp_data_def u64_to_le_halves length_concat comp_def sum_list_triv)

lemma take_eight_words:
  assumes "take 8 (drop n data) = u64_to_le w" "n + 8 \<le> length data" "n < 64"
  shows "word_at data (word_of_nat n) = Some (ucast w)" "word_at data (word_of_nat (n + 4)) = Some (ucast (drop_bit 32 w))"
proof -
  have n: "unat (word_of_nat n :: u32) = n" "unat (word_of_nat (n + 4) :: u32) = n + 4"
    using assms(3) by (intro unat_word_of_nat_eq; simp)+
  have h: "take 8 (drop n data) = u32_to_le (ucast w) @ u32_to_le (ucast (drop_bit 32 w))"
    using assms(1) by (simp add: u64_to_le_halves)
  have "take 4 (take 8 (drop n data)) = take 4 (drop n data)" by (simp add: min_def)
  with h have lo: "take 4 (drop n data) = u32_to_le (ucast w)" by simp
  have "drop 4 (take 8 (drop n data)) = take 4 (drop (n + 4) data)"
    by (simp add: drop_take add.commute)
  with h have hi: "take 4 (drop (n + 4) data) = u32_to_le (ucast (drop_bit 32 w))" by simp
  show "word_at data (word_of_nat n) = Some (ucast w)"
    unfolding word_at_def n lo using assms(2) by simp
  show "word_at data (word_of_nat (n + 4)) = Some (ucast (drop_bit 32 w))"
    unfolding word_at_def n hi using assms(2) by simp
qed

lemma arg_words:
  assumes "length args = 6" "i < 6"
  shows "word_at (seccomp_data a raw args pc) (word_of_nat (16 + 8 * i)) = Some (ucast (args ! i))"
    and "word_at (seccomp_data a raw args pc) (word_of_nat (16 + 8 * i + 4)) = Some (ucast (drop_bit 32 (args ! i)))"
proof -
  have "take 8 (drop (16 + 8 * i) (seccomp_data a raw args pc)) = u64_to_le (args ! i)"
    using concat_eight [of i args] assms by (simp add: seccomp_data_def)
  from take_eight_words [OF this] assms
  show "word_at (seccomp_data a raw args pc) (word_of_nat (16 + 8 * i)) = Some (ucast (args ! i))"
    and "word_at (seccomp_data a raw args pc) (word_of_nat (16 + 8 * i + 4)) = Some (ucast (drop_bit 32 (args ! i)))"
    by simp_all
qed

subsection \<open>A filter to run\<close>

text \<open>Fail \<^verbatim>\<open>getpid\<close> (39 on x86-64) with \<^verbatim>\<open>EPERM\<close>, let the rest run; and its bytes in a flat memory.\<close>

definition no_getpid :: prog where
  "no_getpid =
     [\<lparr>i_code = 0x20, i_jt = 0, i_jf = 0, i_k = 0\<rparr>, \<lparr>i_code = 0x15, i_jt = 0, i_jf = 1, i_k = 39\<rparr>,
      \<lparr>i_code = 0x06, i_jt = 0, i_jf = 0, i_k = 0x50001\<rparr>, \<lparr>i_code = 0x06, i_jt = 0, i_jf = 0, i_k = 0x7fff0000\<rparr>]"

definition flat_rd :: "bytes \<Rightarrow> u64 \<Rightarrow> nat \<Rightarrow> bytes option" where
  "flat_rd mem a n = (if unat a + n \<le> length mem then Some (take n (drop (unat a) mem)) else None)"

definition allow_all_bytes :: bytes where
  "allow_all_bytes = [1, 0, 0, 0, 0, 0, 0, 0, 16, 0, 0, 0, 0, 0, 0, 0, 6, 0, 0, 0, 0, 0, 0xff, 0x7f]"

definition no_getpid_bytes :: bytes where
  "no_getpid_bytes = [4, 0, 0, 0, 0, 0, 0, 0, 16, 0, 0, 0, 0, 0, 0, 0, 0x20, 0, 0, 0, 0, 0, 0, 0,
     0x15, 0, 0, 1, 39, 0, 0, 0, 6, 0, 0, 0, 1, 0, 5, 0, 6, 0, 0, 0, 0, 0, 0xff, 0x7f]"

definition example_task :: "seccomp_state \<Rightarrow> task" where
  "example_task st = \<lparr>t_tgid = 7, t_euid = 1000, t_ns_caps = False, t_no_new_privs = True, t_seccomp = st,
     t_pending = 0, t_sigs = sig_queues_new\<rparr>"

lemma no_getpid_valid [simp]: "validate no_getpid"
  by (simp add: validate_def no_getpid_def insn_ok_def plain_codes_def jump_codes_def BPF_MAXINSNS_def DATA_LEN_def)

lemma run_no_getpid:
  assumes "length args = 6"
  shows "run no_getpid (seccomp_data a 39 args pc) = Some 0x50001"
proof -
  have 0: "word_at (seccomp_data a 39 args pc) 0 = Some 39" using word_at_seccomp_data(1) [OF assms, of a 39] by simp
  have "length no_getpid = 4" "no_getpid ! 0 = \<lparr>i_code = 0x20, i_jt = 0, i_jf = 0, i_k = 0\<rparr>"
    "no_getpid ! Suc 0 = \<lparr>i_code = 0x15, i_jt = 0, i_jf = 1, i_k = 39\<rparr>"
    "no_getpid ! Suc (Suc 0) = \<lparr>i_code = 0x06, i_jt = 0, i_jf = 0, i_k = 0x50001\<rparr>" by (simp_all add: no_getpid_def)
  then show ?thesis
    unfolding run_def
    by (simp add: run_from.simps [of no_getpid] exec1_def alu_def jump_codes_def jump_hit_def 0 Let_def)
qed

lemma read_allow_all:
  "read_fprog flat_rd allow_all_bytes 0 = Inr [\<lparr>i_code = 0x06, i_jt = 0, i_jf = 0, i_k = 0x7fff0000\<rparr>]"
  by (simp add: read_fprog_def flat_rd_def allow_all_bytes_def u16_from_le_def u64_from_le_def u32_from_le_def Let_def
      BPF_MAXINSNS_def chunks8_def insn_of_def validate_def insn_ok_def plain_codes_def)

lemma read_no_getpid: "read_fprog flat_rd no_getpid_bytes 0 = Inr no_getpid"
proof -
  have "[0..<4] = [0, 1, 2, 3 :: nat]" by (simp add: upt_rec)
  then have "map insn_of (chunks8 (drop 16 no_getpid_bytes)) = no_getpid"
    by (simp add: no_getpid_bytes_def no_getpid_def chunks8_def insn_of_def u16_from_le_def u32_from_le_def)
  then show ?thesis
    by (simp add: read_fprog_def flat_rd_def u16_from_le_def u64_from_le_def Let_def BPF_MAXINSNS_def no_getpid_bytes_def)
qed

subsection \<open>Properties\<close>

text \<open>
  C21. A filter that \<^verbatim>\<open>validate\<close> accepts is safe to run: on every 64-byte \<^verbatim>\<open>seccomp_data\<close> the interpreter ends
  with a verdict that a \<^verbatim>\<open>ret\<close> instruction of the program gave. It does not panic on a load or a scratch
  slot, does not leave the program and meets no unknown instruction, so its fall-back verdicts are never used.
\<close>

theorem validated_filter_safe:
  assumes "validate prog" "length data = 64"
  shows "\<exists>r. strict_from prog data 0 bpf_start = Some r \<and> run prog data = Some r"
  using validated_run [OF assms, of 0 bpf_start] assms(1) by (simp add: run_def bpf_start_def validate_def)

theorem validated_filter_safe_witness:
  "\<exists>r. strict_from no_getpid (replicate 64 0) 0 bpf_start = Some r \<and> run no_getpid (replicate 64 0) = Some r"
  by (rule validated_filter_safe) simp_all

text \<open>
  C22. The data a filter inspects is the call that was made: the word at offset 0 is the number, at 4 the
  architecture, at 8 and 12 the program counter, and the two words at \<open>16 + 8 * i\<close> the halves of argument \<open>i\<close>.
\<close>

theorem filter_sees_call:
  assumes "length args = 6" "i < 6"
  shows "map (word_at (seccomp_data a raw args pc)) [0, 4, 8, 12, word_of_nat (16 + 8 * i), word_of_nat (16 + 8 * i + 4)]
    = map Some [ucast raw, audit_arch a, ucast pc, ucast (drop_bit 32 pc), ucast (args ! i), ucast (drop_bit 32 (args ! i))]"
  using word_at_seccomp_data [OF assms(1)] arg_words [OF assms] by simp

theorem filter_sees_call_witness:
  "map (word_at (seccomp_data X86_64 257 [1, 2, 3, 4, 5, 0x600000007] 0x401000)) [0, 4, 8, 12, 56, 60]
    = map Some [257, 0xc000003e, 0x401000, 0, 7, 6]"
  using filter_sees_call [of "[1, 2, 3, 4, 5, 0x600000007]" 5 X86_64 257 "0x401000"] by (simp add: audit_arch_def)

text \<open>
  C23. Installing a filter never loosens the sandbox: in every state a task can reach, if its filters refuse
  a call with one of the actions Linux defines and the task then succeeds in installing any further filter, the
  same call is still refused.
\<close>

theorem added_filter_never_loosens:
  assumes "t_seccomp t0 = seccomp_default" "t = run_ops (sec_step rd) t0 ops"
    and "length args = 6" "sc_mode (t_seccomp t) = 2"
    and "combined (sc_filters (t_seccomp t)) (seccomp_data a raw args pc) = Some v"
    and "v AND RET_ACTION_FULL \<in> set KNOWN_ACTIONS" "\<not> lets_run v"
    and "seccomp_set_mode rd mem 2 addr 0 t = (0, t')"
  shows "\<exists>g t2. seccomp_check a sys raw args pc t' = Some (Some g, t2)"
proof -
  have ok: "sec_ok (t_seccomp t)"
    unfolding assms(2) by (rule sec.run_inv [THEN conjunct1, of _ seccomp_default]) (simp add: assms(1))
  obtain prog where p: "t_seccomp t' = \<lparr>sc_mode = 2, sc_filters = sc_filters (t_seccomp t) @ [prog]\<rparr>"
    by (rule set_mode_cases [of rd mem 2 addr 0 t]) (use assms(8) in auto)
  have ok': "sec_ok (t_seccomp t')" using set_mode_ok [OF ok, of rd mem 2 addr 0] assms(8) by simp
  obtain g t2 where g: "seccomp_check a sys raw args pc t' = Some (g, t2)" using check_total [OF ok' assms(3)] by blast
  from check_filters [OF _ g] p obtain w where w: "combined (sc_filters (t_seccomp t) @ [prog]) (seccomp_data a raw args pc) = Some w"
    and gw: "g = None \<longleftrightarrow> lets_run w" by auto
  have "sc_filters (t_seccomp t) \<noteq> []" using ok assms(4) by (simp add: sec_ok_def)
  from combined_snoc [OF assms(5) this w] refusing_key [OF assms(6,7)] have "\<not> lets_run w"
    using lets_run_key [of w] by auto
  with gw g show ?thesis by (cases g) auto
qed

theorem added_filter_never_loosens_witness:
  "\<exists>g t2. seccomp_check X86_64 (Sysno ''Getpid'') 39 [0, 0, 0, 0, 0, 0] 0
     (snd (seccomp_set_mode flat_rd allow_all_bytes 2 0 0
       (run_ops (sec_step flat_rd) (example_task seccomp_default) [SetMode no_getpid_bytes 2 0 0])))
     = Some (Some g, t2)"
proof (rule added_filter_never_loosens [OF _ refl])
  let ?t = "run_ops (sec_step flat_rd) (example_task seccomp_default) [SetMode no_getpid_bytes 2 0 0]"
  have st: "t_seccomp ?t = \<lparr>sc_mode = 2, sc_filters = [no_getpid]\<rparr>" "t_no_new_privs ?t"
    by (simp_all add: seccomp_set_mode_def read_no_getpid example_task_def seccomp_default_def Let_def)
  show "t_seccomp (example_task seccomp_default) = seccomp_default" by (simp add: example_task_def)
  show "length [0, 0, 0, 0, 0, 0 :: u64] = 6" by simp
  show "sc_mode (t_seccomp ?t) = 2" unfolding st by simp
  show "combined (sc_filters (t_seccomp ?t)) (seccomp_data X86_64 39 [0, 0, 0, 0, 0, 0] 0) = Some 0x50001"
    unfolding st by (simp add: combined_def run_no_getpid)
  show "0x50001 AND RET_ACTION_FULL \<in> set KNOWN_ACTIONS" "\<not> lets_run 0x50001"
    by (simp_all add: KNOWN_ACTIONS_def lets_run_def RET_defs)
  show "seccomp_set_mode flat_rd allow_all_bytes 2 0 0 ?t = (0, snd (seccomp_set_mode flat_rd allow_all_bytes 2 0 0 ?t))"
    unfolding seccomp_set_mode_def using st by (simp add: read_allow_all Let_def)
qed



text \<open>
  C25. The embedder's policy comes first: a call the policy refuses gets exactly the policy's answer and is recorded,
  whatever filters the guest has installed, and these are not run; a handler runs only when neither refuses.
\<close>

theorem gate_policy_first:
  assumes "t_seccomp t0 = seccomp_default" "t = run_ops (sec_step rd) t0 ops" "length args = 6"
  shows "(case verdict (compile p a) raw of
      Some (act, name) \<Rightarrow>
        gate (compile p a) a raw args pc (t, d)
          = Some (Some (case act of Fail e \<Rightarrow> Returns (err e) | Kill \<Rightarrow> KillGroup 9), t, record_denial (t_tgid t) act name d)
    | None \<Rightarrow>
        gate (compile p a) a raw args pc (t, d)
          = (if sc_active (t_seccomp t)
             then map_option (\<lambda>(v, t'). (v, t', d)) (seccomp_check a (decode a raw) raw args pc t)
             else Some (None, t, d)))
    \<and> gate (compile p a) a raw args pc (t, d) \<noteq> None"
proof -
  have ok: "sec_ok (t_seccomp t)"
    unfolding assms(2) by (rule sec.run_inv [THEN conjunct1, of _ seccomp_default]) (simp add: assms(1))
  have "verdict (compile p a) raw = None" if "\<not> cp_active (compile p a)"
    using that active_iff [of p a] by metis
  then show ?thesis using check_total [OF ok assms(3), of a "decode a raw" raw pc]
    by (auto simp: gate_def policy_check_def Let_def split: option.splits)
qed

theorem gate_policy_first_witness:
  "(case verdict (compile policy_new X86_64) 39 of
      Some (act, name) \<Rightarrow>
        gate (compile policy_new X86_64) X86_64 39 [0, 0, 0, 0, 0, 0] 0 (example_task seccomp_default, \<lparr>dn_count = 0, dn_log = []\<rparr>)
          = Some (Some (case act of Fail e \<Rightarrow> Returns (err e) | Kill \<Rightarrow> KillGroup 9), example_task seccomp_default,
              record_denial (t_tgid (example_task seccomp_default)) act name \<lparr>dn_count = 0, dn_log = []\<rparr>)
    | None \<Rightarrow>
        gate (compile policy_new X86_64) X86_64 39 [0, 0, 0, 0, 0, 0] 0 (example_task seccomp_default, \<lparr>dn_count = 0, dn_log = []\<rparr>)
          = (if sc_active (t_seccomp (example_task seccomp_default))
             then map_option (\<lambda>(v, t'). (v, t', \<lparr>dn_count = 0, dn_log = []\<rparr>))
               (seccomp_check X86_64 (decode X86_64 39) 39 [0, 0, 0, 0, 0, 0] 0 (example_task seccomp_default))
             else Some (None, example_task seccomp_default, \<lparr>dn_count = 0, dn_log = []\<rparr>)))
    \<and> gate (compile policy_new X86_64) X86_64 39 [0, 0, 0, 0, 0, 0] 0 (example_task seccomp_default, \<lparr>dn_count = 0, dn_log = []\<rparr>) \<noteq> None"
  by (rule gate_policy_first [where ops = "[]" and t0 = "example_task seccomp_default" and rd = flat_rd])
    (simp_all add: example_task_def)


end
