(* ===== verification/Page_Vec.thy ===== *)
theory Page_Vec
  imports Nixvm_Base
begin

text \<open>
  The sparse per-page table of \<^verbatim>\<open>src/vcpu/pagevec.rs\<close>: chunks of 4096 entries that exist only once one of them
  has been written. A clone shares chunks until \<^verbatim>\<open>Arc::make_mut\<close> splits them, so a table is a value. The table is
  shown to be an array with a default.
\<close>

definition CHUNK :: nat where "CHUNK = 4096"

record 'a page_vec =
  pv_chunks :: "'a list option list"
  pv_len :: nat
  pv_default :: 'a

definition pv_new :: "nat \<Rightarrow> 'a \<Rightarrow> 'a page_vec" where
  "pv_new len d = \<lparr>pv_chunks = replicate ((len + CHUNK - 1) div CHUNK) None, pv_len = len, pv_default = d\<rparr>"

text \<open>\<^verbatim>\<open>Index\<close>: \<^const>\<open>None\<close> is the assertion failing.\<close>

definition pv_index :: "'a page_vec \<Rightarrow> nat \<Rightarrow> 'a option" where
  "pv_index v p =
     (if p < pv_len v
      then Some (if p div CHUNK < length (pv_chunks v)
                 then (case pv_chunks v ! (p div CHUNK) of Some chunk \<Rightarrow> chunk ! (p mod CHUNK) | None \<Rightarrow> pv_default v)
                 else pv_default v)
      else None)"

definition pv_get :: "'a page_vec \<Rightarrow> nat \<Rightarrow> 'a option" where
  "pv_get v p = (if p < pv_len v then pv_index v p else None)"

text \<open>\<^verbatim>\<open>IndexMut\<close> followed by the store through the reference.\<close>

definition pv_set :: "nat \<Rightarrow> 'a \<Rightarrow> 'a page_vec \<Rightarrow> 'a page_vec option" where
  "pv_set p x v =
     (if p < pv_len v
      then let chunks = (if pv_chunks v = [] then replicate ((pv_len v + CHUNK - 1) div CHUNK) None else pv_chunks v)
           in if p div CHUNK < length chunks
              then let chunk = (case chunks ! (p div CHUNK) of Some c \<Rightarrow> c | None \<Rightarrow> replicate CHUNK (pv_default v))
                   in Some (v\<lparr>pv_chunks := chunks[p div CHUNK := Some (chunk[p mod CHUNK := x])]\<rparr>)
              else None
      else None)"

definition pv_clear :: "'a page_vec \<Rightarrow> 'a page_vec" where
  "pv_clear v = v\<lparr>pv_chunks := []\<rparr>"

definition non_default :: "'a page_vec \<Rightarrow> (nat \<times> 'a) list" where
  "non_default v =
     concat (map (\<lambda>(c, chunk). case chunk of
         None \<Rightarrow> []
       | Some ch \<Rightarrow> map (\<lambda>(i, x). (c * CHUNK + i, x)) (filter (\<lambda>(_, x). x \<noteq> pv_default v) (enumerate 0 ch)))
       (enumerate 0 (pv_chunks v)))"

subsection \<open>The table is an array\<close>

text \<open>The abstract content: a function that is the default outside what was written.\<close>

definition pv_at :: "'a page_vec \<Rightarrow> nat \<Rightarrow> 'a" where
  "pv_at v p = (if p div CHUNK < length (pv_chunks v)
     then (case pv_chunks v ! (p div CHUNK) of Some chunk \<Rightarrow> chunk ! (p mod CHUNK) | None \<Rightarrow> pv_default v)
     else pv_default v)"

definition pv_inv :: "'a page_vec \<Rightarrow> bool" where
  "pv_inv v \<longleftrightarrow> (pv_chunks v = [] \<or> length (pv_chunks v) = (pv_len v + CHUNK - 1) div CHUNK)
     \<and> (\<forall>i ch. i < length (pv_chunks v) \<longrightarrow> pv_chunks v ! i = Some ch \<longrightarrow> length ch = CHUNK)
     \<and> (\<forall>p\<ge>pv_len v. pv_at v p = pv_default v)"

lemma CHUNK_pos [simp]: "0 < CHUNK"
  by (simp add: CHUNK_def)

lemma chunk_in_range: "p < len \<Longrightarrow> p div CHUNK < (len + CHUNK - 1) div CHUNK"
  by (simp add: CHUNK_def)

lemma pv_index_at: "pv_index v p = (if p < pv_len v then Some (pv_at v p) else None)"
  by (simp add: pv_index_def pv_at_def)

lemma pv_new_at [simp]: "pv_at (pv_new len d) p = d" "pv_inv (pv_new len d)" "pv_len (pv_new len d) = len" "pv_default (pv_new len d) = d"
  by (auto simp: pv_at_def pv_new_def pv_inv_def)

lemma pv_clear_at [simp]: "pv_at (pv_clear v) p = pv_default v" "pv_inv (pv_clear v)"
    "pv_len (pv_clear v) = pv_len v" "pv_default (pv_clear v) = pv_default v"
  by (auto simp: pv_at_def pv_clear_def pv_inv_def)

lemma div_mod_eq: "p div CHUNK = q div CHUNK \<Longrightarrow> p mod CHUNK = q mod CHUNK \<Longrightarrow> p = q"
  by (metis div_mult_mod_eq)

lemma pv_set_at:
  assumes "pv_inv v" "p < pv_len v"
  shows "\<exists>v'. pv_set p x v = Some v' \<and> pv_inv v' \<and> pv_at v' = (pv_at v)(p := x)
    \<and> pv_len v' = pv_len v \<and> pv_default v' = pv_default v"
proof -
  let ?n = "(pv_len v + CHUNK - 1) div CHUNK"
  let ?cs = "if pv_chunks v = [] then replicate ?n None else pv_chunks v"
  let ?c = "p div CHUNK"
  let ?ch = "case ?cs ! ?c of Some c \<Rightarrow> c | None \<Rightarrow> replicate CHUNK (pv_default v)"
  let ?v = "v\<lparr>pv_chunks := ?cs[?c := Some (?ch[p mod CHUNK := x])]\<rparr>"
  have n: "length ?cs = ?n" using assms(1) by (auto simp: pv_inv_def)
  have c: "?c < ?n" using chunk_in_range [OF assms(2)] .
  have chs: "length ch = CHUNK" if "?cs ! i = Some ch" "i < ?n" for i ch
    using assms(1) that n by (auto simp: pv_inv_def split: if_splits)
  then have chl: "length ?ch = CHUNK" using c by (simp split: option.splits)
  have "pv_set p x v = Some ?v" using assms(2) c n by (simp add: pv_set_def Let_def)
  moreover have at: "pv_at ?v q = ((pv_at v)(p := x)) q" for q
  proof (cases "q div CHUNK = ?c")
    case True
    then show ?thesis using c n chl div_mod_eq [OF True] by (auto simp: pv_at_def nth_list_update split: option.splits)
  next
    case False
    then show ?thesis using n by (auto simp: pv_at_def split: option.splits)
  qed
  moreover have "pv_inv ?v"
    unfolding pv_inv_def
  proof (intro conjI allI impI)
    show "pv_chunks ?v = [] \<or> length (pv_chunks ?v) = (pv_len ?v + CHUNK - 1) div CHUNK" using n by simp
    show "length ch = CHUNK" if "i < length (pv_chunks ?v)" "pv_chunks ?v ! i = Some ch" for i ch
      using that chs [of i ch] chl n c by (auto simp: nth_list_update split: if_splits)
    show "pv_at ?v q = pv_default ?v" if "pv_len ?v \<le> q" for q
      using assms that by (simp add: at pv_inv_def)
  qed
  ultimately show ?thesis by (intro exI [of _ ?v]) auto
qed


subsection \<open>A table as its clients use it\<close>

locale page_array =
  fixes ok :: "'v \<Rightarrow> bool"
    and size :: "'v \<Rightarrow> nat"
    and at :: "'v \<Rightarrow> nat \<Rightarrow> 'a"
    and set1 :: "nat \<Rightarrow> 'a \<Rightarrow> 'v \<Rightarrow> 'v option"
  assumes set_ok: "ok v \<Longrightarrow> p < size v \<Longrightarrow> \<exists>v'. set1 p x v = Some v' \<and> ok v' \<and> size v' = size v \<and> at v' = (at v)(p := x)"
begin

text \<open>A loop that stores a value in a range of pages.\<close>

fun fill_range :: "nat list \<Rightarrow> 'a \<Rightarrow> 'v \<Rightarrow> 'v option" where
  "fill_range [] x v = Some v"
| "fill_range (p # ps) x v = Option.bind (set1 p x v) (fill_range ps x)"

lemma fill_range_at:
  "ok v \<Longrightarrow> \<forall>p\<in>set ps. p < size v \<Longrightarrow>
   \<exists>v'. fill_range ps x v = Some v' \<and> ok v' \<and> size v' = size v \<and> at v' = (\<lambda>q. if q \<in> set ps then x else at v q)"
proof (induction ps arbitrary: v)
  case Nil
  then show ?case by (intro exI [of _ v]) (simp add: fun_eq_iff)
next
  case (Cons p ps)
  have "p < size v" using Cons.prems(2) by simp
  from set_ok [OF Cons.prems(1) this, of x] obtain v1 where
    v1: "set1 p x v = Some v1" "ok v1" "size v1 = size v" "at v1 = (at v)(p := x)" by (elim exE conjE)
  have "\<exists>v'. fill_range ps x v1 = Some v' \<and> ok v' \<and> size v' = size v1 \<and> at v' = (\<lambda>q. if q \<in> set ps then x else at v1 q)"
    by (rule Cons.IH) (use v1 Cons.prems in simp_all)
  then obtain v2 where v2: "fill_range ps x v1 = Some v2" "ok v2" "size v2 = size v1"
    "at v2 = (\<lambda>q. if q \<in> set ps then x else at v1 q)" by (elim exE conjE)
  have "at v2 = (\<lambda>q. if q \<in> set (p # ps) then x else at v q)" by (simp add: v1(4) v2(4) fun_eq_iff)
  with v1(1,3) v2(1-3) show ?case by (intro exI [of _ v2]) simp
qed

end

interpretation pv: page_array pv_inv pv_len pv_at pv_set
proof (unfold_locales, goal_cases)
  case (1 v p x)
  from pv_set_at [OF this, of x] show ?case by (elim exE conjE) (intro exI conjI)
qed

subsection \<open>Listing the written entries\<close>

lemma filter_upt_past: "(\<And>p. k \<le> p \<Longrightarrow> \<not> P p) \<Longrightarrow> k \<le> n \<Longrightarrow> filter P [0..<n] = filter P [0..<k]"
proof (induction n)
  case (Suc n)
  then show ?case by (cases "k = Suc n") auto
qed simp

lemma upt_blocks: "concat (map (\<lambda>c. [c * b..<c * b + b]) [0..<n]) = [0..<n * b]"
proof (induction n)
  case (Suc n)
  have "[0..<n * b] @ [n * b..<n * b + b] = [0..<n * b + b]" using upt_add_eq_append [of 0 "n * b" b] by simp
  with Suc show ?case by (simp add: add.commute)
qed simp

definition entries :: "(nat \<Rightarrow> 'a) \<Rightarrow> 'a \<Rightarrow> nat list \<Rightarrow> (nat \<times> 'a) list" where
  "entries f d ps = map (\<lambda>p. (p, f p)) (filter (\<lambda>p. f p \<noteq> d) ps)"

lemma entries_concat: "entries f d (concat pss) = concat (map (entries f d) pss)"
  by (induction pss) (simp_all add: entries_def)

lemma enumerate_upt: "enumerate 0 xs = map (\<lambda>i. (i, xs ! i)) [0..<length xs]"
  by (rule nth_equalityI) (simp_all add: nth_enumerate_eq)

lemma block_div: "i < CHUNK \<Longrightarrow> (c * CHUNK + i) div CHUNK = c \<and> (c * CHUNK + i) mod CHUNK = i"
  by simp

lemma chunk_entries:
  assumes "pv_inv v" "c < length (pv_chunks v)"
  shows "(case pv_chunks v ! c of
         None \<Rightarrow> []
       | Some ch \<Rightarrow> map (\<lambda>(i, x). (c * CHUNK + i, x)) (filter (\<lambda>(_, x). x \<noteq> pv_default v) (enumerate 0 ch)))
    = entries (pv_at v) (pv_default v) [c * CHUNK..<c * CHUNK + CHUNK]"
proof -
  have u: "[c * CHUNK..<c * CHUNK + CHUNK] = map (\<lambda>i. c * CHUNK + i) [0..<CHUNK]"
    by (rule nth_equalityI) simp_all
  have at: "pv_at v (c * CHUNK + i) = (case pv_chunks v ! c of Some ch \<Rightarrow> ch ! i | None \<Rightarrow> pv_default v)"
    if "i \<in> set [0..<CHUNK]" for i
  proof -
    have "(c * CHUNK + i) div CHUNK = c" "(c * CHUNK + i) mod CHUNK = i" using block_div [of i c] that by simp_all
    then show ?thesis using assms(2) unfolding pv_at_def by (simp only: if_True)
  qed
  show ?thesis
  proof (cases "pv_chunks v ! c")
    case None
    then have "filter (\<lambda>p. pv_at v p \<noteq> pv_default v) (map (\<lambda>i. c * CHUNK + i) [0..<CHUNK]) = []"
      unfolding filter_empty_conv using at by (simp only: set_map) (auto simp del: set_upt)
    with None show ?thesis unfolding u entries_def by (simp only: option.simps list.map)
  next
    case (Some ch)
    then have l: "length ch = CHUNK" using assms by (simp add: pv_inv_def)
    have "entries (pv_at v) (pv_default v) [c * CHUNK..<c * CHUNK + CHUNK]
        = map (\<lambda>i. (c * CHUNK + i, pv_at v (c * CHUNK + i))) (filter (\<lambda>i. pv_at v (c * CHUNK + i) \<noteq> pv_default v) [0..<CHUNK])"
      unfolding u entries_def by (simp add: filter_map comp_def)
    also have "\<dots> = map (\<lambda>i. (c * CHUNK + i, ch ! i)) (filter (\<lambda>i. ch ! i \<noteq> pv_default v) [0..<CHUNK])"
      using at Some by (intro map_cong filter_cong) auto
    also have "\<dots> = map (\<lambda>(i, x). (c * CHUNK + i, x)) (filter (\<lambda>(_, x). x \<noteq> pv_default v) (enumerate 0 ch))"
      by (simp add: enumerate_upt l filter_map comp_def)
    finally show ?thesis using Some by simp
  qed
qed

lemma non_default_entries:
  assumes "pv_inv v"
  shows "non_default v = entries (pv_at v) (pv_default v) [0..<pv_len v]"
proof -
  let ?n = "length (pv_chunks v)"
  have "non_default v = concat (map (\<lambda>c. entries (pv_at v) (pv_default v) [c * CHUNK..<c * CHUNK + CHUNK]) [0..<?n])"
    unfolding non_default_def enumerate_upt [of "pv_chunks v"] map_map comp_def
    by (intro arg_cong [of _ _ concat] map_cong) (use chunk_entries [OF assms] in simp_all)
  also have "\<dots> = entries (pv_at v) (pv_default v) [0..<?n * CHUNK]"
    using entries_concat [of "pv_at v" "pv_default v" "map (\<lambda>c. [c * CHUNK..<c * CHUNK + CHUNK]) [0..<?n]"]
    by (simp add: upt_blocks comp_def)
  also have "\<dots> = entries (pv_at v) (pv_default v) [0..<pv_len v]"
  proof (cases "pv_chunks v = []")
    case True
    then have "pv_at v p = pv_default v" for p by (simp add: pv_at_def)
    then show ?thesis using True by (simp add: entries_def)
  next
    case False
    then have "?n = (pv_len v + CHUNK - 1) div CHUNK" using assms by (auto simp: pv_inv_def)
    then have "pv_len v \<le> ?n * CHUNK" by (simp add: CHUNK_def)
    then show ?thesis using assms filter_upt_past [of "pv_len v" "\<lambda>p. pv_at v p \<noteq> pv_default v" "?n * CHUNK"]
      by (simp add: entries_def pv_inv_def)
  qed
  finally show ?thesis .
qed

subsection \<open>Sequences of operations\<close>

datatype 'a pv_op = Store nat 'a | Clear

fun pv_run :: "'a pv_op list \<Rightarrow> 'a page_vec \<Rightarrow> 'a page_vec option" where
  "pv_run [] v = Some v"
| "pv_run (Store p x # ops) v = Option.bind (pv_set p x v) (pv_run ops)"
| "pv_run (Clear # ops) v = pv_run ops (pv_clear v)"

fun array_run :: "'a \<Rightarrow> 'a pv_op list \<Rightarrow> (nat \<Rightarrow> 'a) \<Rightarrow> nat \<Rightarrow> 'a" where
  "array_run d [] f = f"
| "array_run d (Store p x # ops) f = array_run d ops (f(p := x))"
| "array_run d (Clear # ops) f = array_run d ops (\<lambda>_. d)"

fun stores_below :: "nat \<Rightarrow> 'a pv_op list \<Rightarrow> bool" where
  "stores_below n [] = True"
| "stores_below n (Store p x # ops) = (p < n \<and> stores_below n ops)"
| "stores_below n (Clear # ops) = stores_below n ops"

lemma pv_run_refines:
  "pv_inv v \<Longrightarrow> stores_below (pv_len v) ops \<Longrightarrow> \<exists>v'. pv_run ops v = Some v' \<and> pv_inv v' \<and> pv_len v' = pv_len v
    \<and> pv_default v' = pv_default v \<and> pv_at v' = array_run (pv_default v) ops (pv_at v)"
proof (induction ops arbitrary: v)
  case (Cons x ops)
  show ?case
  proof (cases x)
    case (Store p y)
    from Cons.prems Store have p: "p < pv_len v" by simp
    from pv_set_at [OF Cons.prems(1) p, of y] obtain v1 where
      v1: "pv_set p y v = Some v1" "pv_inv v1" "pv_at v1 = (pv_at v)(p := y)" "pv_len v1 = pv_len v" "pv_default v1 = pv_default v"
      by (elim exE conjE)
    have "\<exists>v'. pv_run ops v1 = Some v' \<and> pv_inv v' \<and> pv_len v' = pv_len v1
        \<and> pv_default v' = pv_default v1 \<and> pv_at v' = array_run (pv_default v1) ops (pv_at v1)"
      by (rule Cons.IH) (use v1 Cons.prems Store in simp_all)
    then show ?thesis by (simp add: Store v1)
  next
    case Clear
    have "\<exists>v'. pv_run ops (pv_clear v) = Some v' \<and> pv_inv v' \<and> pv_len v' = pv_len (pv_clear v)
        \<and> pv_default v' = pv_default (pv_clear v) \<and> pv_at v' = array_run (pv_default (pv_clear v)) ops (pv_at (pv_clear v))"
      by (rule Cons.IH) (use Cons.prems Clear in simp_all)
    moreover have "pv_at (pv_clear v) = (\<lambda>_. pv_default v)" by (simp add: fun_eq_iff)
    ultimately show ?thesis by (simp add: Clear)
  qed
qed simp

subsection \<open>Property\<close>



end
