(* ===== verification/Fd_Table.thy ===== *)
theory Fd_Table
  imports Nixvm_Base
begin

text \<open>
  The per-process descriptor table of \<^verbatim>\<open>src/kernel/fd.rs\<close>. An open file description (\<^verbatim>\<open>FileOffset\<close>, an
  \<^verbatim>\<open>Arc\<close> of a position and the append flag) is an address in a store, so that descriptors which share one,
  by \<^verbatim>\<open>dup\<close> or across \<^verbatim>\<open>fork\<close>, see each other's changes.
\<close>

type_synonym path = string

record ofd =
  ofd_pos :: u64
  ofd_append :: bool

type_synonym ofd_store = "nat \<Rightarrow> ofd"

definition fo_new :: "nat \<Rightarrow> u64 \<Rightarrow> ofd_store \<Rightarrow> ofd_store" where
  "fo_new a pos st = st(a := \<lparr>ofd_pos = pos, ofd_append = False\<rparr>)"

definition fo_get :: "nat \<Rightarrow> ofd_store \<Rightarrow> u64" where
  "fo_get a st = ofd_pos (st a)"

definition fo_set :: "nat \<Rightarrow> u64 \<Rightarrow> ofd_store \<Rightarrow> ofd_store" where
  "fo_set a pos st = st(a := (st a)\<lparr>ofd_pos := pos\<rparr>)"

definition fo_add :: "nat \<Rightarrow> u64 \<Rightarrow> ofd_store \<Rightarrow> ofd_store" where
  "fo_add a n st = st(a := (st a)\<lparr>ofd_pos := ofd_pos (st a) + n\<rparr>)"

definition fo_set_append :: "nat \<Rightarrow> bool \<Rightarrow> ofd_store \<Rightarrow> ofd_store" where
  "fo_set_append a on st = st(a := (st a)\<lparr>ofd_append := on\<rparr>)"

record fd_meta =
  fm_owner :: "int \<times> int"
  fm_sig :: int
  fm_lease :: int
  fm_notify :: u64
  fm_rw_hint :: u64

definition fd_meta_default :: fd_meta where
  "fd_meta_default = \<lparr>fm_owner = (1, 0), fm_sig = 0, fm_lease = 2, fm_notify = 0, fm_rw_hint = 0\<rparr>"

datatype ns_kind = NsCgroup | NsIpc | NsMnt | NsNet | NsPid | NsPidForChildren | NsTime | NsTimeForChildren | NsUser | NsUts

datatype fd =
    Stdin | Stdout | Stderr | Tty
  | File path (fd_offset: nat) bool bool
  | Dir path nat
  | PipeRead nat | PipeWrite nat
  | Socket nat nat
  | Eventfd nat | Signalfd nat | Timerfd nat | Pidfd nat
  | Namespace ns_kind u32
  | Epoll nat
  | PtyMaster nat | PtySlave nat
  | Mqueue nat u64 nat

record fd_table =
  ft_map :: "(int, fd) fmap"
  ft_cloexec :: "int fset"
  ft_meta :: "(int, fd_meta) fmap"

definition with_standard_streams :: fd_table where
  "with_standard_streams =
     \<lparr>ft_map = fmupd 2 Stderr (fmupd 1 Stdout (fmupd 0 Stdin fmempty)), ft_cloexec = {||}, ft_meta = fmempty\<rparr>"

definition rewrite_paths :: "(path \<Rightarrow> path) \<Rightarrow> fd_table \<Rightarrow> fd_table" where
  "rewrite_paths f t = t\<lparr>ft_map := fmmap (\<lambda>d. case d of File p a r w \<Rightarrow> File (f p) a r w | Dir p n \<Rightarrow> Dir (f p) n | _ \<Rightarrow> d) (ft_map t)\<rparr>"

definition ft_len :: "fd_table \<Rightarrow> nat" where
  "ft_len t = fcard (fmdom (ft_map t))"

definition I32_MAX :: int where "I32_MAX = 2147483647"

definition has_room_for :: "fd_table \<Rightarrow> u64 \<Rightarrow> u64 \<Rightarrow> bool" where
  "has_room_for t wanted limit =
     (let limit = (if uint limit \<le> I32_MAX then uint limit else I32_MAX);
          used = length (filter (\<lambda>n. n < limit) (fm_keys (ft_map t)))
      in word_of_nat used + wanted \<le> (word_of_int limit :: u64))"

text \<open>
  The search loop of \<^verbatim>\<open>alloc_from\<close>; incrementing past the largest \<^verbatim>\<open>i32\<close> is an overflow, \<^const>\<open>None\<close>.
\<close>

function lowest_free :: "(int, 'a) fmap \<Rightarrow> int \<Rightarrow> int option" where
  "lowest_free m n = (if n |\<in>| fmdom m then if n \<ge> I32_MAX then None else lowest_free m (n + 1) else Some n)"
  by pat_completeness auto
termination
  by (relation "measure (\<lambda>(m, n). nat (I32_MAX - n))") auto

declare lowest_free.simps [simp del]

definition alloc_from :: "fd \<Rightarrow> int \<Rightarrow> fd_table \<Rightarrow> (int \<times> fd_table) option" where
  "alloc_from d mn t = map_option (\<lambda>n. (n, t\<lparr>ft_map := fmupd n d (ft_map t)\<rparr>)) (lowest_free (ft_map t) (max mn 0))"

definition ft_alloc :: "fd \<Rightarrow> fd_table \<Rightarrow> (int \<times> fd_table) option" where
  "ft_alloc d t = alloc_from d 0 t"

definition ft_insert :: "int \<Rightarrow> fd \<Rightarrow> fd_table \<Rightarrow> fd option \<times> fd_table" where
  "ft_insert n d t = (fmlookup (ft_map t) n,
     \<lparr>ft_map = fmupd n d (ft_map t), ft_cloexec = ft_cloexec t |-| {|n|}, ft_meta = fmdrop n (ft_meta t)\<rparr>)"

definition set_cloexec :: "int \<Rightarrow> bool \<Rightarrow> fd_table \<Rightarrow> fd_table" where
  "set_cloexec n on t =
     (if n |\<notin>| fmdom (ft_map t) then t
      else t\<lparr>ft_cloexec := (if on then finsert n (ft_cloexec t) else ft_cloexec t |-| {|n|})\<rparr>)"

definition is_cloexec :: "fd_table \<Rightarrow> int \<Rightarrow> bool" where
  "is_cloexec t n \<longleftrightarrow> n |\<in>| ft_cloexec t"

definition set_append :: "int \<Rightarrow> bool \<Rightarrow> fd_table \<Rightarrow> ofd_store \<Rightarrow> ofd_store" where
  "set_append n on t st = (case fmlookup (ft_map t) n of Some (File _ a _ _) \<Rightarrow> fo_set_append a on st | _ \<Rightarrow> st)"

definition is_append :: "fd_table \<Rightarrow> ofd_store \<Rightarrow> int \<Rightarrow> bool" where
  "is_append t st n = (case fmlookup (ft_map t) n of Some (File _ a _ _) \<Rightarrow> ofd_append (st a) | _ \<Rightarrow> False)"

definition ft_meta_of :: "fd_table \<Rightarrow> int \<Rightarrow> fd_meta" where
  "ft_meta_of t n = (case fmlookup (ft_meta t) n of None \<Rightarrow> fd_meta_default | Some m \<Rightarrow> m)"

text \<open>\<^verbatim>\<open>meta_mut\<close> with the change its caller makes through the reference.\<close>

definition meta_mut :: "int \<Rightarrow> (fd_meta \<Rightarrow> fd_meta) \<Rightarrow> fd_table \<Rightarrow> fd_table" where
  "meta_mut n f t = t\<lparr>ft_meta := fmupd n (f (ft_meta_of t n)) (ft_meta t)\<rparr>"

definition close_cloexec :: "fd_table \<Rightarrow> fd list \<times> fd_table" where
  "close_cloexec t =
     (let fds = sorted_list_of_fset (ft_cloexec t)
      in (List.map_filter (fmlookup (ft_map t)) fds,
          \<lparr>ft_map = fold fmdrop fds (ft_map t), ft_cloexec = {||}, ft_meta = fold fmdrop fds (ft_meta t)\<rparr>))"

definition ft_get :: "fd_table \<Rightarrow> int \<Rightarrow> fd option" where
  "ft_get t n = fmlookup (ft_map t) n"

definition ft_close :: "int \<Rightarrow> fd_table \<Rightarrow> fd option \<times> fd_table" where
  "ft_close n t = (fmlookup (ft_map t) n,
     \<lparr>ft_map = fmdrop n (ft_map t), ft_cloexec = ft_cloexec t |-| {|n|}, ft_meta = fmdrop n (ft_meta t)\<rparr>)"

definition ft_iter :: "fd_table \<Rightarrow> (int \<times> fd) list" where
  "ft_iter t = map (\<lambda>n. (n, the (fmlookup (ft_map t) n))) (fm_keys (ft_map t))"

definition ft_drain :: "fd_table \<Rightarrow> fd list \<times> fd_table" where
  "ft_drain t = (map snd (ft_iter t), \<lparr>ft_map = fmempty, ft_cloexec = {||}, ft_meta = fmempty\<rparr>)"

subsection \<open>The lowest free number\<close>

lemma lowest_free_Some:
  "lowest_free m n = Some k \<Longrightarrow> n \<le> k \<and> fmlookup m k = None \<and> (\<forall>j. n \<le> j \<longrightarrow> j < k \<longrightarrow> fmlookup m j \<noteq> None)"
proof (induction m n rule: lowest_free.induct)
  case (1 m n)
  show ?case
  proof (cases "n |\<in>| fmdom m")
    case True
    with 1 have "n + 1 \<le> k \<and> fmlookup m k = None \<and> (\<forall>j. n + 1 \<le> j \<longrightarrow> j < k \<longrightarrow> fmlookup m j \<noteq> None)"
      by (simp add: lowest_free.simps [of m n] split: if_splits)
    with True show ?thesis by (auto simp: fmdom_notI) (metis fmdomE option.distinct(1) zle_add1_eq_le add1_zle_eq order_le_less)
  next
    case False
    with 1(2) show ?thesis by (auto simp: lowest_free.simps [of m n] fmdom_notD)
  qed
qed

lemma lowest_free_below:
  "n \<le> k \<Longrightarrow> k \<le> I32_MAX \<Longrightarrow> fmlookup m k = None \<Longrightarrow> \<exists>j. lowest_free m n = Some j \<and> j \<le> k"
proof (induction m n rule: lowest_free.induct)
  case (1 m n)
  show ?case
  proof (cases "n |\<in>| fmdom m")
    case True
    with 1(4) have "n \<noteq> k" by auto
    with 1 True show ?thesis by (simp add: lowest_free.simps [of m n])
  next
    case False
    with 1(2) show ?thesis by (simp add: lowest_free.simps [of m n])
  qed
qed

subsection \<open>Reachable tables\<close>

text \<open>
  A table a process can have: it starts with the standard streams and changes by the operations above, under what their
  callers ensure. \<^verbatim>\<open>sys_dup2\<close> passes a number below the descriptor limit, \<^verbatim>\<open>sys_fcntl\<close> records attributes of an open
  descriptor only.
\<close>

inductive ft_reach :: "fd_table \<Rightarrow> bool" where
  start: "ft_reach with_standard_streams"
| alloc: "ft_reach t \<Longrightarrow> alloc_from d mn t = Some (n, t') \<Longrightarrow> ft_reach t'"
| insert: "ft_reach t \<Longrightarrow> 0 \<le> n \<Longrightarrow> ft_reach (snd (ft_insert n d t))"
| cloexec: "ft_reach t \<Longrightarrow> ft_reach (set_cloexec n on t)"
| meta: "ft_reach t \<Longrightarrow> n |\<in>| fmdom (ft_map t) \<Longrightarrow> ft_reach (meta_mut n f t)"
| exec: "ft_reach t \<Longrightarrow> ft_reach (snd (close_cloexec t))"
| close: "ft_reach t \<Longrightarrow> ft_reach (snd (ft_close n t))"
| paths: "ft_reach t \<Longrightarrow> ft_reach (rewrite_paths f t)"
| drain: "ft_reach t \<Longrightarrow> ft_reach (snd (ft_drain t))"

definition ft_inv :: "fd_table \<Rightarrow> bool" where
  "ft_inv t \<longleftrightarrow> ft_cloexec t |\<subseteq>| fmdom (ft_map t) \<and> fmdom (ft_meta t) |\<subseteq>| fmdom (ft_map t)
     \<and> (\<forall>n. n |\<in>| fmdom (ft_map t) \<longrightarrow> 0 \<le> n)"

lemma fmdom_fold_drop [simp]: "fmdom (fold fmdrop ks m) = fmdom m |-| fset_of_list ks"
  by (induction ks arbitrary: m) auto

lemma fmlookup_fold_drop: "fmlookup (fold fmdrop ks m) k = (if k \<in> set ks then None else fmlookup m k)"
  by (induction ks arbitrary: m) auto

lemma ft_reach_inv: "ft_reach t \<Longrightarrow> ft_inv t"
proof (induction rule: ft_reach.induct)
  case start
  then show ?case by (auto simp: ft_inv_def with_standard_streams_def)
next
  case (alloc t d mn n t')
  from alloc(2) have "0 \<le> n" "t' = t\<lparr>ft_map := fmupd n d (ft_map t)\<rparr>"
    by (auto simp: alloc_from_def dest: lowest_free_Some)
  with alloc(3) show ?case by (auto simp: ft_inv_def)
next
  case (exec t)
  then show ?case by (auto simp: ft_inv_def close_cloexec_def Let_def)
qed (auto simp: ft_inv_def ft_insert_def set_cloexec_def meta_mut_def ft_close_def rewrite_paths_def ft_drain_def)

subsection \<open>Room under the limit\<close>

lemma free_below:
  assumes "length (filter (\<lambda>n. n < L) (fm_keys m)) < nat L" "\<forall>n. n |\<in>| fmdom m \<longrightarrow> (0::int) \<le> n"
  shows "\<exists>k. 0 \<le> k \<and> k < L \<and> fmlookup m k = None"
proof (rule ccontr)
  assume "\<not> ?thesis"
  then have "{0..<L} \<subseteq> set (filter (\<lambda>n. n < L) (fm_keys m))" by (auto simp: fmdomI dest: spec)
  then have "card {0..<L} \<le> card (set (filter (\<lambda>n. n < L) (fm_keys m)))" by (intro card_mono) simp_all
  also have "\<dots> \<le> length (filter (\<lambda>n. n < L) (fm_keys m))" by (rule card_length)
  finally show False using assms(1) by simp
qed

lemma used_after:
  assumes "k < L" "fmlookup m k = None"
  shows "length (filter (\<lambda>n. n < L) (fm_keys (fmupd k d m))) = Suc (length (filter (\<lambda>n. n < L) (fm_keys m)))"
proof -
  have "k \<notin> set (fm_keys m)" using assms(2) by (simp add: fmdom_notI)
  then have "fm_keys (fmdrop k m) = fm_keys m" by (auto intro!: filter_True)
  moreover have "length (filter P (insort k xs)) = length (filter P (k # xs))" for P xs
    by (induction xs) auto
  ultimately show ?thesis using assms(1) by (simp add: fm_keys_upd)
qed

text \<open>A handler that opens several descriptors allocates them one after the other.\<close>

fun alloc_all :: "fd list \<Rightarrow> fd_table \<Rightarrow> (int list \<times> fd_table) option" where
  "alloc_all [] t = Some ([], t)"
| "alloc_all (d # ds) t = (case ft_alloc d t of
     None \<Rightarrow> None
   | Some (n, t1) \<Rightarrow> map_option (\<lambda>(ns, t2). (n # ns, t2)) (alloc_all ds t1))"

lemma alloc_all_below:
  "length (filter (\<lambda>n. n < L) (fm_keys (ft_map t))) + length ds \<le> nat L \<Longrightarrow> L \<le> I32_MAX \<Longrightarrow> ft_inv t \<Longrightarrow>
   \<exists>ns t'. alloc_all ds t = Some (ns, t') \<and> length ns = length ds \<and> distinct ns
     \<and> (\<forall>n\<in>set ns. 0 \<le> n \<and> n < L \<and> fmlookup (ft_map t) n = None)
     \<and> (\<forall>n. n \<notin> set ns \<longrightarrow> fmlookup (ft_map t') n = fmlookup (ft_map t) n)"
proof (induction ds arbitrary: t)
  case (Cons d ds)
  let ?m = "ft_map t"
  from free_below [of L ?m] Cons.prems obtain k where k: "0 \<le> k" "k < L" "fmlookup ?m k = None" by (auto simp: ft_inv_def)
  from lowest_free_below [of 0 k ?m] k Cons.prems obtain n where n: "lowest_free ?m 0 = Some n" "n \<le> k" by auto
  have nf: "0 \<le> n" "fmlookup ?m n = None" using lowest_free_Some [OF n(1)] by auto
  let ?t = "t\<lparr>ft_map := fmupd n d ?m\<rparr>"
  have "ft_inv ?t" using Cons.prems(3) nf by (auto simp: ft_inv_def)
  moreover have "length (filter (\<lambda>n. n < L) (fm_keys (ft_map ?t))) + length ds \<le> nat L"
    using Cons.prems(1) used_after [of n L ?m d] n k nf by simp
  ultimately obtain ns t' where t': "alloc_all ds ?t = Some (ns, t')" "length ns = length ds" "distinct ns"
    "\<forall>j\<in>set ns. 0 \<le> j \<and> j < L \<and> fmlookup (ft_map ?t) j = None"
    "\<forall>j. j \<notin> set ns \<longrightarrow> fmlookup (ft_map t') j = fmlookup (ft_map ?t) j"
    using Cons.IH [of ?t] Cons.prems(2) by blast
  have "n \<notin> set ns" using t'(4) by fastforce
  moreover have "alloc_all (d # ds) t = Some (n # ns, t')" using n(1) t'(1) by (simp add: ft_alloc_def alloc_from_def)
  moreover have "fmlookup ?m j = None" if "j \<in> set ns" for j using t'(4) that by (auto split: if_splits)
  ultimately show ?case using t' nf n(2) k(2) by (intro exI [of _ "n # ns"] exI [of _ t']) auto
qed simp

lemma has_room_for_nat:
  assumes "has_room_for t wanted limit" "unat wanted < 2 ^ 32" "ft_len t < 2 ^ 32"
  shows "length (filter (\<lambda>n. n < min (uint limit) I32_MAX) (fm_keys (ft_map t))) + unat wanted \<le> nat (min (uint limit) I32_MAX)"
proof -
  let ?L = "min (uint limit) I32_MAX" let ?u = "length (filter (\<lambda>n. n < ?L) (fm_keys (ft_map t)))"
  have L: "0 \<le> ?L" "?L < 2 ^ 32" by (simp_all add: I32_MAX_def)
  have "?u \<le> ft_len t" unfolding ft_len_def length_fm_keys [symmetric] by (rule length_filter_le)
  then have u: "?u < 2 ^ 32" using assms(3) by linarith
  have "unat (word_of_nat ?u :: u64) = ?u" using u by (intro unat_word_of_nat_eq) simp
  moreover have "?u + unat wanted < 2 ^ 64" using u assms(2) by simp
  ultimately have "unat (word_of_nat ?u + wanted :: u64) = ?u + unat wanted" by (simp add: unat_add_less)
  moreover have "unat (word_of_int ?L :: u64) = nat ?L"
    using L by (simp add: unat_eq_nat_uint uint_word_of_int_eq take_bit_int_eq_self)
  moreover have "word_of_nat ?u + wanted \<le> (word_of_int ?L :: u64)"
    using assms(1) by (simp add: has_room_for_def Let_def min_def split: if_splits)
  ultimately show ?thesis by (simp add: word_le_nat_alt)
qed

lemma sorted_filter_keys:
  assumes "A |\<subseteq>| fmdom m"
  shows "sorted_list_of_fset A = filter (\<lambda>n. n |\<in>| A) (fm_keys m)"
proof (rule sorted_distinct_set_unique)
  show "sorted (sorted_list_of_fset A)" "distinct (sorted_list_of_fset A)"
    by (simp_all add: sorted_list_of_fset.rep_eq)
  show "sorted (filter (\<lambda>n. n |\<in>| A) (fm_keys m))" using sorted_filter [of "\<lambda>x. x" "fm_keys m"] by simp
  show "distinct (filter (\<lambda>n. n |\<in>| A) (fm_keys m))" by simp
  show "set (sorted_list_of_fset A) = set (filter (\<lambda>n. n |\<in>| A) (fm_keys m))" using assms by auto
qed

lemma map_filter_total: "(\<And>x. x \<in> set xs \<Longrightarrow> f x \<noteq> None) \<Longrightarrow> List.map_filter f xs = map (the \<circ> f) xs"
  by (induction xs) (auto simp: List.map_filter_simps split: option.splits)

subsection \<open>Properties\<close>

text \<open>
  C28. A new descriptor gets the lowest free number at or above the requested minimum: every number below it in
  range is taken, no other descriptor changes, and the new one starts without close-on-exec and with default
  attributes, whatever had that number before.
\<close>

theorem fd_alloc_lowest:
  assumes "ft_reach t" "alloc_from d mn t = Some (n, t')"
  shows "max mn 0 \<le> n \<and> ft_get t n = None \<and> (\<forall>j. max mn 0 \<le> j \<longrightarrow> j < n \<longrightarrow> ft_get t j \<noteq> None)
    \<and> (\<forall>j. ft_get t' j = (if j = n then Some d else ft_get t j))
    \<and> \<not> is_cloexec t' n \<and> ft_meta_of t' n = fd_meta_default"
proof -
  from assms(2) have n: "lowest_free (ft_map t) (max mn 0) = Some n" and t': "t' = t\<lparr>ft_map := fmupd n d (ft_map t)\<rparr>"
    by (auto simp: alloc_from_def)
  have "n |\<notin>| fmdom (ft_map t)" using lowest_free_Some [OF n] by (simp add: fmdom_notI)
  with ft_reach_inv [OF assms(1)] have "n |\<notin>| ft_cloexec t" "n |\<notin>| fmdom (ft_meta t)" by (auto simp: ft_inv_def)
  then show ?thesis using lowest_free_Some [OF n]
    by (auto simp: ft_get_def is_cloexec_def ft_meta_of_def t' fmdom_notD)
qed

theorem fd_alloc_lowest_witness:
  "(let t = snd (ft_close 1 with_standard_streams); t' = t\<lparr>ft_map := fmupd 1 Tty (ft_map t)\<rparr>
    in ft_get t 1 = None \<and> ft_get t 0 \<noteq> None \<and> ft_get t' 1 = Some Tty \<and> ft_get t' 2 = ft_get t 2
       \<and> \<not> is_cloexec t' 1 \<and> ft_meta_of t' 1 = fd_meta_default)"
proof -
  let ?t = "snd (ft_close 1 with_standard_streams)"
  have "alloc_from Tty 0 ?t = Some (1, ?t\<lparr>ft_map := fmupd 1 Tty (ft_map ?t)\<rparr>)"
    by (simp add: alloc_from_def ft_close_def with_standard_streams_def lowest_free.simps I32_MAX_def)
  from fd_alloc_lowest [OF ft_reach.close [OF ft_reach.start] this] show ?thesis unfolding Let_def by simp
qed

text \<open>
  C29. The room check before a system call is enough: when \<^verbatim>\<open>has_room_for\<close> accepts a number of descriptors under the
  process's limit, opening that many one after the other succeeds, every one gets a distinct number below the
  limit that was free, and the other descriptors stay.
\<close>

theorem room_is_enough:
  assumes "ft_reach t" "has_room_for t (word_of_nat (length ds)) limit" "length ds < 2 ^ 32" "ft_len t < 2 ^ 32"
  shows "\<exists>ns t'. alloc_all ds t = Some (ns, t') \<and> length ns = length ds \<and> distinct ns
    \<and> (\<forall>n\<in>set ns. 0 \<le> n \<and> n < uint limit \<and> ft_get t n = None)
    \<and> (\<forall>n. n \<notin> set ns \<longrightarrow> ft_get t' n = ft_get t n)"
proof -
  have w: "unat (word_of_nat (length ds) :: u64) = length ds" using assms(3) by (intro unat_word_of_nat_eq) simp
  have "length (filter (\<lambda>n. n < min (uint limit) I32_MAX) (fm_keys (ft_map t))) + length ds \<le> nat (min (uint limit) I32_MAX)"
    using has_room_for_nat [OF assms(2)] assms(3,4) w by simp
  from alloc_all_below [OF this _ ft_reach_inv [OF assms(1)]] show ?thesis
    by (fastforce simp: ft_get_def)
qed

theorem room_is_enough_witness:
  "\<exists>ns t'. alloc_all [PipeRead 0, PipeWrite 0] with_standard_streams = Some (ns, t') \<and> length ns = length [PipeRead 0, PipeWrite 0]
    \<and> distinct ns \<and> (\<forall>n\<in>set ns. 0 \<le> n \<and> n < uint (5 :: u64) \<and> ft_get with_standard_streams n = None)
    \<and> (\<forall>n. n \<notin> set ns \<longrightarrow> ft_get t' n = ft_get with_standard_streams n)"
proof (rule room_is_enough [OF ft_reach.start])
  have "fm_keys (ft_map with_standard_streams) = [0, 1, 2]" by (simp add: with_standard_streams_def fm_keys_upd)
  then show "has_room_for with_standard_streams (word_of_nat (length [PipeRead 0, PipeWrite 0])) 5"
    and "ft_len with_standard_streams < 2 ^ 32"
    by (simp_all add: has_room_for_def I32_MAX_def ft_len_def length_fm_keys [symmetric] Let_def)
qed simp

text \<open>
  C30. \<^verbatim>\<open>execve\<close> closes exactly the close-on-exec descriptors: they are returned in ascending order of their numbers, for
  the caller to release, and every other descriptor survives, none of them marked.
\<close>

theorem exec_closes_cloexec:
  assumes "ft_reach t" "close_cloexec t = (closed, t')"
  shows "closed = map (\<lambda>n. the (ft_get t n)) (filter (is_cloexec t) (fm_keys (ft_map t)))
    \<and> (\<forall>n. ft_get t' n = (if is_cloexec t n then None else ft_get t n) \<and> \<not> is_cloexec t' n)"
proof -
  have sub: "ft_cloexec t |\<subseteq>| fmdom (ft_map t)" using ft_reach_inv [OF assms(1)] by (simp add: ft_inv_def)
  have "List.map_filter (fmlookup (ft_map t)) (sorted_list_of_fset (ft_cloexec t))
      = map (the \<circ> fmlookup (ft_map t)) (sorted_list_of_fset (ft_cloexec t))"
    using sub by (intro map_filter_total) (auto simp: fmdom_notI)
  then show ?thesis using assms(2) sorted_filter_keys [OF sub]
    by (auto simp: close_cloexec_def Let_def fmlookup_fold_drop ft_get_def is_cloexec_def [abs_def] comp_def)
qed

theorem exec_closes_cloexec_witness:
  "[Stderr] = map (\<lambda>n. the (ft_get (set_cloexec 2 True with_standard_streams) n))
      (filter (is_cloexec (set_cloexec 2 True with_standard_streams)) (fm_keys (ft_map (set_cloexec 2 True with_standard_streams))))
   \<and> (\<forall>n. ft_get (snd (close_cloexec (set_cloexec 2 True with_standard_streams))) n
        = (if is_cloexec (set_cloexec 2 True with_standard_streams) n then None else ft_get (set_cloexec 2 True with_standard_streams) n)
      \<and> \<not> is_cloexec (snd (close_cloexec (set_cloexec 2 True with_standard_streams))) n)"
proof (rule exec_closes_cloexec)
  show "ft_reach (set_cloexec 2 True with_standard_streams)" by (rule ft_reach.cloexec [OF ft_reach.start])
  show "close_cloexec (set_cloexec 2 True with_standard_streams)
      = ([Stderr], snd (close_cloexec (set_cloexec 2 True with_standard_streams)))"
    by (simp add: close_cloexec_def set_cloexec_def with_standard_streams_def sorted_list_of_fset_finsert List.map_filter_simps)
qed

end
