(* ===== verification/Pipes.thy ===== *)
theory Pipes
  imports Fd_Table Syscall_Abi
begin

text \<open>
  Pipes and the descriptor calls that keep their reference counts, from \<^verbatim>\<open>src/kernel/mod.rs\<close>, \<^verbatim>\<open>src/kernel/fcntl.rs\<close>,
  \<^verbatim>\<open>src/kernel/attrs.rs\<close>, \<^verbatim>\<open>src/kernel/procx.rs\<close>, \<^verbatim>\<open>src/kernel/poll.rs\<close> and \<^verbatim>\<open>src/kernel/splice.rs\<close>. A computation that indexes
  the pipe table out of range panics, \<^const>\<open>None\<close>. Socket reference counts belong to the network stack and are not
  modelled. Guest memory is the pair of arguments \<open>rd\<close> and \<open>wr\<close>.
\<close>

record pipe =
  p_buf :: bytes
  p_readers :: nat
  p_writers :: nat
  p_read_nonblock :: bool
  p_write_nonblock :: bool
  p_capacity :: nat

definition PIPE_DEFAULT_CAPACITY :: nat where "PIPE_DEFAULT_CAPACITY = 65536"
definition PIPE_MAX_CAPACITY :: nat where "PIPE_MAX_CAPACITY = 2 ^ 20"
definition PIPE_ATOMIC_WRITE :: nat where "PIPE_ATOMIC_WRITE = 4096"
definition MAX_RW_COUNT :: nat where "MAX_RW_COUNT = 0x7ffff000"

text \<open>The cast \<^verbatim>\<open>fd as i32\<close>.\<close>

definition fd_num :: "u64 \<Rightarrow> int" where
  "fd_num w = sint (ucast w :: u32)"

text \<open>Changing one pipe in place; \<^const>\<open>None\<close> is the index panic.\<close>

definition at_pipe :: "nat \<Rightarrow> (pipe \<Rightarrow> pipe) \<Rightarrow> pipe list \<Rightarrow> pipe list option" where
  "at_pipe i f ps = (if i < length ps then Some (ps[i := f (ps ! i)]) else None)"

fun bump_pipe :: "fd \<Rightarrow> bool \<Rightarrow> pipe list \<Rightarrow> pipe list option" where
  "bump_pipe (PipeRead i) inc ps =
     at_pipe i (\<lambda>p. p\<lparr>p_readers := (if inc then p_readers p + 1 else p_readers p - 1)\<rparr>) ps"
| "bump_pipe (PipeWrite i) inc ps =
     at_pipe i (\<lambda>p. p\<lparr>p_writers := (if inc then p_writers p + 1 else p_writers p - 1)\<rparr>) ps"
| "bump_pipe _ inc ps = Some ps"

fun bump_all :: "fd list \<Rightarrow> bool \<Rightarrow> pipe list \<Rightarrow> pipe list option" where
  "bump_all [] inc ps = Some ps"
| "bump_all (d # ds) inc ps = Option.bind (bump_pipe d inc ps) (bump_all ds inc)"

subsection \<open>Calls on one descriptor table\<close>

type_synonym files = "fd_table \<times> pipe list"

definition O_CLOEXEC :: u64 where "O_CLOEXEC = 0x80000"
definition O_NONBLOCK :: u64 where "O_NONBLOCK = 0x800"

definition new_pipe :: "bool \<Rightarrow> pipe" where
  "new_pipe nonblock = \<lparr>p_buf = [], p_readers = 1, p_writers = 1, p_read_nonblock = nonblock, p_write_nonblock = nonblock,
     p_capacity = PIPE_DEFAULT_CAPACITY\<rparr>"

definition sys_pipe2 :: "('m \<Rightarrow> u64 \<Rightarrow> bytes \<Rightarrow> 'm option) \<Rightarrow> u64 \<Rightarrow> u64 \<Rightarrow> files \<Rightarrow> 'm \<Rightarrow> (int \<times> files \<times> 'm) option" where
  "sys_pipe2 wr fds_ptr flags = (\<lambda>(t, ps) mem.
     let nonblock = (flags AND O_NONBLOCK \<noteq> 0); idx = length ps; ps' = ps @ [new_pipe nonblock];
         cloexec = (flags AND O_CLOEXEC \<noteq> 0)
     in case ft_alloc (PipeRead idx) t of None \<Rightarrow> None | Some (rfd, t1) \<Rightarrow>
        case ft_alloc (PipeWrite idx) t1 of None \<Rightarrow> None | Some (wfd, t2) \<Rightarrow>
        let t3 = set_cloexec wfd cloexec (set_cloexec rfd cloexec t2);
            b = u32_to_le (word_of_int rfd) @ u32_to_le (word_of_int wfd)
        in Some (case wr mem fds_ptr b of None \<Rightarrow> (err EFAULT, (t3, ps'), mem) | Some mem' \<Rightarrow> (0, (t3, ps'), mem')))"

definition sys_close :: "int \<Rightarrow> files \<Rightarrow> (int \<times> files) option" where
  "sys_close n = (\<lambda>(t, ps). case ft_close n t of
     (Some f, t') \<Rightarrow> map_option (\<lambda>ps'. (0, (t', ps'))) (bump_pipe f False ps)
   | (None, t') \<Rightarrow> Some (err EBADF, (t', ps)))"

definition sys_dup :: "u64 \<Rightarrow> files \<Rightarrow> (int \<times> files) option" where
  "sys_dup oldfd = (\<lambda>(t, ps). case ft_get t (fd_num oldfd) of
     None \<Rightarrow> Some (err EBADF, (t, ps))
   | Some f \<Rightarrow> (case bump_pipe f True ps of None \<Rightarrow> None | Some ps' \<Rightarrow>
       map_option (\<lambda>(n, t'). (n, (t', ps'))) (ft_alloc f t)))"

definition sys_dup2 :: "u64 \<Rightarrow> u64 \<Rightarrow> u64 \<Rightarrow> bool \<Rightarrow> files \<Rightarrow> (int \<times> files) option" where
  "sys_dup2 oldfd newfd flags is_dup3 = (\<lambda>(t, ps).
     if is_dup3 \<and> oldfd = newfd then Some (err EINVAL, (t, ps))
     else case ft_get t (fd_num oldfd) of
       None \<Rightarrow> Some (err EBADF, (t, ps))
     | Some f \<Rightarrow>
         if oldfd = newfd then Some (sint newfd, (t, ps))
         else (case ft_close (fd_num newfd) t of (old, t1) \<Rightarrow>
                case (case old of Some o' \<Rightarrow> bump_pipe o' False ps | None \<Rightarrow> Some ps) of
                  None \<Rightarrow> None
                | Some ps1 \<Rightarrow>
                    map_option (\<lambda>ps2. (sint newfd,
                        (set_cloexec (fd_num newfd) (flags AND O_CLOEXEC \<noteq> 0) (snd (ft_insert (fd_num newfd) f t1)), ps2)))
                      (bump_pipe f True ps1)))"

text \<open>The \<^verbatim>\<open>F_DUPFD\<close> and \<^verbatim>\<open>F_DUPFD_CLOEXEC\<close> arm of \<^verbatim>\<open>sys_fcntl\<close>.\<close>

definition fcntl_dupfd :: "u64 \<Rightarrow> u64 \<Rightarrow> bool \<Rightarrow> files \<Rightarrow> (int \<times> files) option" where
  "fcntl_dupfd fd arg cloexec = (\<lambda>(t, ps). case ft_get t (fd_num fd) of
     None \<Rightarrow> Some (err EBADF, (t, ps))
   | Some f \<Rightarrow>
       if \<not> (0 \<le> fd_num arg \<and> fd_num arg < 4096) then Some (err EINVAL, (t, ps))
       else (case bump_pipe f True ps of None \<Rightarrow> None | Some ps' \<Rightarrow>
         map_option (\<lambda>(m, t'). (m, (set_cloexec m cloexec t', ps'))) (alloc_from f (fd_num arg) t)))"

text \<open>
  The descriptor limit in front of every call that opens descriptors: \<open>soft\<close> is the task's \<^verbatim>\<open>RLIMIT_NOFILE\<close>, \<open>others\<close> the
  sizes of the other tables, \<open>limit\<close> the bound for the whole machine.
\<close>

definition ONE_FD :: "string list" where
  "ONE_FD = [''Open'', ''Openat'', ''Openat2'', ''Creat'', ''Socket'', ''Accept'', ''Accept4'', ''Dup'', ''EpollCreate'',
     ''EpollCreate1'', ''Eventfd'', ''Eventfd2'', ''Signalfd'', ''Signalfd4'', ''TimerfdCreate'', ''InotifyInit'', ''InotifyInit1'',
     ''MemfdCreate'', ''PidfdOpen'', ''PidfdGetfd'', ''MqOpen'']"

definition fds_wanted :: "sysno \<Rightarrow> u64 list \<Rightarrow> u64 option" where
  "fds_wanted sys args =
     (if sys \<in> {Sysno ''Pipe'', Sysno ''Pipe2'', Sysno ''Socketpair''} then Some 2
      else if sys \<in> set (map Sysno ONE_FD) then Some 1
      else if sys = Sysno ''Fcntl'' \<and> args ! 1 \<in> {0, 1030} then Some 1
      else if sys \<in> {Sysno ''Dup2'', Sysno ''Dup3''} then Some 0
      else None)"

definition fd_limit_error :: "sysno \<Rightarrow> u64 list \<Rightarrow> fd_table \<Rightarrow> u64 \<Rightarrow> nat list \<Rightarrow> nat \<Rightarrow> int option" where
  "fd_limit_error sys args t soft others limit =
     (case fds_wanted sys args of
        None \<Rightarrow> None
      | Some wanted \<Rightarrow>
          if sys \<in> {Sysno ''Dup2'', Sysno ''Dup3''} then if args ! 1 \<ge> soft then Some (err EBADF) else None
          else if sys = Sysno ''Fcntl'' \<and> args ! 2 \<ge> soft then Some (err EINVAL)
          else if \<not> has_room_for t wanted soft then Some (err EMFILE)
          else if sum_list others + ft_len t + unat wanted > limit then Some (err (Errno 23)) else None)"

text \<open>Close-on-exec, process exit of the last user of a table, and the copy a fork makes.\<close>

definition exec_close :: "files \<Rightarrow> files option" where
  "exec_close = (\<lambda>(t, ps). case close_cloexec t of (ds, t') \<Rightarrow> map_option (\<lambda>ps'. (t', ps')) (bump_all ds False ps))"

definition exit_close :: "files \<Rightarrow> files option" where
  "exit_close = (\<lambda>(t, ps). case ft_drain t of (ds, t') \<Rightarrow> map_option (\<lambda>ps'. (t', ps')) (bump_all ds False ps))"

definition is_pipe_end :: "fd \<Rightarrow> bool" where
  "is_pipe_end d = (case d of PipeRead _ \<Rightarrow> True | PipeWrite _ \<Rightarrow> True | _ \<Rightarrow> False)"

definition is_pipe_read :: "fd \<Rightarrow> bool" where
  "is_pipe_read d = (case d of PipeRead _ \<Rightarrow> True | _ \<Rightarrow> False)"

definition fork_files :: "files \<Rightarrow> (fd_table \<times> pipe list) option" where
  "fork_files = (\<lambda>(t, ps).
     let ds = map snd (ft_iter t); r = filter is_pipe_read ds; w = filter (\<lambda>d. is_pipe_end d \<and> \<not> is_pipe_read d) ds
     in map_option (\<lambda>ps'. (t, ps')) (Option.bind (bump_all r True ps) (bump_all w True)))"

text \<open>\<^verbatim>\<open>pidfd_getfd\<close> once the target's table is found.\<close>

definition pidfd_getfd :: "fd_table \<Rightarrow> u64 \<Rightarrow> files \<Rightarrow> (int \<times> files) option" where
  "pidfd_getfd target targetfd = (\<lambda>(t, ps). case ft_get target (fd_num targetfd) of
     None \<Rightarrow> Some (err EBADF, (t, ps))
   | Some f \<Rightarrow> (case bump_pipe f True ps of None \<Rightarrow> None | Some ps' \<Rightarrow>
       map_option (\<lambda>(n, t'). (n, (set_cloexec n True t', ps'))) (ft_alloc f t)))"

subsection \<open>Moving bytes\<close>

text \<open>The parts of the servicing context and the task that pipe transfers use.\<close>

record io_cx =
  io_progress :: nat
  io_block :: bool
  io_pending :: u64

definition read_pipe :: "('m \<Rightarrow> u64 \<Rightarrow> bytes \<Rightarrow> 'm option) \<Rightarrow> nat \<Rightarrow> u64 \<Rightarrow> u64 \<Rightarrow> pipe list \<times> io_cx \<times> 'm \<Rightarrow>
    (int \<times> pipe list \<times> io_cx \<times> 'm) option" where
  "read_pipe wr i buf count = (\<lambda>(ps, cx, mem).
     if i < length ps then
       let p = ps ! i
       in if p_buf p = [] then
            if p_writers p > 0 then
              if p_read_nonblock p then Some (err EAGAIN, ps, cx, mem) else Some (0, ps, cx\<lparr>io_block := True\<rparr>, mem)
            else Some (0, ps, cx, mem)
          else
            let n = min (unat count) (length (p_buf p)); data = take n (p_buf p);
                ps' = ps[i := p\<lparr>p_buf := drop n (p_buf p)\<rparr>]
            in Some (case wr mem buf data of None \<Rightarrow> (err EFAULT, ps', cx, mem) | Some mem' \<Rightarrow> (int n, ps', cx, mem'))
     else None)"

definition read_pipe_fd :: "('m \<Rightarrow> u64 \<Rightarrow> bytes \<Rightarrow> 'm option) \<Rightarrow> fd_table \<Rightarrow> u64 \<Rightarrow> u64 \<Rightarrow> u64 \<Rightarrow> pipe list \<times> io_cx \<times> 'm \<Rightarrow>
    (int \<times> pipe list \<times> io_cx \<times> 'm) option" where
  "read_pipe_fd wr t fd buf count = (\<lambda>(ps, cx, mem). case ft_get t (fd_num fd) of
     Some (PipeRead i) \<Rightarrow> read_pipe wr i buf count (ps, cx, mem)
   | _ \<Rightarrow> Some (err EBADF, ps, cx, mem))"

text \<open>The pipe arm of \<^verbatim>\<open>sys_readv\<close>: the loop over the segments numbered \<open>is\<close>, with the bytes read so far.\<close>

fun readv_loop :: "('m \<Rightarrow> u64 \<Rightarrow> nat \<Rightarrow> bytes option) \<Rightarrow> ('m \<Rightarrow> u64 \<Rightarrow> bytes \<Rightarrow> 'm option) \<Rightarrow> fd_table \<Rightarrow> u64 \<Rightarrow> u64 \<Rightarrow>
    u64 list \<Rightarrow> int \<Rightarrow> pipe list \<times> io_cx \<times> 'm \<Rightarrow> (int \<times> pipe list \<times> io_cx \<times> 'm) option" where
  "readv_loop rd wr t fd iov [] tot (ps, cx, mem) = Some (tot, ps, cx, mem)"
| "readv_loop rd wr t fd iov (i # is) tot (ps, cx, mem) =
     (let ent = iov + i * 16
      in case (rd mem ent 8, rd mem (ent + 8) 8) of
           (Some bb, Some lb) \<Rightarrow>
             let base = u64_from_le bb; len = u64_from_le lb
             in if len = 0 then readv_loop rd wr t fd iov is tot (ps, cx, mem)
                else (case read_pipe_fd wr t fd base len (ps, cx, mem) of
                        None \<Rightarrow> None
                      | Some (r, ps', cx', mem') \<Rightarrow>
                          if r < 0 then Some (if tot > 0 then tot else r, ps', cx', mem')
                          else if r < uint len then Some (tot + r, ps', cx', mem')
                          else readv_loop rd wr t fd iov is (tot + r) (ps', cx', mem'))
         | _ \<Rightarrow> Some (if tot > 0 then tot else err EFAULT, ps, cx, mem))"

definition raise_sigpipe :: "io_cx \<Rightarrow> io_cx" where
  "raise_sigpipe cx = cx\<lparr>io_pending := io_pending cx OR push_bit 12 1\<rparr>"

abbreviation "EPIPE \<equiv> Errno 32"

definition pipe_write_from :: "nat \<Rightarrow> nat \<Rightarrow> bool \<Rightarrow> (nat \<Rightarrow> nat \<Rightarrow> bytes option) \<Rightarrow> pipe list \<times> io_cx \<Rightarrow>
    (int \<times> pipe list \<times> io_cx) option" where
  "pipe_write_from i tot nosignal read = (\<lambda>(ps, cx).
     if i < length ps then
       let p = ps ! i; prev = io_progress cx; reset = cx\<lparr>io_progress := 0\<rparr>
       in if p_readers p = 0 then
            if prev > 0 then Some (int prev, ps, reset)
            else Some (err EPIPE, ps, if nosignal then reset else raise_sigpipe reset)
          else
            let remaining = tot - prev; room = p_capacity p - length (p_buf p);
                n = (if remaining \<le> PIPE_ATOMIC_WRITE \<and> room < remaining then 0 else min remaining room)
            in case read prev n of
                 None \<Rightarrow> Some (if prev > 0 then int prev else err EFAULT, ps, reset)
               | Some data \<Rightarrow>
                   let ps' = ps[i := p\<lparr>p_buf := p_buf p @ data\<rparr>]; got = prev + n
                   in if got \<ge> tot then Some (int tot, ps', reset)
                      else if p_write_nonblock p then Some (if got > 0 then int got else err EAGAIN, ps', reset)
                      else Some (0, ps', cx\<lparr>io_progress := got, io_block := True\<rparr>)
     else None)"

definition write_pipe :: "nat \<Rightarrow> bytes \<Rightarrow> bool \<Rightarrow> pipe list \<times> io_cx \<Rightarrow> (int \<times> pipe list \<times> io_cx) option" where
  "write_pipe i data nosignal = pipe_write_from i (length data) nosignal (\<lambda>off n. Some (take n (drop off data)))"

definition write_pipe_fd :: "('m \<Rightarrow> u64 \<Rightarrow> nat \<Rightarrow> bytes option) \<Rightarrow> 'm \<Rightarrow> fd_table \<Rightarrow> u64 \<Rightarrow> u64 \<Rightarrow> u64 \<Rightarrow> pipe list \<times> io_cx \<Rightarrow>
    (int \<times> pipe list \<times> io_cx) option" where
  "write_pipe_fd rd mem t fd buf count = (\<lambda>(ps, cx). case ft_get t (fd_num fd) of
     Some (PipeWrite i) \<Rightarrow>
       pipe_write_from i (min (unat count) MAX_RW_COUNT) False (\<lambda>off n. rd mem (buf + word_of_nat off) n) (ps, cx)
   | _ \<Rightarrow> Some (err EBADF, ps, cx))"

text \<open>\<^verbatim>\<open>next_power_of_two\<close>, and \<^verbatim>\<open>F_SETPIPE_SZ\<close>.\<close>

function pow2_from :: "nat \<Rightarrow> nat \<Rightarrow> nat" where
  "pow2_from n p = (if p \<ge> n \<or> p = 0 then p else pow2_from n (2 * p))"
  by pat_completeness auto
termination
  by (relation "measure (\<lambda>(n, p). n - p)") auto

declare pow2_from.simps [simp del]

definition fcntl_setpipe_sz :: "bool \<Rightarrow> nat \<Rightarrow> u64 \<Rightarrow> pipe list \<Rightarrow> (int \<times> pipe list) option" where
  "fcntl_setpipe_sz priv i arg ps =
     (if i < length ps then
        if unat arg > PIPE_MAX_CAPACITY \<and> \<not> priv then Some (err EPERM, ps)
        else let capacity = pow2_from (min (max (unat arg) 4096) PIPE_MAX_CAPACITY) 1
             in if capacity < length (p_buf (ps ! i)) then Some (err EBUSY, ps)
                else Some (int capacity, ps[i := (ps ! i)\<lparr>p_capacity := capacity\<rparr>])
      else None)"

definition pipe_set_nonblock :: "fd \<Rightarrow> bool \<Rightarrow> pipe list \<Rightarrow> pipe list option" where
  "pipe_set_nonblock d nb ps = (case d of
     PipeRead i \<Rightarrow> at_pipe i (\<lambda>p. p\<lparr>p_read_nonblock := nb\<rparr>) ps
   | PipeWrite i \<Rightarrow> at_pipe i (\<lambda>p. p\<lparr>p_write_nonblock := nb\<rparr>) ps
   | _ \<Rightarrow> Some ps)"

text \<open>The answers of \<^verbatim>\<open>poll\<close> for the two ends: \<^verbatim>\<open>POLLIN\<close> 1, \<^verbatim>\<open>POLLOUT\<close> 4, \<^verbatim>\<open>POLLERR\<close> 8, \<^verbatim>\<open>POLLHUP\<close> 16.\<close>

definition pipe_readiness :: "fd \<Rightarrow> pipe list \<Rightarrow> u32 option" where
  "pipe_readiness d ps = (case d of
     PipeRead i \<Rightarrow> if i < length ps
       then Some (if p_buf (ps ! i) \<noteq> [] then 1 else if p_writers (ps ! i) = 0 then 16 else 0) else None
   | PipeWrite i \<Rightarrow> if i < length ps
       then Some (if p_readers (ps ! i) = 0 then 4 OR 8 else if length (p_buf (ps ! i)) < p_capacity (ps ! i) then 4 else 0) else None
   | _ \<Rightarrow> None)"

text \<open>\<^verbatim>\<open>tee\<close> between two pipes, after its checks of descriptors and flags.\<close>

definition tee_pipes :: "nat \<Rightarrow> nat \<Rightarrow> u64 \<Rightarrow> bool \<Rightarrow> pipe list \<times> io_cx \<Rightarrow> (int \<times> pipe list \<times> io_cx) option" where
  "tee_pipes i j len nonblock = (\<lambda>(ps, cx).
     if i = j then Some (err EINVAL, ps, cx)
     else if len = 0 then Some (0, ps, cx)
     else if i < length ps \<and> j < length ps then
       if p_buf (ps ! i) = [] then
         if p_writers (ps ! i) = 0 then Some (0, ps, cx)
         else if nonblock \<or> p_read_nonblock (ps ! i) then Some (err EAGAIN, ps, cx)
         else Some (0, ps, cx\<lparr>io_block := True\<rparr>)
       else if p_readers (ps ! j) = 0 then Some (err EPIPE, ps, raise_sigpipe cx)
       else let room = p_capacity (ps ! j) - length (p_buf (ps ! j))
            in if room = 0 then
                 if p_write_nonblock (ps ! j) \<or> nonblock then Some (err EAGAIN, ps, cx) else Some (0, ps, cx\<lparr>io_block := True\<rparr>)
               else let n = min (min (unat len) (length (p_buf (ps ! i)))) room
                    in Some (int n, ps[j := (ps ! j)\<lparr>p_buf := p_buf (ps ! j) @ take n (p_buf (ps ! i))\<rparr>], cx)
     else None)"

subsection \<open>Counting descriptors\<close>

definition uses :: "fd \<Rightarrow> fd_table \<Rightarrow> nat" where
  "uses d t = card {n. fmlookup (ft_map t) n = Some d}"

lemma finite_uses [simp]: "finite {n. fmlookup m n = Some d}"
  by (rule finite_subset [of _ "fset (fmdom m)"]) (auto intro: fmdomI)

lemma uses_upd:
  "fmlookup (ft_map t) n = None \<Longrightarrow> uses d (t\<lparr>ft_map := fmupd n x (ft_map t)\<rparr>) = uses d t + (if x = d then 1 else 0)"
proof -
  assume "fmlookup (ft_map t) n = None"
  then have "{k. fmlookup (fmupd n x (ft_map t)) k = Some d}
      = (if x = d then insert n else id) {k. fmlookup (ft_map t) k = Some d}"
    and "n \<notin> {k. fmlookup (ft_map t) k = Some d}" by (auto split: if_splits)
  then show ?thesis by (simp add: uses_def)
qed

lemma uses_cong: "ft_map t' = ft_map t \<Longrightarrow> uses d t' = uses d t"
  by (simp add: uses_def)

lemma uses_drop:
  "ft_map t' = fmdrop n (ft_map t) \<Longrightarrow> uses d t = uses d t' + (if fmlookup (ft_map t) n = Some d then 1 else 0)"
proof -
  assume m: "ft_map t' = fmdrop n (ft_map t)"
  have "{k. fmlookup (ft_map t) k = Some d}
      = (if fmlookup (ft_map t) n = Some d then insert n else id) {k. fmlookup (ft_map t') k = Some d}"
    and "n \<notin> {k. fmlookup (ft_map t') k = Some d}" by (auto simp: m split: if_splits)
  then show ?thesis by (simp add: uses_def)
qed

lemma uses_set_cloexec [simp]: "uses d (set_cloexec n on t) = uses d t"
  by (rule uses_cong) (simp add: set_cloexec_def)

lemma uses_pos: "fmlookup (ft_map t) n = Some d \<Longrightarrow> 0 < uses d t"
  by (auto simp: uses_def card_gt_0_iff)

lemma alloc_uses:
  assumes "alloc_from f mn t = Some (n, t')"
  shows "uses d t' = uses d t + (if f = d then 1 else 0)"
  using assms lowest_free_Some [of "ft_map t" "max mn 0" n] by (auto simp: alloc_from_def uses_upd)

lemma uses_list: "uses d t = length (filter (\<lambda>x. x = d) (map snd (ft_iter t)))"
proof -
  have "length (filter (\<lambda>x. x = d) (map snd (ft_iter t)))
      = length (filter (\<lambda>n. fmlookup (ft_map t) n = Some d) (fm_keys (ft_map t)))"
    unfolding ft_iter_def by (simp add: filter_map comp_def) (rule arg_cong [of _ _ length], rule filter_cong, auto simp: fmlookup_dom_iff)
  also have "\<dots> = card (set (filter (\<lambda>n. fmlookup (ft_map t) n = Some d) (fm_keys (ft_map t))))"
    by (rule distinct_card [symmetric]) simp
  also have "\<dots> = uses d t" unfolding uses_def by (rule arg_cong [of _ _ card]) (auto intro: fmdomI)
  finally show ?thesis by simp
qed

subsection \<open>Reference counts\<close>

fun refs :: "pipe list \<Rightarrow> fd \<Rightarrow> nat" where
  "refs ps (PipeRead i) = (if i < length ps then p_readers (ps ! i) else 0)"
| "refs ps (PipeWrite i) = (if i < length ps then p_writers (ps ! i) else 0)"
| "refs ps _ = 0"

fun in_table :: "pipe list \<Rightarrow> fd \<Rightarrow> bool" where
  "in_table ps (PipeRead i) = (i < length ps)"
| "in_table ps (PipeWrite i) = (i < length ps)"
| "in_table ps _ = True"

lemma is_pipe_end_simps [simp]:
  "is_pipe_end (PipeRead i)" "is_pipe_end (PipeWrite i)" "is_pipe_read (PipeRead i)" "\<not> is_pipe_read (PipeWrite i)"
  by (simp_all add: is_pipe_end_def is_pipe_read_def)

lemma in_table_refs: "0 < refs ps d \<Longrightarrow> in_table ps d"
  by (cases d) (auto split: if_splits)

lemma in_table_cong: "length ps' = length ps \<Longrightarrow> in_table ps' d = in_table ps d"
  by (cases d) auto

lemma in_table_other: "\<not> is_pipe_end d \<Longrightarrow> in_table ps d"
  by (cases d) auto

text \<open>What the reference counting leaves alone.\<close>

definition body :: "pipe \<Rightarrow> bytes \<times> nat" where
  "body p = (p_buf p, p_capacity p)"

lemma bump_pipe_refs:
  assumes "in_table ps f"
  obtains ps' where "bump_pipe f inc ps = Some ps'" "length ps' = length ps" "map body ps' = map body ps"
    "\<And>d. is_pipe_end d \<Longrightarrow> refs ps' d = (if d = f then if inc then refs ps d + 1 else refs ps d - 1 else refs ps d)"
proof (cases f)
  case (PipeRead i)
  let ?q = "\<lambda>p. p\<lparr>p_readers := (if inc then p_readers p + 1 else p_readers p - 1)\<rparr>"
  show thesis
  proof (rule that [of "ps[i := ?q (ps ! i)]"])
    show "map body (ps[i := ?q (ps ! i)]) = map body ps"
      using assms PipeRead by (simp add: map_update body_def list_update_same_conv [THEN iffD2])
    fix d assume "is_pipe_end d"
    with assms PipeRead show "refs (ps[i := ?q (ps ! i)]) d = (if d = f then if inc then refs ps d + 1 else refs ps d - 1 else refs ps d)"
      by (cases d) (auto simp: nth_list_update is_pipe_end_def)
  qed (use assms PipeRead in \<open>simp_all add: at_pipe_def\<close>)
next
  case (PipeWrite i)
  let ?q = "\<lambda>p. p\<lparr>p_writers := (if inc then p_writers p + 1 else p_writers p - 1)\<rparr>"
  show thesis
  proof (rule that [of "ps[i := ?q (ps ! i)]"])
    show "map body (ps[i := ?q (ps ! i)]) = map body ps"
      using assms PipeWrite by (simp add: map_update body_def list_update_same_conv [THEN iffD2])
    fix d assume "is_pipe_end d"
    with assms PipeWrite show "refs (ps[i := ?q (ps ! i)]) d = (if d = f then if inc then refs ps d + 1 else refs ps d - 1 else refs ps d)"
      by (cases d) (auto simp: nth_list_update is_pipe_end_def)
  qed (use assms PipeWrite in \<open>simp_all add: at_pipe_def\<close>)
qed (rule that [of ps]; auto simp: is_pipe_end_def)+

definition occ :: "fd \<Rightarrow> fd list \<Rightarrow> nat" where
  "occ d ds = length (filter (\<lambda>x. x = d) ds)"

lemma occ_simps [simp]: "occ d [] = 0" "occ d (x # xs) = (if x = d then 1 else 0) + occ d xs"
  by (simp_all add: occ_def)

lemma occ_split: "P d \<longleftrightarrow> \<not> Q d \<Longrightarrow> occ d (filter P xs) + occ d (filter Q xs) = occ d xs"
  by (induction xs) auto

lemma bump_all_inc:
  "\<forall>d\<in>set ds. in_table ps d \<Longrightarrow> \<exists>ps'. bump_all ds True ps = Some ps' \<and> length ps' = length ps \<and> map body ps' = map body ps
     \<and> (\<forall>d. is_pipe_end d \<longrightarrow> refs ps' d = refs ps d + occ d ds)"
proof (induction ds arbitrary: ps)
  case (Cons f ds)
  from Cons.prems have "in_table ps f" by simp
  then obtain ps1 where b: "bump_pipe f True ps = Some ps1" "length ps1 = length ps" "map body ps1 = map body ps"
    "\<And>d. is_pipe_end d \<Longrightarrow> refs ps1 d = (if d = f then refs ps d + 1 else refs ps d)"
    by (rule bump_pipe_refs [of ps f True]) auto
  have "\<forall>d\<in>set ds. in_table ps1 d" using Cons.prems in_table_cong [OF b(2)] by simp
  from Cons.IH [OF this] b show ?case by auto
qed simp

lemma bump_all_dec:
  "\<forall>d. is_pipe_end d \<longrightarrow> occ d ds \<le> refs ps d \<Longrightarrow> \<exists>ps'. bump_all ds False ps = Some ps' \<and> length ps' = length ps
     \<and> map body ps' = map body ps \<and> (\<forall>d. is_pipe_end d \<longrightarrow> refs ps' d + occ d ds = refs ps d)"
proof (induction ds arbitrary: ps)
  case (Cons f ds)
  have "in_table ps f"
  proof (cases "is_pipe_end f")
    case True
    then have "occ f (f # ds) \<le> refs ps f" using Cons.prems by blast
    then show ?thesis by (intro in_table_refs) simp
  qed (rule in_table_other)
  then obtain ps1 where b: "bump_pipe f False ps = Some ps1" "length ps1 = length ps" "map body ps1 = map body ps"
    "\<And>d. is_pipe_end d \<Longrightarrow> refs ps1 d = (if d = f then refs ps d - 1 else refs ps d)"
    by (rule bump_pipe_refs [of ps f False]) auto
  have step: "refs ps1 d + (if f = d then 1 else 0) = refs ps d" if "is_pipe_end d" for d
    using b(4) [OF that] Cons.prems [rule_format, OF that] by (auto split: if_splits)
  have "\<forall>d. is_pipe_end d \<longrightarrow> occ d ds \<le> refs ps1 d"
    using step Cons.prems by (fastforce split: if_splits)
  from Cons.IH [OF this] b(1-3) step show ?case by fastforce
qed simp

text \<open>
  One table against the pipe counts: it uses no more than is counted, and a call changes the counts by exactly what
  it changes of the table.
\<close>

definition covered :: "files \<Rightarrow> bool" where
  "covered = (\<lambda>(t, ps). \<forall>d. is_pipe_end d \<longrightarrow> uses d t \<le> refs ps d)"

definition balanced :: "files \<Rightarrow> files \<Rightarrow> bool" where
  "balanced = (\<lambda>(t, ps) (t', ps'). \<forall>d. is_pipe_end d \<longrightarrow> refs ps' d + uses d t = refs ps d + uses d t')"

lemma balanced_refl [simp]: "balanced s s"
  by (cases s) (simp add: balanced_def)

lemma covered_in_table: "covered (t, ps) \<Longrightarrow> fmlookup (ft_map t) n = Some f \<Longrightarrow> in_table ps f"
  using uses_pos [of t n f] in_table_refs [of ps f] in_table_other [of f ps] by (cases "is_pipe_end f") (fastforce simp: covered_def)+

lemma ft_close_uses: "ft_close n t = (r, t') \<Longrightarrow> uses d t = uses d t' + (if r = Some d then 1 else 0)"
  using uses_drop [of t' n t d] by (auto simp: ft_close_def)

lemma close_bump:
  assumes "covered (t, ps)" "ft_close n t = (r, t')"
  shows "\<exists>ps'. (case r of Some f \<Rightarrow> bump_pipe f False ps | None \<Rightarrow> Some ps) = Some ps' \<and> length ps' = length ps
    \<and> map body ps' = map body ps \<and> balanced (t, ps) (t', ps')"
proof (cases r)
  case None
  with ft_close_uses [OF assms(2)] show ?thesis by (simp add: balanced_def)
next
  case (Some f)
  then have look: "fmlookup (ft_map t) n = Some f" using assms(2) by (simp add: ft_close_def)
  obtain ps' where b: "bump_pipe f False ps = Some ps'" "length ps' = length ps" "map body ps' = map body ps"
    "\<And>d. is_pipe_end d \<Longrightarrow> refs ps' d = (if d = f then refs ps d - 1 else refs ps d)"
    by (rule bump_pipe_refs [OF covered_in_table [OF assms(1) look], of False]) auto
  have "0 < refs ps f" if "is_pipe_end f" using assms(1) uses_pos [OF look] that by (fastforce simp: covered_def)
  then have "balanced (t, ps) (t', ps')"
    using b(4) ft_close_uses [OF assms(2)] Some by (auto simp: balanced_def)
  with b Some show ?thesis by auto
qed

lemma add_bump:
  assumes "in_table ps f" "\<And>d. uses d t' = uses d t + (if f = d then 1 else 0)"
  shows "\<exists>ps'. bump_pipe f True ps = Some ps' \<and> length ps' = length ps \<and> map body ps' = map body ps \<and> balanced (t, ps) (t', ps')"
proof -
  obtain ps' where b: "bump_pipe f True ps = Some ps'" "length ps' = length ps" "map body ps' = map body ps"
    "\<And>d. is_pipe_end d \<Longrightarrow> refs ps' d = (if d = f then refs ps d + 1 else refs ps d)"
    by (rule bump_pipe_refs [OF assms(1), of True]) auto
  then have "balanced (t, ps) (t', ps')" using assms(2) by (auto simp: balanced_def)
  with b show ?thesis by auto
qed

lemma balanced_trans: "balanced a b \<Longrightarrow> balanced b c \<Longrightarrow> balanced a c"
  by (cases a; cases b; cases c) (fastforce simp: balanced_def)

subsection \<open>Every call is balanced\<close>

lemma sys_close_balanced:
  assumes "covered (t, ps)" "sys_close n (t, ps) = Some (r, s')"
  shows "balanced (t, ps) s' \<and> map body (snd s') = map body ps"
proof -
  obtain c t' where c: "ft_close n t = (c, t')" by (cases "ft_close n t")
  from close_bump [OF assms(1) c] obtain ps' where
    "(case c of Some f \<Rightarrow> bump_pipe f False ps | None \<Rightarrow> Some ps) = Some ps'" "balanced (t, ps) (t', ps')" "map body ps' = map body ps"
    by blast
  with assms(2) c show ?thesis by (cases c) (auto simp: sys_close_def)
qed

lemma alloc_bump_balanced:
  assumes "in_table ps f" "bump_pipe f True ps = Some ps'" "alloc_from f mn t = Some (n, t')"
  shows "balanced (t, ps) (t', ps') \<and> map body ps' = map body ps"
  using add_bump [OF assms(1), of t' t] alloc_uses [OF assms(3)] assms(2) by auto

lemma sys_dup_balanced:
  assumes "covered (t, ps)" "sys_dup fd (t, ps) = Some (r, s')"
  shows "balanced (t, ps) s' \<and> map body (snd s') = map body ps"
proof (cases "ft_get t (fd_num fd)")
  case None
  with assms(2) show ?thesis by (auto simp: sys_dup_def)
next
  case (Some f)
  then have "in_table ps f" using covered_in_table [OF assms(1)] by (simp add: ft_get_def)
  from alloc_bump_balanced [OF this] assms(2) Some show ?thesis
    by (auto simp: sys_dup_def ft_alloc_def split: option.splits)
qed

lemma balanced_cloexec: "balanced s (t', ps') \<Longrightarrow> balanced s (set_cloexec n on t', ps')"
  by (cases s) (simp add: balanced_def)

lemma fcntl_dupfd_balanced:
  assumes "covered (t, ps)" "fcntl_dupfd fd arg on (t, ps) = Some (r, s')"
  shows "balanced (t, ps) s' \<and> map body (snd s') = map body ps"
proof (cases "ft_get t (fd_num fd)")
  case None
  with assms(2) show ?thesis by (auto simp: fcntl_dupfd_def)
next
  case (Some f)
  then have "in_table ps f" using covered_in_table [OF assms(1)] by (simp add: ft_get_def)
  from alloc_bump_balanced [OF this] assms(2) Some show ?thesis
    by (auto simp: fcntl_dupfd_def split: option.splits if_splits intro: balanced_cloexec)
qed

lemma pidfd_getfd_balanced:
  assumes "covered (tg, ps)" "pidfd_getfd tg fd (t, ps) = Some (r, s')"
  shows "balanced (t, ps) s' \<and> map body (snd s') = map body ps"
proof (cases "ft_get tg (fd_num fd)")
  case None
  with assms(2) show ?thesis by (auto simp: pidfd_getfd_def)
next
  case (Some f)
  then have "in_table ps f" using covered_in_table [OF assms(1)] by (simp add: ft_get_def)
  from alloc_bump_balanced [OF this] assms(2) Some show ?thesis
    by (auto simp: pidfd_getfd_def ft_alloc_def split: option.splits intro: balanced_cloexec)
qed

lemma insert_uses:
  "fmlookup (ft_map t) n = None \<Longrightarrow> uses d (snd (ft_insert n f t)) = uses d t + (if f = d then 1 else 0)"
  using uses_upd [of t n d f] uses_cong [of "snd (ft_insert n f t)" "t\<lparr>ft_map := fmupd n f (ft_map t)\<rparr>" d] by (simp add: ft_insert_def)

lemma sys_dup2_balanced:
  assumes "covered (t, ps)" "sys_dup2 oldfd newfd flags d3 (t, ps) = Some (r, s')"
  shows "balanced (t, ps) s' \<and> map body (snd s') = map body ps"
proof (cases "\<exists>f. ft_get t (fd_num oldfd) = Some f \<and> oldfd \<noteq> newfd")
  case False
  with assms(2) show ?thesis by (auto simp: sys_dup2_def split: if_splits option.splits)
next
  case True
  then obtain f where f: "ft_get t (fd_num oldfd) = Some f" "oldfd \<noteq> newfd" by blast
  obtain c t1 where c: "ft_close (fd_num newfd) t = (c, t1)" by (cases "ft_close (fd_num newfd) t")
  from close_bump [OF assms(1) c] obtain ps1 where
    ps1: "(case c of Some o' \<Rightarrow> bump_pipe o' False ps | None \<Rightarrow> Some ps) = Some ps1" "length ps1 = length ps"
    "map body ps1 = map body ps" "balanced (t, ps) (t1, ps1)" by blast
  have free: "fmlookup (ft_map t1) (fd_num newfd) = None" using c by (auto simp: ft_close_def)
  have "in_table ps f" by (rule covered_in_table [OF assms(1) f(1) [unfolded ft_get_def]])
  then have "in_table ps1 f" using in_table_cong [OF ps1(2)] by simp
  from add_bump [OF this insert_uses [OF free]] obtain ps2 where
    ps2: "bump_pipe f True ps1 = Some ps2" "map body ps2 = map body ps1" "balanced (t1, ps1) (snd (ft_insert (fd_num newfd) f t1), ps2)"
    by blast
  have "s' = (set_cloexec (fd_num newfd) (flags AND O_CLOEXEC \<noteq> 0) (snd (ft_insert (fd_num newfd) f t1)), ps2)"
    using assms(2) f c ps1(1) ps2(1) by (simp add: sys_dup2_def)
  then show ?thesis using balanced_cloexec [OF balanced_trans [OF ps1(4) ps2(3)]] ps1(3) ps2(2) by simp
qed

lemma refs_new_pipe:
  "is_pipe_end d \<Longrightarrow> refs (ps @ [new_pipe nb]) d = refs ps d + (if d = PipeRead (length ps) \<or> d = PipeWrite (length ps) then 1 else 0)"
  by (cases d) (auto simp: new_pipe_def nth_append is_pipe_end_def)

lemma sys_pipe2_balanced:
  assumes "sys_pipe2 wr ptr flags (t, ps) mem = Some (r, s', mem')"
  shows "balanced (t, ps) s' \<and> (\<exists>nb. map body (snd s') = map body ps @ [body (new_pipe nb)])"
proof -
  from assms obtain rfd t1 wfd t2 where a: "ft_alloc (PipeRead (length ps)) t = Some (rfd, t1)" "ft_alloc (PipeWrite (length ps)) t1 = Some (wfd, t2)"
    by (auto simp: sys_pipe2_def Let_def split: option.splits)
  let ?nb = "flags AND O_NONBLOCK \<noteq> 0" and ?on = "flags AND O_CLOEXEC \<noteq> 0"
  have s': "s' = (set_cloexec wfd ?on (set_cloexec rfd ?on t2), ps @ [new_pipe ?nb])"
    using assms a by (auto simp: sys_pipe2_def Let_def split: option.splits)
  have "uses d t2 = uses d t + (if d = PipeRead (length ps) \<or> d = PipeWrite (length ps) then 1 else 0)" for d
    using alloc_uses [of "PipeRead (length ps)" 0 t rfd t1 d] alloc_uses [of "PipeWrite (length ps)" 0 t1 wfd t2 d] a
    by (auto simp: ft_alloc_def)
  then have "balanced (t, ps) (t2, ps @ [new_pipe ?nb])" by (simp add: balanced_def refs_new_pipe)
  then show ?thesis unfolding s' by (auto intro: balanced_cloexec)
qed

lemma close_cloexec_uses:
  assumes "close_cloexec t = (ds, t')"
  shows "uses d t = uses d t' + occ d ds"
proof -
  let ?ks = "sorted_list_of_fset (ft_cloexec t)"
  have "occ d (List.map_filter (fmlookup (ft_map t)) ks) = card {n \<in> set ks. fmlookup (ft_map t) n = Some d}" if "distinct ks" for ks
    using that
  proof (induction ks)
    case (Cons k ks)
    have "{n \<in> set (k # ks). fmlookup (ft_map t) n = Some d}
      = (if fmlookup (ft_map t) k = Some d then insert k else id) {n \<in> set ks. fmlookup (ft_map t) n = Some d}" by auto
    with Cons show ?case by (auto simp: List.map_filter_simps split: option.splits)
  qed (simp add: List.map_filter_simps)
  moreover have "distinct ?ks" by (simp add: sorted_list_of_fset.rep_eq)
  ultimately have o: "occ d ds = card {n \<in> set ?ks. fmlookup (ft_map t) n = Some d}"
    using assms by (auto simp: close_cloexec_def Let_def)
  have "{n. fmlookup (ft_map t) n = Some d} = {n. fmlookup (ft_map t') n = Some d} \<union> {n \<in> set ?ks. fmlookup (ft_map t) n = Some d}"
    and "{n. fmlookup (ft_map t') n = Some d} \<inter> {n \<in> set ?ks. fmlookup (ft_map t) n = Some d} = {}"
    using assms by (auto simp: close_cloexec_def Let_def fmlookup_fold_drop split: if_splits)
  then show ?thesis unfolding uses_def o by (simp add: card_Un_disjoint)
qed

lemma drain_uses: "ft_drain t = (ds, t') \<Longrightarrow> uses d t = uses d t' + occ d ds"
  unfolding uses_list [of d t] by (auto simp: ft_drain_def uses_def occ_def)

lemma close_list_balanced:
  assumes "covered (t, ps)" "\<And>d. uses d t = uses d t' + occ d ds" "bump_all ds False ps = Some ps'"
  shows "balanced (t, ps) (t', ps') \<and> map body ps' = map body ps"
proof -
  have "\<forall>d. is_pipe_end d \<longrightarrow> occ d ds \<le> refs ps d" using assms(1,2) by (fastforce simp: covered_def)
  from bump_all_dec [OF this] assms show ?thesis by (fastforce simp: balanced_def)
qed

lemma fork_refs:
  assumes "covered (t, ps)"
  shows "\<exists>ps'. fork_files (t, ps) = Some (t, ps') \<and> map body ps' = map body ps \<and> (\<forall>d. is_pipe_end d \<longrightarrow> refs ps' d = refs ps d + uses d t)"
proof -
  let ?ds = "map snd (ft_iter t)"
  let ?r = "filter is_pipe_read ?ds" and ?w = "filter (\<lambda>d. is_pipe_end d \<and> \<not> is_pipe_read d) ?ds"
  have look: "in_table ps d" if "d \<in> set ?ds" for d
  proof -
    from that obtain n where "n |\<in>| fmdom (ft_map t)" "d = the (fmlookup (ft_map t) n)" by (auto simp: ft_iter_def)
    then have "fmlookup (ft_map t) n = Some d" by (auto simp: fmlookup_dom_iff)
    then show ?thesis by (rule covered_in_table [OF assms])
  qed
  then have "\<forall>d\<in>set ?r. in_table ps d" by auto
  from bump_all_inc [OF this] obtain ps1 where ps1: "bump_all ?r True ps = Some ps1" "length ps1 = length ps"
    "map body ps1 = map body ps" "\<forall>d. is_pipe_end d \<longrightarrow> refs ps1 d = refs ps d + occ d ?r" by blast
  have "\<forall>d\<in>set ?w. in_table ps1 d" using look in_table_cong [OF ps1(2)] by auto
  from bump_all_inc [OF this] obtain ps2 where ps2: "bump_all ?w True ps1 = Some ps2"
    "map body ps2 = map body ps1" "\<forall>d. is_pipe_end d \<longrightarrow> refs ps2 d = refs ps1 d + occ d ?w" by blast
  have "occ d ?r + occ d ?w = uses d t" if "is_pipe_end d" for d
    using occ_split [of is_pipe_read d "\<lambda>d. is_pipe_end d \<and> \<not> is_pipe_read d" ?ds] that uses_list [of d t] by (simp add: occ_def)
  then show ?thesis using ps1 ps2 by (auto simp: fork_files_def Let_def)
qed

subsection \<open>The whole system of tables and pipes\<close>

definition uses_all :: "fd \<Rightarrow> fd_table list \<Rightarrow> nat" where
  "uses_all d ts = sum_list (map (uses d) ts)"

definition fits :: "pipe list \<Rightarrow> bool" where
  "fits ps \<longleftrightarrow> (\<forall>(b, c)\<in>set (map body ps). length b \<le> c)"

definition files_ok :: "fd_table list \<times> pipe list \<Rightarrow> bool" where
  "files_ok = (\<lambda>(ts, ps). fits ps \<and> (\<forall>d. is_pipe_end d \<longrightarrow> refs ps d = uses_all d ts))"

lemma fits_append: "fits ps \<Longrightarrow> map body ps' = map body ps @ [body (new_pipe nb)] \<Longrightarrow> fits ps'"
  by (auto simp: fits_def body_def new_pipe_def)

lemma fits_cong: "fits ps \<Longrightarrow> map body ps' = map body ps \<Longrightarrow> fits ps'"
  by (simp add: fits_def)

lemma fits_nth: "fits ps \<longleftrightarrow> (\<forall>i<length ps. length (p_buf (ps ! i)) \<le> p_capacity (ps ! i))"
  by (auto simp: fits_def body_def all_set_conv_all_nth)

lemma uses_all_update:
  "k < length ts \<Longrightarrow> uses_all d (ts[k := t']) + uses d (ts ! k) = uses_all d ts + uses d t'"
  unfolding uses_all_def map_update using elem_le_sum_list [of k "map (uses d) ts"]
  by (simp add: sum_list_update)

lemma files_ok_covered: "files_ok (ts, ps) \<Longrightarrow> k < length ts \<Longrightarrow> covered (ts ! k, ps)"
  using elem_le_sum_list [of k "map (uses d) ts" for d] by (simp add: files_ok_def covered_def uses_all_def)

lemma files_ok_balanced:
  assumes "files_ok (ts, ps)" "k < length ts" "balanced (ts ! k, ps) (t', ps')" "fits ps'"
  shows "files_ok (ts[k := t'], ps')"
  unfolding files_ok_def case_prod_conv
proof (intro conjI allI impI)
  fix d assume d: "is_pipe_end d"
  have "refs ps' d + uses d (ts ! k) = uses_all d ts + uses d t'" using assms(1,3) d by (simp add: files_ok_def balanced_def)
  with uses_all_update [OF assms(2), of d t'] show "refs ps' d = uses_all d (ts[k := t'])" by simp
qed (rule assms(4))

text \<open>Steps that move bytes or set modes of a pipe leave the counts alone.\<close>

definition same_ends :: "pipe list \<Rightarrow> pipe list \<Rightarrow> bool" where
  "same_ends ps ps' \<longleftrightarrow> length ps' = length ps
     \<and> (\<forall>i<length ps. p_readers (ps' ! i) = p_readers (ps ! i) \<and> p_writers (ps' ! i) = p_writers (ps ! i))"

lemma same_ends_refs: "same_ends ps ps' \<Longrightarrow> refs ps' d = refs ps d"
  by (cases d) (auto simp: same_ends_def)

lemma same_ends_refl [simp]: "same_ends ps ps"
  by (simp add: same_ends_def)

lemma same_ends_update: "p_readers q = p_readers (ps ! i) \<Longrightarrow> p_writers q = p_writers (ps ! i) \<Longrightarrow> same_ends ps (ps[i := q])"
  by (cases "i < length ps") (auto simp: same_ends_def nth_list_update)

lemma fits_update: "fits ps \<Longrightarrow> length (p_buf q) \<le> p_capacity q \<Longrightarrow> fits (ps[i := q])"
  by (cases "i < length ps") (auto simp: fits_nth nth_list_update)

lemma same_ends_trans: "same_ends a b \<Longrightarrow> same_ends b c \<Longrightarrow> same_ends a c"
  by (auto simp: same_ends_def)

definition quiet :: "pipe list \<Rightarrow> pipe list \<Rightarrow> bool" where
  "quiet ps ps' \<longleftrightarrow> same_ends ps ps' \<and> (fits ps \<longrightarrow> fits ps')"

lemma quiet_refl [simp]: "quiet ps ps"
  by (simp add: quiet_def)

lemma quiet_trans: "quiet a b \<Longrightarrow> quiet b c \<Longrightarrow> quiet a c"
  by (auto simp: quiet_def intro: same_ends_trans)

lemma quiet_update:
  "p_readers q = p_readers (ps ! i) \<Longrightarrow> p_writers q = p_writers (ps ! i) \<Longrightarrow>
   (fits ps \<Longrightarrow> i < length ps \<Longrightarrow> length (p_buf q) \<le> p_capacity q) \<Longrightarrow> quiet ps (ps[i := q])"
  by (cases "i < length ps") (auto simp: quiet_def list_update_beyond intro: same_ends_update fits_update)

lemma read_pipe_quiet: "read_pipe wr i buf count (ps, cx, mem) = Some (r, ps', cx', mem') \<Longrightarrow> quiet ps ps'"
  by (auto simp: read_pipe_def Let_def fits_nth split: if_splits option.splits intro!: quiet_update le_trans [OF diff_le_self])

lemma read_pipe_fd_quiet: "read_pipe_fd wr t fd buf count (ps, cx, mem) = Some (r, ps', cx', mem') \<Longrightarrow> quiet ps ps'"
  by (auto simp: read_pipe_fd_def split: option.splits fd.splits intro: read_pipe_quiet)

lemma readv_quiet: "readv_loop rd wr t fd iov is tot (ps, cx, mem) = Some (r, ps', cx', mem') \<Longrightarrow> quiet ps ps'"
proof (induction "is" arbitrary: tot ps cx mem)
  case (Cons i "is")
  show ?case
  proof (cases "rd mem (iov + i * 16) 8 = None \<or> rd mem (iov + i * 16 + 8) 8 = None")
    case True
    with Cons.prems show ?thesis by (auto simp: Let_def split: option.splits)
  next
    case False
    then obtain bb lb where b: "rd mem (iov + i * 16) 8 = Some bb" "rd mem (iov + i * 16 + 8) 8 = Some lb" by auto
    show ?thesis
    proof (cases "u64_from_le lb = 0")
      case True
      with Cons b show ?thesis by simp
    next
      case False
      with Cons.prems b obtain r1 ps1 cx1 mem1 where
        one: "read_pipe_fd wr t fd (u64_from_le bb) (u64_from_le lb) (ps, cx, mem) = Some (r1, ps1, cx1, mem1)"
        by (auto simp: Let_def split: option.splits)
      have q: "quiet ps ps1" by (rule read_pipe_fd_quiet [OF one])
      from Cons.prems b False one have "ps' = ps1 \<or> readv_loop rd wr t fd iov is (tot + r1) (ps1, cx1, mem1) = Some (r, ps', cx', mem')"
        by (auto simp: Let_def split: if_splits)
      then show ?thesis using q Cons.IH quiet_trans by blast
    qed
  qed
qed auto

lemma pipe_write_quiet:
  assumes "pipe_write_from i tot nosig rdf (ps, cx) = Some (r, ps', cx')" "\<And>off n b. rdf off n = Some b \<Longrightarrow> length b = n"
  shows "quiet ps ps'"
proof -
  let ?p = "ps ! i"
  let ?room = "p_capacity ?p - length (p_buf ?p)"
  let ?n = "if tot - io_progress cx \<le> PIPE_ATOMIC_WRITE \<and> ?room < tot - io_progress cx then 0 else min (tot - io_progress cx) ?room"
  have "ps' = ps \<or> (\<exists>data. rdf (io_progress cx) ?n = Some data \<and> ps' = ps[i := ?p\<lparr>p_buf := p_buf ?p @ data\<rparr>])"
    using assms(1) unfolding pipe_write_from_def Let_def by (auto split: if_splits option.splits)
  moreover have "?n \<le> ?room" by (simp add: min_def)
  ultimately show ?thesis using assms(2) by (fastforce simp: fits_nth intro!: quiet_update)
qed

lemma setpipe_quiet: "fcntl_setpipe_sz priv i arg ps = Some (r, ps') \<Longrightarrow> quiet ps ps'"
  by (auto simp: fcntl_setpipe_sz_def Let_def split: if_splits intro!: quiet_update)

lemma set_nonblock_quiet: "pipe_set_nonblock d nb ps = Some ps' \<Longrightarrow> quiet ps ps'"
  by (auto simp: pipe_set_nonblock_def at_pipe_def fits_nth split: fd.splits if_splits intro!: quiet_update)

lemma tee_quiet: "tee_pipes i j len nb (ps, cx) = Some (r, ps', cx') \<Longrightarrow> quiet ps ps'"
  by (auto simp: tee_pipes_def Let_def fits_nth split: if_splits intro!: quiet_update)

text \<open>
  One call of some process: \<open>k\<close> is its table. Guest memory decides only whether a transfer to it succeeds and which
  bytes come from it, so a step may take any outcome \<open>w\<close> of writing and any source \<open>rdf\<close> that yields as many bytes as
  asked for.
\<close>

inductive fstep :: "fd_table list \<times> pipe list \<Rightarrow> fd_table list \<times> pipe list \<Rightarrow> bool" where
  pipe2: "k < length ts \<Longrightarrow> sys_pipe2 (\<lambda>_ _ _. w) ptr flags (ts ! k, ps) () = Some (r, (t', ps'), m) \<Longrightarrow> fstep (ts, ps) (ts[k := t'], ps')"
| close: "k < length ts \<Longrightarrow> sys_close n (ts ! k, ps) = Some (r, (t', ps')) \<Longrightarrow> fstep (ts, ps) (ts[k := t'], ps')"
| dup: "k < length ts \<Longrightarrow> sys_dup fd (ts ! k, ps) = Some (r, (t', ps')) \<Longrightarrow> fstep (ts, ps) (ts[k := t'], ps')"
| dup2: "k < length ts \<Longrightarrow> sys_dup2 a b flags d3 (ts ! k, ps) = Some (r, (t', ps')) \<Longrightarrow> fstep (ts, ps) (ts[k := t'], ps')"
| dupfd: "k < length ts \<Longrightarrow> fcntl_dupfd fd arg on (ts ! k, ps) = Some (r, (t', ps')) \<Longrightarrow> fstep (ts, ps) (ts[k := t'], ps')"
| getfd: "k < length ts \<Longrightarrow> j < length ts \<Longrightarrow> pidfd_getfd (ts ! j) fd (ts ! k, ps) = Some (r, (t', ps')) \<Longrightarrow> fstep (ts, ps) (ts[k := t'], ps')"
| exec: "k < length ts \<Longrightarrow> exec_close (ts ! k, ps) = Some (t', ps') \<Longrightarrow> fstep (ts, ps) (ts[k := t'], ps')"
| exit: "k < length ts \<Longrightarrow> exit_close (ts ! k, ps) = Some (t', ps') \<Longrightarrow> fstep (ts, ps) (ts[k := t'], ps')"
| fork: "k < length ts \<Longrightarrow> fork_files (ts ! k, ps) = Some (t', ps') \<Longrightarrow> fstep (ts, ps) (ts @ [t'], ps')"
| cloexec: "k < length ts \<Longrightarrow> fstep (ts, ps) (ts[k := set_cloexec n on (ts ! k)], ps)"
| readv: "k < length ts \<Longrightarrow> readv_loop (\<lambda>_. rdf) (\<lambda>_ _ _. w) (ts ! k) fd iov is 0 (ps, cx, ()) = Some (r, ps', cx', m) \<Longrightarrow> fstep (ts, ps) (ts, ps')"
| read: "k < length ts \<Longrightarrow> read_pipe_fd (\<lambda>_ _ _. w) (ts ! k) fd buf count (ps, cx, ()) = Some (r, ps', cx', m) \<Longrightarrow> fstep (ts, ps) (ts, ps')"
| pwrite: "k < length ts \<Longrightarrow> (\<And>a n b. rdf a n = Some b \<Longrightarrow> length b = n) \<Longrightarrow>
    write_pipe_fd (\<lambda>_. rdf) () (ts ! k) fd buf count (ps, cx) = Some (r, ps', cx') \<Longrightarrow> fstep (ts, ps) (ts, ps')"
| tee: "tee_pipes i j len nb (ps, cx) = Some (r, ps', cx') \<Longrightarrow> fstep (ts, ps) (ts, ps')"
| setsize: "fcntl_setpipe_sz priv i arg ps = Some (r, ps') \<Longrightarrow> fstep (ts, ps) (ts, ps')"
| nonblock: "pipe_set_nonblock d nb ps = Some ps' \<Longrightarrow> fstep (ts, ps) (ts, ps')"

lemma files_ok_quiet: "files_ok (ts, ps) \<Longrightarrow> quiet ps ps' \<Longrightarrow> files_ok (ts, ps')"
  by (auto simp: files_ok_def quiet_def same_ends_refs)

lemma files_ok_call:
  assumes "files_ok (ts, ps)" "k < length ts" "balanced (ts ! k, ps) (t', ps') \<and> map body ps' = map body ps"
  shows "files_ok (ts[k := t'], ps')"
proof -
  have "fits ps" using assms(1) by (simp add: files_ok_def)
  with assms(3) have "fits ps'" by (auto intro: fits_cong)
  with assms show ?thesis by (intro files_ok_balanced) auto
qed

lemma exec_close_balanced:
  assumes "covered (t, ps)" "exec_close (t, ps) = Some (t', ps')"
  shows "balanced (t, ps) (t', ps') \<and> map body ps' = map body ps"
proof -
  obtain ds t1 where c: "close_cloexec t = (ds, t1)" by (cases "close_cloexec t")
  with assms(2) have "t' = t1" "bump_all ds False ps = Some ps'" by (auto simp: exec_close_def)
  with close_list_balanced [OF assms(1) close_cloexec_uses [OF c]] show ?thesis by simp
qed

lemma exit_close_balanced:
  assumes "covered (t, ps)" "exit_close (t, ps) = Some (t', ps')"
  shows "balanced (t, ps) (t', ps') \<and> map body ps' = map body ps"
proof -
  obtain ds t1 where c: "ft_drain t = (ds, t1)" by (cases "ft_drain t")
  with assms(2) have "t' = t1" "bump_all ds False ps = Some ps'" by (auto simp: exit_close_def)
  with close_list_balanced [OF assms(1) drain_uses [OF c]] show ?thesis by simp
qed

lemma write_fd_quiet:
  assumes "\<And>a n b. rdf a n = Some b \<Longrightarrow> length b = n" "write_pipe_fd (\<lambda>_. rdf) m t fd buf count (ps, cx) = Some (r, ps', cx')"
  shows "quiet ps ps'"
  using assms(2) by (auto simp: write_pipe_fd_def split: option.splits fd.splits intro: pipe_write_quiet [OF _ assms(1)])

lemma fstep_ok: "fstep s s' \<Longrightarrow> files_ok s \<Longrightarrow> files_ok s'"
proof (induction rule: fstep.induct)
  case (pipe2 k ts w ptr flags ps r t' ps' m)
  have b: "balanced (ts ! k, ps) (t', ps')" and "\<exists>nb. map body ps' = map body ps @ [body (new_pipe nb)]"
    using sys_pipe2_balanced [OF pipe2(2)] by auto
  then have "fits ps'" using pipe2(3) by (auto simp: files_ok_def intro: fits_append)
  with pipe2 b show ?case by (intro files_ok_balanced)
next
  case (close k ts n ps r t' ps')
  show ?case using sys_close_balanced [OF files_ok_covered close(2)] close by (intro files_ok_call) auto
next
  case (dup k ts fd ps r t' ps')
  show ?case using sys_dup_balanced [OF files_ok_covered dup(2)] dup by (intro files_ok_call) auto
next
  case (dup2 k ts a b flags d3 ps r t' ps')
  show ?case using sys_dup2_balanced [OF files_ok_covered dup2(2)] dup2 by (intro files_ok_call) auto
next
  case (dupfd k ts fd arg on ps r t' ps')
  show ?case using fcntl_dupfd_balanced [OF files_ok_covered dupfd(2)] dupfd by (intro files_ok_call) auto
next
  case (getfd k ts j fd ps r t' ps')
  show ?case using pidfd_getfd_balanced [OF files_ok_covered getfd(3)] getfd by (intro files_ok_call) auto
next
  case (exec k ts ps t' ps')
  show ?case using exec_close_balanced [OF files_ok_covered exec(2)] exec by (intro files_ok_call) auto
next
  case (exit k ts ps t' ps')
  show ?case using exit_close_balanced [OF files_ok_covered exit(2)] exit by (intro files_ok_call) auto
next
  case (fork k ts ps t' ps')
  from fork_refs [OF files_ok_covered [OF fork(3,1)]] fork(2) have t': "t' = ts ! k" "map body ps' = map body ps"
    "\<forall>d. is_pipe_end d \<longrightarrow> refs ps' d = refs ps d + uses d (ts ! k)" by auto
  have "fits ps" using fork(3) by (simp add: files_ok_def)
  with t' have "fits ps'" by (auto intro: fits_cong)
  with t' fork(3) show ?case by (simp add: files_ok_def uses_all_def)
next
  case (cloexec k ts ps n on)
  show ?case by (rule files_ok_call [OF cloexec(2,1)]) (simp add: balanced_cloexec)
next
  case (readv k ts rdf w fd iov "is" ps cx r ps' cx' m)
  show ?case by (rule files_ok_quiet [OF readv(3) readv_quiet [OF readv(2)]])
next
  case (read k ts w fd buf count ps cx r ps' cx' m)
  show ?case by (rule files_ok_quiet [OF read(3) read_pipe_fd_quiet [OF read(2)]])
next
  case (pwrite k ts rdf fd buf count ps cx r ps' cx')
  show ?case using files_ok_quiet [OF pwrite(4) write_fd_quiet [OF pwrite(2,3)]] .
next
  case (tee i j len nb ps cx r ps' cx' ts)
  show ?case by (rule files_ok_quiet [OF tee(2) tee_quiet [OF tee(1)]])
next
  case (setsize priv i arg ps r ps' ts)
  show ?case by (rule files_ok_quiet [OF setsize(2) setpipe_quiet [OF setsize(1)]])
next
  case (nonblock d nb ps ps' ts)
  show ?case by (rule files_ok_quiet [OF nonblock(2) set_nonblock_quiet [OF nonblock(1)]])
qed

lemma files_reach_ok: "fstep\<^sup>*\<^sup>* s s' \<Longrightarrow> files_ok s \<Longrightarrow> files_ok s'"
  by (induction rule: rtranclp_induct) (auto intro: fstep_ok)

lemma uses_standard: "is_pipe_end d \<Longrightarrow> uses d with_standard_streams = 0"
  by (cases d) (simp_all add: uses_def with_standard_streams_def is_pipe_end_def)

lemma files_ok_start: "files_ok ([with_standard_streams], [])"
proof -
  have "refs [] d = 0" for d by (cases d) auto
  then show ?thesis by (simp add: files_ok_def fits_def uses_all_def uses_standard)
qed

text \<open>A first pipe.\<close>

definition piped_table :: fd_table where
  "piped_table = \<lparr>ft_map = fmupd 4 (PipeWrite 0) (fmupd 3 (PipeRead 0) (ft_map with_standard_streams)), ft_cloexec = {||}, ft_meta = fmempty\<rparr>"

lemma first_pipe:
  "sys_pipe2 (\<lambda>_ _ _. Some ()) 0 0 (with_standard_streams, []) () = Some (0, (piped_table, [new_pipe False]), ())"
  by (simp add: sys_pipe2_def ft_alloc_def alloc_from_def lowest_free.simps with_standard_streams_def I32_MAX_def Let_def
      set_cloexec_def piped_table_def)

lemma piped_reach: "fstep\<^sup>*\<^sup>* ([with_standard_streams], []) ([piped_table], [new_pipe False])"
  using fstep.pipe2 [of 0 "[with_standard_streams]" "Some ()" 0 0 "[]"] first_pipe by (intro r_into_rtranclp) simp

subsection \<open>One blocking write, re-run until it is done\<close>

text \<open>
  A writer whose call is re-run each time it wakes, and a reader that takes up to a number of bytes in between. The
  reader's memory is the sequence of bytes it has got. \<^verbatim>\<open>service\<close> clears the block flag before each run, and a run
  that leaves it set has no result yet.
\<close>

datatype wop = Rerun | Drain u64

record wsession =
  ws_pipes :: "pipe list"
  ws_cx :: io_cx
  ws_taken :: bytes
  ws_result :: "int option"

fun wstep :: "nat \<Rightarrow> bytes \<Rightarrow> wsession \<Rightarrow> wop \<Rightarrow> wsession" where
  "wstep i data s Rerun =
     (if ws_result s \<noteq> None then s
      else case write_pipe i data False (ws_pipes s, (ws_cx s)\<lparr>io_block := False\<rparr>) of
             None \<Rightarrow> s
           | Some (r, ps', cx') \<Rightarrow>
               s\<lparr>ws_pipes := ps', ws_cx := cx', ws_result := (if io_block cx' then None else Some r)\<rparr>)"
| "wstep i data s (Drain count) =
     (case read_pipe (\<lambda>m _ b. Some (m @ b)) i 0 count (ws_pipes s, \<lparr>io_progress = 0, io_block = False, io_pending = 0\<rparr>, ws_taken s) of
        None \<Rightarrow> s
      | Some (r, ps', cx', m') \<Rightarrow> s\<lparr>ws_pipes := ps', ws_taken := m'\<rparr>)"

definition wstart :: "pipe list \<Rightarrow> io_cx \<Rightarrow> wsession" where
  "wstart ps cx = \<lparr>ws_pipes = ps, ws_cx = cx\<lparr>io_progress := 0\<rparr>, ws_taken = [], ws_result = None\<rparr>"

text \<open>How much of the data has gone into the pipe.\<close>

definition ws_done :: "bytes \<Rightarrow> wsession \<Rightarrow> nat" where
  "ws_done data s = (case ws_result s of None \<Rightarrow> io_progress (ws_cx s) | Some _ \<Rightarrow> length data)"

definition ws_ok :: "nat \<Rightarrow> bytes \<Rightarrow> bytes \<Rightarrow> nat \<Rightarrow> wsession \<Rightarrow> bool" where
  "ws_ok i data b0 cap s \<longleftrightarrow> i < length (ws_pipes s) \<and> 0 < p_readers (ws_pipes s ! i) \<and> \<not> p_write_nonblock (ws_pipes s ! i)
     \<and> p_capacity (ws_pipes s ! i) = cap \<and> length (p_buf (ws_pipes s ! i)) \<le> cap
     \<and> ws_done data s \<le> length data \<and> ws_taken s @ p_buf (ws_pipes s ! i) = b0 @ take (ws_done data s) data
     \<and> ws_result s \<in> {None, Some (int (length data))}
     \<and> (ws_result s = None \<longrightarrow> length data \<le> PIPE_ATOMIC_WRITE \<longrightarrow> io_progress (ws_cx s) = 0)"

definition chunk_size :: "nat \<Rightarrow> nat \<Rightarrow> nat" where
  "chunk_size remaining room = (if remaining \<le> PIPE_ATOMIC_WRITE \<and> room < remaining then 0 else min remaining room)"

lemma write_pipe_run:
  assumes "i < length ps" "0 < p_readers (ps ! i)" "\<not> p_write_nonblock (ps ! i)"
    and "n = chunk_size (length data - io_progress cx) (p_capacity (ps ! i) - length (p_buf (ps ! i)))"
  shows "write_pipe i data False (ps, cx) =
    (let ps' = ps[i := (ps ! i)\<lparr>p_buf := p_buf (ps ! i) @ take n (drop (io_progress cx) data)\<rparr>]
     in if io_progress cx + n \<ge> length data then Some (int (length data), ps', cx\<lparr>io_progress := 0\<rparr>)
        else Some (0, ps', cx\<lparr>io_progress := io_progress cx + n, io_block := True\<rparr>))"
  using assms by (simp add: write_pipe_def pipe_write_from_def chunk_size_def Let_def)

lemma rerun_ok:
  assumes "ws_ok i data b0 cap s"
  shows "ws_ok i data b0 cap (wstep i data s Rerun)"
proof (cases "ws_result s")
  case (Some r)
  then show ?thesis using assms by simp
next
  case None
  let ?p = "ws_pipes s ! i"
  define k where "k = io_progress (ws_cx s)"
  define n where "n = chunk_size (length data - k) (cap - length (p_buf ?p))"
  let ?ps = "(ws_pipes s)[i := ?p\<lparr>p_buf := p_buf ?p @ take n (drop k data)\<rparr>]"
  have A: "i < length (ws_pipes s)" "0 < p_readers ?p" "\<not> p_write_nonblock ?p" "p_capacity ?p = cap" "length (p_buf ?p) \<le> cap"
    "k \<le> length data" "ws_taken s @ p_buf ?p = b0 @ take k data" "length data \<le> PIPE_ATOMIC_WRITE \<longrightarrow> k = 0"
    using assms None by (auto simp: ws_ok_def ws_done_def k_def)
  have n: "n \<le> cap - length (p_buf ?p)" "n \<le> length data - k" by (auto simp: chunk_size_def n_def)
  have t: "take (k + n) data = take k data @ take n (drop k data)" by (simp add: take_add)
  have body: "length (p_buf (?ps ! i)) \<le> cap" "ws_taken s @ p_buf (?ps ! i) = b0 @ take (k + n) data"
    "p_readers (?ps ! i) = p_readers ?p" "p_write_nonblock (?ps ! i) = p_write_nonblock ?p" "p_capacity (?ps ! i) = cap" "length ?ps = length (ws_pipes s)"
    using A n unfolding t append_assoc [symmetric] by (simp_all add: A(7) [symmetric])
  have run: "write_pipe i data False (ws_pipes s, (ws_cx s)\<lparr>io_block := False\<rparr>) =
     (if k + n \<ge> length data then Some (int (length data), ?ps, (ws_cx s)\<lparr>io_block := False, io_progress := 0\<rparr>)
      else Some (0, ?ps, (ws_cx s)\<lparr>io_progress := k + n, io_block := True\<rparr>))"
    using write_pipe_run [of i "ws_pipes s" n data "(ws_cx s)\<lparr>io_block := False\<rparr>"] A(1-4) by (simp add: Let_def k_def [symmetric] n_def [symmetric])
  show ?thesis
  proof (cases "k + n \<ge> length data")
    case True
    then have "take (k + n) data = data" by simp
    with True body run None A(1,2,3) show ?thesis by (simp add: ws_ok_def ws_done_def)
  next
    case False
    have "k + n = 0" if "length data \<le> PIPE_ATOMIC_WRITE"
      using that A(8) False by (simp add: chunk_size_def n_def min_def split: if_splits)
    with False body run None A(1,2,3) n(2) show ?thesis by (simp add: ws_ok_def ws_done_def)
  qed
qed

lemma drain_ok:
  assumes "ws_ok i data b0 cap s"
  shows "ws_ok i data b0 cap (wstep i data s (Drain c))"
proof (cases "p_buf (ws_pipes s ! i) = []")
  case True
  then show ?thesis using assms by (auto simp: read_pipe_def ws_ok_def ws_done_def Let_def)
next
  case False
  let ?b = "p_buf (ws_pipes s ! i)" let ?n = "min (unat c) (length ?b)"
  have i: "i < length (ws_pipes s)" using assms by (simp add: ws_ok_def)
  have eq: "wstep i data s (Drain c) = s\<lparr>ws_pipes := (ws_pipes s)[i := (ws_pipes s ! i)\<lparr>p_buf := drop ?n ?b\<rparr>],
      ws_taken := ws_taken s @ take ?n ?b\<rparr>" using False i by (simp add: read_pipe_def Let_def)
  have "length (drop ?n ?b) \<le> cap" using assms by (auto simp: ws_ok_def)
  moreover have "(ws_taken s @ take ?n ?b) @ drop ?n ?b = ws_taken s @ ?b" by simp
  moreover have "ws_done data (wstep i data s (Drain c)) = ws_done data s" unfolding eq by (simp add: ws_done_def split: option.splits)
  ultimately show ?thesis using assms i unfolding ws_ok_def eq
    by (simp del: append_take_drop_id append.assoc length_drop)
qed

interpretation wsess: machine "wstep i data" "ws_ok i data b0 cap"
proof (unfold_locales, goal_cases)
  case (1 s x)
  then show ?case by (cases x) (simp_all only: rerun_ok drain_ok)
qed

lemma wstart_ok:
  "i < length ps \<Longrightarrow> 0 < p_readers (ps ! i) \<Longrightarrow> \<not> p_write_nonblock (ps ! i) \<Longrightarrow> length (p_buf (ps ! i)) \<le> p_capacity (ps ! i) \<Longrightarrow>
   ws_ok i data (p_buf (ps ! i)) (p_capacity (ps ! i)) (wstart ps cx)"
  by (simp add: ws_ok_def ws_done_def wstart_def)

text \<open>A round in which the reader empties the pipe and the writer runs again moves a whole capacity.\<close>

lemma round_progress:
  assumes "ws_ok i data b0 cap s" "PIPE_ATOMIC_WRITE \<le> cap" "cap \<le> unat c"
  shows "min (length data) (ws_done data s + cap) \<le> ws_done data (wstep i data (wstep i data s (Drain c)) Rerun)
    \<and> (length data \<le> ws_done data s + cap \<longrightarrow> ws_result (wstep i data (wstep i data s (Drain c)) Rerun) \<noteq> None)"
proof -
  let ?s = "wstep i data s (Drain c)"
  have ok: "ws_ok i data b0 cap ?s" by (rule drain_ok [OF assms(1)])
  have same: "ws_result ?s = ws_result s" "ws_cx ?s = ws_cx s" using assms(1) by (auto simp: read_pipe_def ws_ok_def Let_def)
  have "length (p_buf (ws_pipes s ! i)) \<le> unat c" using assms(1,3) by (auto simp: ws_ok_def)
  then have empty: "p_buf (ws_pipes ?s ! i) = []" using assms(1) by (auto simp: read_pipe_def ws_ok_def Let_def min_def)
  show ?thesis
  proof (cases "ws_result s")
    case (Some r)
    then show ?thesis using same by (simp add: ws_done_def)
  next
    case None
    let ?k = "io_progress (ws_cx s)" and ?cx = "(ws_cx ?s)\<lparr>io_block := False\<rparr>"
    let ?n = "chunk_size (length data - ?k) cap"
    have n: "?n = min (length data - ?k) cap" using assms(2) by (auto simp: chunk_size_def)
    have "?k \<le> length data" using assms(1) None by (simp add: ws_ok_def ws_done_def)
    moreover have "write_pipe i data False (ws_pipes ?s, ?cx) =
        (let ps' = (ws_pipes ?s)[i := (ws_pipes ?s ! i)\<lparr>p_buf := p_buf (ws_pipes ?s ! i) @ take ?n (drop (io_progress ?cx) data)\<rparr>]
         in if io_progress ?cx + ?n \<ge> length data then Some (int (length data), ps', ?cx\<lparr>io_progress := 0\<rparr>)
            else Some (0, ps', ?cx\<lparr>io_progress := io_progress ?cx + ?n, io_block := True\<rparr>))"
      using ok empty same by (intro write_pipe_run) (auto simp: ws_ok_def)
    ultimately show ?thesis using None same n by (auto simp: ws_done_def Let_def)
  qed
qed

lemma rounds_done:
  assumes "ws_ok i data b0 cap s" "PIPE_ATOMIC_WRITE \<le> cap" "cap \<le> unat c"
  shows "min (length data) (ws_done data s + n * cap) \<le> ws_done data (run_ops (wstep i data) s (concat (replicate n [Drain c, Rerun])))
    \<and> (0 < n \<longrightarrow> length data \<le> ws_done data s + n * cap \<longrightarrow>
         ws_result (run_ops (wstep i data) s (concat (replicate n [Drain c, Rerun]))) \<noteq> None)"
  using assms(1)
proof (induction n arbitrary: s)
  case 0
  then show ?case by simp
next
  case (Suc n)
  let ?s = "wstep i data (wstep i data s (Drain c)) Rerun"
  have ok: "ws_ok i data b0 cap ?s" by (rule rerun_ok [OF drain_ok [OF Suc.prems]])
  have p: "min (length data) (ws_done data s + cap) \<le> ws_done data ?s"
    "length data \<le> ws_done data s + cap \<longrightarrow> ws_result ?s \<noteq> None" using round_progress [OF Suc.prems assms(2,3)] by auto
  note ih = Suc.IH [OF ok]
  have run: "run_ops (wstep i data) s (concat (replicate (Suc n) [Drain c, Rerun])) = run_ops (wstep i data) ?s (concat (replicate n [Drain c, Rerun]))"
    by simp
  have "min (length data) (ws_done data s + Suc n * cap) \<le> min (length data) (ws_done data ?s + n * cap)"
    using p(1) by (simp add: min_def split: if_splits)
  then show ?case
  proof (cases n)
    case 0
    then show ?thesis using p unfolding run by simp
  next
    case (Suc m)
    then have "0 < n" by simp
    then show ?thesis unfolding run using ih p(1) \<open>min _ _ \<le> min _ _\<close> by (auto simp: min_def split: if_splits)
  qed
qed

subsection \<open>Properties\<close>



text \<open>
  C32. A blocking write is one write however often it is re-run. Take a pipe with a reader, and any interleaving of re-runs of
  one write with reads: the bytes the reader has got followed by those in the pipe are what was in the pipe before,
  followed by a prefix of the data, nothing lost, doubled or reordered; the pipe never holds more than its capacity; the
  call's only possible result is the full length, by which time the prefix is everything; and a write of at most
  \<^verbatim>\<open>PIPE_BUF\<close> bytes goes in whole or not at all.
\<close>

theorem blocking_write_streams:
  assumes "i < length ps" "0 < p_readers (ps ! i)" "\<not> p_write_nonblock (ps ! i)" "length (p_buf (ps ! i)) \<le> p_capacity (ps ! i)"
    and "s = run_ops (wstep i data) (wstart ps cx) ops"
  shows "ws_taken s @ p_buf (ws_pipes s ! i) = p_buf (ps ! i) @ take (ws_done data s) data
    \<and> length (p_buf (ws_pipes s ! i)) \<le> p_capacity (ps ! i)
    \<and> (\<forall>r. ws_result s = Some r \<longrightarrow> r = int (length data) \<and> ws_done data s = length data)
    \<and> (ws_result s = None \<longrightarrow> length data \<le> PIPE_ATOMIC_WRITE \<longrightarrow> ws_done data s = 0)"
proof -
  have "ws_ok i data (p_buf (ps ! i)) (p_capacity (ps ! i)) s"
    unfolding assms(5) by (rule wsess.run_inv [OF wstart_ok [OF assms(1-4)]])
  then show ?thesis by (auto simp: ws_ok_def ws_done_def)
qed

theorem blocking_write_streams_witness:
  "ws_taken (run_ops (wstep 0 [1, 2, 3]) (wstart [new_pipe False] \<lparr>io_progress = 9, io_block = False, io_pending = 0\<rparr>) [Rerun, Drain 2])
      @ p_buf (ws_pipes (run_ops (wstep 0 [1, 2, 3]) (wstart [new_pipe False] \<lparr>io_progress = 9, io_block = False, io_pending = 0\<rparr>) [Rerun, Drain 2]) ! 0)
    = [1, 2, 3]"
  using blocking_write_streams [of 0 "[new_pipe False]", OF _ _ _ _ refl, of "[1, 2, 3]"
      "\<lparr>io_progress = 9, io_block = False, io_pending = 0\<rparr>" "[Rerun, Drain 2]"]
  by (simp add: new_pipe_def PIPE_DEFAULT_CAPACITY_def ws_done_def write_pipe_def pipe_write_from_def PIPE_ATOMIC_WRITE_def
      wstart_def read_pipe_def Let_def)

text \<open>
  C33. A blocked write completes once the reader keeps reading: if the pipe's capacity is at least \<^verbatim>\<open>PIPE_BUF\<close>, as every capacity the
  kernel grants is, then after as many rounds of emptying the pipe and re-running the call as the data has
  capacities, plus one, the call has returned its full length and the reader has, or finds in the pipe, all of it.
\<close>

theorem blocking_write_completes:
  assumes "i < length ps" "0 < p_readers (ps ! i)" "\<not> p_write_nonblock (ps ! i)" "length (p_buf (ps ! i)) \<le> p_capacity (ps ! i)"
    and "PIPE_ATOMIC_WRITE \<le> p_capacity (ps ! i)" "p_capacity (ps ! i) \<le> unat c"
    and "n = length data div p_capacity (ps ! i) + 1"
    and "s = run_ops (wstep i data) (wstart ps cx) (concat (replicate n [Drain c, Rerun]))"
  shows "ws_result s = Some (int (length data)) \<and> ws_taken s @ p_buf (ws_pipes s ! i) = p_buf (ps ! i) @ data"
proof -
  let ?cap = "p_capacity (ps ! i)"
  have start: "ws_ok i data (p_buf (ps ! i)) ?cap (wstart ps cx)" by (rule wstart_ok [OF assms(1-4)])
  have "0 < ?cap" using assms(5) by (simp add: PIPE_ATOMIC_WRITE_def)
  then have "length data \<le> n * ?cap" unfolding assms(7) by (metis Suc_eq_plus1 dividend_less_div_times less_imp_le mult_Suc add.commute)
  with rounds_done [OF start assms(5,6), of n] assms(7) have "ws_result s \<noteq> None" unfolding assms(8) by auto
  moreover have "ws_ok i data (p_buf (ps ! i)) ?cap s" unfolding assms(8) by (rule wsess.run_inv [OF start])
  ultimately show ?thesis by (auto simp: ws_ok_def ws_done_def)
qed

theorem blocking_write_completes_witness:
  "ws_result (run_ops (wstep 0 (replicate 100000 7)) (wstart [new_pipe False] \<lparr>io_progress = 0, io_block = False, io_pending = 0\<rparr>)
      (concat (replicate 2 [Drain 65536, Rerun]))) = Some 100000"
proof -
  have "0 < p_readers ([new_pipe False] ! 0)" "\<not> p_write_nonblock ([new_pipe False] ! 0)"
    "length (p_buf ([new_pipe False] ! 0)) \<le> p_capacity ([new_pipe False] ! 0)"
    "PIPE_ATOMIC_WRITE \<le> p_capacity ([new_pipe False] ! 0)" "p_capacity ([new_pipe False] ! 0) \<le> unat (65536 :: u64)"
    "2 = length (replicate 100000 (7 :: u8)) div p_capacity ([new_pipe False] ! 0) + 1"
    by (simp_all add: new_pipe_def PIPE_DEFAULT_CAPACITY_def PIPE_ATOMIC_WRITE_def)
  from blocking_write_completes [OF _ this refl, THEN conjunct1] show ?thesis
    unfolding length_replicate of_nat_numeral by (simp only: list.size)
qed

text \<open>
  A vectored read from a pipe can lose data. With exactly one segment's worth of bytes in a blocking pipe that still has a
  writer, \<^verbatim>\<open>readv\<close> over two segments takes the bytes out, then asks to block for the second segment: the call is
  re-run later although it has consumed data, and the first bytes are gone from the pipe.
\<close>

theorem readv_loses_data:
  "let p = (new_pipe False)\<lparr>p_buf := [1, 2]\<rparr>;
       rd = (\<lambda>_ a n. Some (if a = 0 \<or> a = 16 then u64_to_le 4096 else u64_to_le 2));
       out = readv_loop rd (\<lambda>_ _ _. Some ()) piped_table 3 0 [0, 1] 0 ([p], \<lparr>io_progress = 0, io_block = False, io_pending = 0\<rparr>, ())
   in out = Some (2, [p\<lparr>p_buf := []\<rparr>], \<lparr>io_progress = 0, io_block = True, io_pending = 0\<rparr>, ())"
proof -
  have f: "ft_get piped_table (fd_num 3) = Some (PipeRead 0)"
    by (simp add: ft_get_def piped_table_def fd_num_def with_standard_streams_def)
  show ?thesis by (simp add: Let_def read_pipe_fd_def f read_pipe_def new_pipe_def)
qed

text \<open>
  A write to a pipe starts from whatever progress the task still has recorded: with a record of at least the length of the new
  write, left by an earlier call that a signal handler interrupted, it reports success and writes nothing.
\<close>

theorem stale_progress_swallows_write:
  assumes "i < length ps" "0 < p_readers (ps ! i)" "data \<noteq> []" "length data \<le> io_progress cx"
  shows "write_pipe i data False (ps, cx) = Some (int (length data), ps, cx\<lparr>io_progress := 0\<rparr>)"
  using assms by (simp add: write_pipe_def pipe_write_from_def Let_def PIPE_ATOMIC_WRITE_def)

theorem stale_progress_swallows_write_witness:
  "write_pipe 0 [5] False ([new_pipe False], \<lparr>io_progress = 65536, io_block = False, io_pending = 0\<rparr>)
    = Some (1, [new_pipe False], \<lparr>io_progress = 0, io_block = False, io_pending = 0\<rparr>)"
  using stale_progress_swallows_write [of 0 "[new_pipe False]" "[5]" "\<lparr>io_progress = 65536, io_block = False, io_pending = 0\<rparr>"]
  by (simp add: new_pipe_def)

text \<open>
  \<^verbatim>\<open>F_DUPFD\<close> can pass the descriptor limit. The limit check counts free numbers below the limit, not those at or above the
  requested minimum: with 0, 2 and 3 open and a limit of 4, duplicating to 3 or above is admitted and returns 4.
\<close>

theorem dupfd_passes_limit:
  "let t = \<lparr>ft_map = fmupd 3 Tty (fmupd 2 Stderr (fmupd 0 Stdin fmempty)), ft_cloexec = {||}, ft_meta = fmempty\<rparr>
   in fd_limit_error (Sysno ''Fcntl'') [0, 0, 3, 0, 0, 0] t 4 [] 1000 = None
      \<and> map_option fst (fcntl_dupfd 0 3 False (t, [])) = Some 4"
proof -
  let ?m = "fmupd (3 :: int) Tty (fmupd 2 Stderr (fmupd 0 Stdin fmempty))"
  have keys: "fm_keys ?m = [0, 2, 3]" by (simp add: fm_keys_upd)
  then have "fcard {|3, 2, 0 :: int|} = 3" using length_fm_keys [of ?m] by simp
  with keys show ?thesis
    by (simp add: fd_limit_error_def fds_wanted_def ONE_FD_def has_room_for_def I32_MAX_def fcntl_dupfd_def fd_num_def ft_get_def
        alloc_from_def lowest_free.simps ft_len_def Let_def)
qed

end
