(* ===== verification/A64_State.thy ===== *)
theory A64_State
  imports Nixvm_Base
begin

text \<open>
  The state of the software aarch64 processor, \<^verbatim>\<open>src/vcpu/interp.rs\<close>: the condition flags, the
  register file with its two readings of register 31 (zero register or stack pointer), the cache
  of code pages instructions are fetched from, the exclusive monitor, and the accessors the
  kernel uses to save and restore a task's context. An \<^verbatim>\<open>i64\<close> of the decoder is the 64-bit
  word that holds it. The debugging aid \<^verbatim>\<open>watch\<close> only prints and is left out.

  Guest memory is a parameter of every operation that touches it: \<open>rd m a n\<close> reads \<open>n\<close> bytes at
  \<open>a\<close> or fails; \<open>wr m a bs\<close> is the memory after a store and, when the store faults, the address
  the fault is attributed to.
\<close>

unbundle bit_operations_syntax

type_synonym u128 = "128 word"

subsection \<open>Instruction fields and outcomes\<close>

text \<open>\<open>(instr >> lo) & mask\<close>, the form in which the decoder reads every field.\<close>

definition fld :: "u32 \<Rightarrow> nat \<Rightarrow> u32 \<Rightarrow> u32" where
  "fld instr lo k = drop_bit lo instr AND k"

definition reg_field :: "u32 \<Rightarrow> nat \<Rightarrow> nat" where
  "reg_field instr lsb = unat (drop_bit lsb instr AND 0x1f)"

datatype step_res = Next | Branched | Syscall | Illegal
  | Breakpoint u16
  | Misaligned u64 bool
  | Fault u64 bool

datatype exit_res = ExSyscall
  | ExMemFault u64 bool
  | ExIllegalInstruction u64
  | ExBreakpoint u64 u64
  | ExMisaligned u64 bool
  | ExInterrupted

subsection \<open>Condition flags\<close>

record flags =
  fl_n :: bool
  fl_z :: bool
  fl_c :: bool
  fl_v :: bool

definition from_nzcv :: "u32 \<Rightarrow> flags" where
  "from_nzcv nzcv =
     \<lparr>fl_n = (nzcv AND 8 \<noteq> 0), fl_z = (nzcv AND 4 \<noteq> 0),
      fl_c = (nzcv AND 2 \<noteq> 0), fl_v = (nzcv AND 1 \<noteq> 0)\<rparr>"

definition nzcv :: "flags \<Rightarrow> u32" where
  "nzcv f = push_bit 3 (of_bool (fl_n f)) OR push_bit 2 (of_bool (fl_z f))
        OR push_bit 1 (of_bool (fl_c f)) OR of_bool (fl_v f)"

subsection \<open>The fetch cache\<close>

definition FETCH_WAYS :: nat where "FETCH_WAYS = 16"
definition NO_PAGE :: u64 where "NO_PAGE = 1"

record fetch_cache =
  fc_tags :: "u64 list"
  fc_pages :: "bytes list"

definition fc_new :: fetch_cache where
  "fc_new = \<lparr>fc_tags = replicate FETCH_WAYS NO_PAGE,
             fc_pages = replicate FETCH_WAYS (replicate 4096 0)\<rparr>"

definition fc_way :: "u64 \<Rightarrow> nat" where
  "fc_way pg = unat (drop_bit 12 pg) mod FETCH_WAYS"

definition fc_clear :: "fetch_cache \<Rightarrow> fetch_cache" where
  "fc_clear fc = fc\<lparr>fc_tags := replicate FETCH_WAYS NO_PAGE\<rparr>"

definition fc_drop :: "u64 \<Rightarrow> fetch_cache \<Rightarrow> fetch_cache" where
  "fc_drop p fc =
     (if fc_tags fc ! fc_way p = p then fc\<lparr>fc_tags := (fc_tags fc)[fc_way p := NO_PAGE]\<rparr> else fc)"

definition fc_invalidate :: "u64 \<Rightarrow> nat \<Rightarrow> fetch_cache \<Rightarrow> fetch_cache" where
  "fc_invalidate addr nbytes fc =
     (let first = addr AND NOT 0xfff;
          last = (addr + (word_of_nat nbytes - 1)) AND NOT 0xfff
      in fc_drop last (fc_drop first fc))"

definition fc_fetch :: "('m \<Rightarrow> u64 \<Rightarrow> nat \<Rightarrow> bytes option) \<Rightarrow> u64 \<Rightarrow> 'm \<Rightarrow> fetch_cache
    \<Rightarrow> fetch_cache \<times> u32 option" where
  "fc_fetch rd pc m fc =
     (let pg = pc AND NOT 0xfff; w = fc_way pg; off = unat (pc AND 0xfff);
          word = (\<lambda>fc. u32_from_le (take 4 (drop off (fc_pages fc ! w))))
      in if fc_tags fc ! w \<noteq> pg
         then case rd m pg 4096 of
                None \<Rightarrow> (fc, map_option u32_from_le (rd m pc 4))
              | Some bs \<Rightarrow>
                  let fc' = fc\<lparr>fc_pages := (fc_pages fc)[w := bs], fc_tags := (fc_tags fc)[w := pg]\<rparr>
                  in (fc', Some (word fc'))
         else (fc, Some (word fc)))"

subsection \<open>The processor\<close>

record a64 =
  rx :: "u64 list"
  rsp :: u64
  rpc :: u64
  tpidr :: u64
  cntvct :: u64
  fpcr :: u64
  fpsr :: u64
  rflags :: flags
  rv :: "u128 list"
  excl_monitor :: bool
  excl_addr :: u64
  dit :: bool
  fetch :: fetch_cache

definition flags_default :: flags where
  "flags_default = \<lparr>fl_n = False, fl_z = False, fl_c = False, fl_v = False\<rparr>"

definition a64_new :: "u64 \<Rightarrow> u64 \<Rightarrow> a64" where
  "a64_new entry stack =
     \<lparr>rx = replicate 31 0, rsp = stack, rpc = entry, tpidr = 0, cntvct = 0, fpcr = 0, fpsr = 0,
      rflags = flags_default, rv = replicate 32 0, excl_monitor = False, excl_addr = 0,
      dit = False, fetch = fc_new\<rparr>"

definition read_x :: "a64 \<Rightarrow> nat \<Rightarrow> u64" where
  "read_x c i = (if i = 31 then 0 else rx c ! i)"

definition write_x :: "nat \<Rightarrow> u64 \<Rightarrow> a64 \<Rightarrow> a64" where
  "write_x i v c = (if i \<noteq> 31 then c\<lparr>rx := (rx c)[i := v]\<rparr> else c)"

definition read_sp :: "a64 \<Rightarrow> nat \<Rightarrow> u64" where
  "read_sp c i = (if i = 31 then rsp c else rx c ! i)"

definition write_sp :: "nat \<Rightarrow> u64 \<Rightarrow> a64 \<Rightarrow> a64" where
  "write_sp i v c = (if i = 31 then c\<lparr>rsp := v\<rparr> else c\<lparr>rx := (rx c)[i := v]\<rparr>)"

definition branch :: "u64 \<Rightarrow> a64 \<Rightarrow> a64 \<times> step_res" where
  "branch offset c = (c\<lparr>rpc := rpc c + offset\<rparr>, Branched)"

definition note_store :: "u64 \<Rightarrow> nat \<Rightarrow> a64 \<Rightarrow> a64" where
  "note_store addr nbytes c =
     c\<lparr>excl_monitor := False, fetch := fc_invalidate addr nbytes (fetch c)\<rparr>"

definition invalidate_fetch :: "a64 \<Rightarrow> a64" where
  "invalidate_fetch c = c\<lparr>fetch := fc_clear (fetch c)\<rparr>"

definition cond_holds :: "a64 \<Rightarrow> u32 \<Rightarrow> bool" where
  "cond_holds c cond =
     (let f = rflags c; k = drop_bit 1 cond;
          r = (if k = 0 then fl_z f
               else if k = 1 then fl_c f
               else if k = 2 then fl_n f
               else if k = 3 then fl_v f
               else if k = 4 then fl_c f \<and> \<not> fl_z f
               else if k = 5 then fl_n f = fl_v f
               else if k = 6 then fl_n f = fl_v f \<and> \<not> fl_z f
               else True)
      in if cond AND 1 = 1 \<and> cond \<noteq> 15 then \<not> r else r)"

subsection \<open>Context accessors\<close>

definition syscall_nr :: "a64 \<Rightarrow> u64" where
  "syscall_nr c = rx c ! 8"

definition syscall_args :: "a64 \<Rightarrow> u64 list" where
  "syscall_args c = map (\<lambda>i. rx c ! i) [0, 1, 2, 3, 4, 5]"

definition set_syscall_ret :: "u64 \<Rightarrow> a64 \<Rightarrow> a64" where
  "set_syscall_ret v c = c\<lparr>rx := (rx c)[0 := v], rpc := rpc c + 4\<rparr>"

definition get_reg :: "a64 \<Rightarrow> nat \<Rightarrow> u64" where
  "get_reg c idx = (if idx < 31 then rx c ! idx else rsp c)"

definition set_reg :: "nat \<Rightarrow> u64 \<Rightarrow> a64 \<Rightarrow> a64" where
  "set_reg idx v c = (if idx < 31 then c\<lparr>rx := (rx c)[idx := v]\<rparr> else c\<lparr>rsp := v\<rparr>)"

definition get_rflags :: "a64 \<Rightarrow> u64" where
  "get_rflags c = push_bit 28 (ucast (nzcv (rflags c))) OR push_bit 24 (of_bool (dit c))"

definition set_rflags :: "u64 \<Rightarrow> a64 \<Rightarrow> a64" where
  "set_rflags v c =
     c\<lparr>rflags := from_nzcv (ucast (drop_bit 28 v)), dit := (drop_bit 24 v AND 1 = 1)\<rparr>"

definition FPCR_WRITABLE :: u64 where "FPCR_WRITABLE = 0x07C80000"
definition FPSR_WRITABLE :: u64 where "FPSR_WRITABLE = 0x0800009F"

definition simd_state :: "a64 \<Rightarrow> bytes" where
  "simd_state c =
     u32_to_le (ucast (fpsr c)) @ u32_to_le (ucast (fpcr c))
     @ concat (map (\<lambda>v. to_le 16 (unat v)) (rv c))"

definition set_simd_state :: "bytes \<Rightarrow> a64 \<Rightarrow> a64" where
  "set_simd_state bs c =
     (if length bs < 8 + 32 * 16 then c
      else let word = (\<lambda>i. u32_from_le (take 4 (drop i bs)))
           in c\<lparr>fpsr := ucast (word 0) AND FPSR_WRITABLE,
                fpcr := ucast (word 4) AND FPCR_WRITABLE,
                rv := map (\<lambda>i. word_of_nat (from_le (take 16 (drop (8 + i * 16) bs))))
                          [0..<length (rv c)]\<rparr>)"

definition set_tls :: "u64 \<Rightarrow> a64 \<Rightarrow> a64" where
  "set_tls v c = c\<lparr>tpidr := v\<rparr>"

definition a64_reset :: "u64 \<Rightarrow> u64 \<Rightarrow> a64 \<Rightarrow> a64" where
  "a64_reset entry sp c =
     c\<lparr>rx := replicate 31 0, rv := replicate 32 0, rsp := sp, rpc := entry, tpidr := 0,
       fpcr := 0, fpsr := 0, rflags := flags_default, excl_monitor := False, dit := False\<rparr>"

subsection \<open>Well-formed processors\<close>

text \<open>
  The shapes Rust's array types give (31 general registers, 32 vector registers, 16 cache ways of
  4096 bytes) and the fields of \<^verbatim>\<open>FPCR\<close> and \<^verbatim>\<open>FPSR\<close> this processor implements.
\<close>

definition fc_ok :: "fetch_cache \<Rightarrow> bool" where
  "fc_ok fc \<longleftrightarrow> length (fc_tags fc) = FETCH_WAYS \<and> length (fc_pages fc) = FETCH_WAYS"

definition a64_ok :: "a64 \<Rightarrow> bool" where
  "a64_ok c \<longleftrightarrow> length (rx c) = 31 \<and> length (rv c) = 32 \<and> fc_ok (fetch c)
     \<and> fpcr c AND NOT FPCR_WRITABLE = 0 \<and> fpsr c AND NOT FPSR_WRITABLE = 0"

named_theorems a64_intros \<open>what keeps a processor well-formed\<close>

lemma fc_ok_keep [simp]: "fc_ok fc_new" "fc_ok fc \<Longrightarrow> fc_ok (fc_clear fc)"
    "fc_ok fc \<Longrightarrow> fc_ok (fc_drop p fc)" "fc_ok fc \<Longrightarrow> fc_ok (fc_invalidate a n fc)"
  by (simp_all add: fc_ok_def fc_new_def fc_clear_def fc_drop_def fc_invalidate_def Let_def)

lemma fc_ok_fetch: "fc_ok fc \<Longrightarrow> fc_fetch rd pc m fc = (fc', r) \<Longrightarrow> fc_ok fc'"
  by (auto simp: fc_fetch_def fc_ok_def Let_def split: if_splits option.splits)

lemma fc_way_less [simp]: "fc_way p < FETCH_WAYS"
  by (simp add: fc_way_def FETCH_WAYS_def)

lemma a64_ok_new [simp]: "a64_ok (a64_new entry stack)"
  by (simp add: a64_ok_def a64_new_def)

lemma a64_ok_write [simp, a64_intros]:
  "a64_ok c \<Longrightarrow> a64_ok (write_x i v c)"
  "a64_ok c \<Longrightarrow> a64_ok (write_sp i v c)"
  "a64_ok c \<Longrightarrow> a64_ok (note_store a n c)"
  "a64_ok c \<Longrightarrow> a64_ok (invalidate_fetch c)"
  "a64_ok c \<Longrightarrow> a64_ok (set_syscall_ret v c)"
  "a64_ok c \<Longrightarrow> a64_ok (set_reg i v c)"
  "a64_ok c \<Longrightarrow> a64_ok (set_rflags u c)"
  "a64_ok c \<Longrightarrow> a64_ok (set_tls v c)"
  "a64_ok c \<Longrightarrow> a64_ok (a64_reset entry sp c)"
  by (simp_all add: a64_ok_def write_x_def write_sp_def note_store_def invalidate_fetch_def
      set_syscall_ret_def set_reg_def set_rflags_def set_tls_def a64_reset_def)

lemma a64_ok_update [simp, a64_intros]:
  "a64_ok c \<Longrightarrow> a64_ok (c\<lparr>rpc := v\<rparr>)" "a64_ok c \<Longrightarrow> a64_ok (c\<lparr>rflags := f\<rparr>)"
  "a64_ok c \<Longrightarrow> a64_ok (c\<lparr>dit := b\<rparr>)" "a64_ok c \<Longrightarrow> a64_ok (c\<lparr>excl_monitor := b\<rparr>)"
  "a64_ok c \<Longrightarrow> a64_ok (c\<lparr>excl_addr := v\<rparr>)" "a64_ok c \<Longrightarrow> a64_ok (c\<lparr>tpidr := v\<rparr>)"
  "a64_ok c \<Longrightarrow> a64_ok (c\<lparr>cntvct := v\<rparr>)" "a64_ok c \<Longrightarrow> a64_ok (c\<lparr>rx := (rx c)[i := v]\<rparr>)"
  "a64_ok c \<Longrightarrow> a64_ok (c\<lparr>rv := (rv c)[i := q]\<rparr>)"
  by (simp_all add: a64_ok_def)

lemma and_not_writable [simp]:
  "w AND FPCR_WRITABLE AND NOT FPCR_WRITABLE = 0" "w AND FPSR_WRITABLE AND NOT FPSR_WRITABLE = 0"
  for w :: u64
  by (simp_all add: and.assoc)

lemma masked_id: "w AND NOT k = 0 \<Longrightarrow> w AND k = w" for w :: u64
  by (rule bit_eqI) (metis bit_and_iff bit_0_eq bit_not_iff bot_apply bot_bool_def)

lemma a64_ok_set_simd [simp, a64_intros]: "a64_ok c \<Longrightarrow> a64_ok (set_simd_state bs c)"
  by (simp add: a64_ok_def set_simd_state_def Let_def and.assoc)

lemma reg_field_less [simp]: "reg_field instr k < 32"
proof -
  have "reg_field instr k = unat (take_bit 5 (drop_bit k instr))"
    by (simp add: reg_field_def take_bit_eq_mask mask_eq_exp_minus_1)
  also have "\<dots> < 2 ^ 5" by (simp only: unsigned_take_bit_eq take_bit_nat_less_exp)
  finally show ?thesis by simp
qed

lemma reg_field_31 [simp]: "reg_field instr k \<noteq> 31 \<Longrightarrow> reg_field instr k < 31"
  using reg_field_less [of instr k] by linarith

subsection \<open>Registers\<close>

lemma read_write_x: "a64_ok c \<Longrightarrow> i < 32 \<Longrightarrow> j < 32 \<Longrightarrow>
    read_x (write_x i v c) j = (if j = 31 then 0 else if j = i then v else read_x c j)"
  by (auto simp: read_x_def write_x_def a64_ok_def)

lemma read_write_sp: "a64_ok c \<Longrightarrow> i < 32 \<Longrightarrow> j < 32 \<Longrightarrow>
    read_sp (write_sp i v c) j = (if j = i then v else read_sp c j)"
  by (auto simp: read_sp_def write_sp_def a64_ok_def)

lemma from_nzcv_nzcv [simp]: "from_nzcv (nzcv f) = f"
  by (cases f; rename_tac a b c d; case_tac a; case_tac b; case_tac c; case_tac d)
    (simp_all add: from_nzcv_def nzcv_def)

lemma set_get_rflags: "set_rflags (get_rflags c) d = d\<lparr>rflags := rflags c, dit := dit c\<rparr>"
proof -
  have "from_nzcv (ucast (drop_bit 28 (get_rflags c))) = rflags c"
    and "(drop_bit 24 (get_rflags c) AND 1 = 1) = dit c"
    by (cases "fl_n (rflags c)"; cases "fl_z (rflags c)"; cases "fl_c (rflags c)";
        cases "fl_v (rflags c)"; cases "dit c"; simp add: get_rflags_def from_nzcv_def nzcv_def)+
  then show ?thesis by (simp add: set_rflags_def)
qed

subsection \<open>Saving and restoring a context\<close>

definition set_pc :: "u64 \<Rightarrow> a64 \<Rightarrow> a64" where
  "set_pc v c = c\<lparr>rpc := v\<rparr>"

lemma take_drop_concat:
  "(\<And>x. x \<in> set xs \<Longrightarrow> length x = n) \<Longrightarrow> i < length xs \<Longrightarrow> take n (drop (i * n) (concat xs)) = xs ! i"
proof (induction xs arbitrary: i)
  case (Cons x xs)
  then show ?case by (cases i) (auto simp: Cons.prems)
qed simp

lemma ucast_u32_masked:
  fixes w k :: u64
  assumes "w AND NOT k = 0" "k < 2 ^ 32"
  shows "ucast (ucast w :: u32) = w"
proof -
  have "w = w AND k" using masked_id [OF assms(1)] by simp
  then have "w \<le> k" by (metis word_and_le1)
  from this assms(2) have "w < 2 ^ 32" by (rule le_less_trans)
  then have "unat w < 2 ^ 32" by (simp add: word_less_nat_alt)
  then have "take_bit 32 w = w"
    by (simp add: word_unat_eq_iff unsigned_take_bit_eq take_bit_nat_eq_self)
  then show ?thesis by (simp add: unsigned_ucast_eq)
qed

lemma set_get_simd:
  assumes "a64_ok c" "a64_ok d"
  shows "set_simd_state (simd_state c) d = d\<lparr>fpsr := fpsr c, fpcr := fpcr c, rv := rv c\<rparr>"
proof -
  let ?vs = "concat (map (\<lambda>v. to_le 16 (unat v)) (rv c))"
  have lv: "length (rv c) = 32" "length (rv d) = 32" using assms by (auto simp: a64_ok_def)
  have "length ?vs = (\<Sum>v\<leftarrow>rv c. 16)" by (simp add: length_concat comp_def)
  then have len: "length ?vs = 512" using lv by (simp add: sum_list_triv)
  have fp: "ucast (ucast (fpsr c) :: u32) = fpsr c" "ucast (ucast (fpcr c) :: u32) = fpcr c"
    using assms(1) ucast_u32_masked [of "fpsr c" FPSR_WRITABLE] ucast_u32_masked [of "fpcr c" FPCR_WRITABLE]
    by (auto simp: a64_ok_def FPSR_WRITABLE_def FPCR_WRITABLE_def)
  have msk: "fpsr c AND FPSR_WRITABLE = fpsr c" "fpcr c AND FPCR_WRITABLE = fpcr c"
    using assms(1) by (auto simp: a64_ok_def masked_id)
  have el: "word_of_nat (from_le (take 16 (drop (8 + i * 16) (simd_state c)))) = rv c ! i" if "i < 32" for i
  proof -
    have "take 16 (drop (8 + i * 16) (simd_state c)) = take 16 (drop (i * 16) ?vs)"
      by (simp add: simd_state_def)
    also have "\<dots> = to_le 16 (unat (rv c ! i))"
      using that lv by (subst take_drop_concat) auto
    finally show ?thesis
      using unsigned_less [of "rv c ! i", where 'a = nat] by (simp add: from_le_to_le)
  qed
  have "map (\<lambda>i. word_of_nat (from_le (take 16 (drop (8 + i * 16) (simd_state c))))) [0..<length (rv d)] = rv c"
    using el lv by (intro nth_equalityI) auto
  moreover have "\<not> length (simd_state c) < 8 + 32 * 16"
    using len by (simp add: simd_state_def)
  ultimately show ?thesis
    by (simp add: set_simd_state_def Let_def) (simp add: simd_state_def fp msk)
qed

lemma set_get_regs:
  assumes "a64_ok c" "a64_ok d"
  shows "fold (\<lambda>i. set_reg i (get_reg c i)) [0..<32] d = d\<lparr>rx := rx c, rsp := rsp c\<rparr>"
proof -
  have l: "length (rx c) = 31" "length (rx d) = 31" using assms by (auto simp: a64_ok_def)
  have step: "n \<le> 31 \<Longrightarrow> fold (\<lambda>i. set_reg i (get_reg c i)) [0..<n] d = d\<lparr>rx := take n (rx c) @ drop n (rx d)\<rparr>" for n
  proof (induction n)
    case (Suc n)
    then have "(take n (rx c) @ drop n (rx d))[n := rx c ! n] = take (Suc n) (rx c) @ drop (Suc n) (rx d)"
      using l by (simp add: list_update_append take_Suc_conv_app_nth Cons_nth_drop_Suc [symmetric])
    with Suc show ?case by (simp add: set_reg_def get_reg_def)
  qed simp
  have "[0..<32] = [0..<31] @ [31::nat]" by (simp add: upt_rec)
  then show ?thesis using step [of 31] l by (simp add: set_reg_def get_reg_def)
qed

text \<open>
  C13. Reading a task's context through the accessors and writing it back into another processor
  gives that processor the same general registers, stack pointer, program counter, flags and
  floating-point state: saving a context on the signal frame and restoring it loses nothing.
\<close>

theorem context_roundtrip:
  assumes "a64_ok c" "a64_ok d"
  shows "set_simd_state (simd_state c) (set_rflags (get_rflags c) (set_pc (rpc c)
      (fold (\<lambda>i. set_reg i (get_reg c i)) [0..<32] d)))
    = c\<lparr>tpidr := tpidr d, cntvct := cntvct d, excl_monitor := excl_monitor d, excl_addr := excl_addr d, fetch := fetch d\<rparr>"
proof -
  let ?d1 = "fold (\<lambda>i. set_reg i (get_reg c i)) [0..<32] d"
  have d1: "?d1 = d\<lparr>rx := rx c, rsp := rsp c\<rparr>" by (rule set_get_regs [OF assms])
  have "a64_ok (set_rflags (get_rflags c) (set_pc (rpc c) ?d1))"
    using assms by (simp add: d1 set_pc_def a64_ok_def set_rflags_def)
  then show ?thesis
    unfolding set_get_simd [OF assms(1)] by (simp add: set_get_simd [OF assms(1)] set_get_rflags set_pc_def d1)
qed

theorem context_roundtrip_witness:
  "set_simd_state (simd_state (a64_new 0x1000 0x8000)) (set_rflags (get_rflags (a64_new 0x1000 0x8000))
      (set_pc (rpc (a64_new 0x1000 0x8000))
      (fold (\<lambda>i. set_reg i (get_reg (a64_new 0x1000 0x8000) i)) [0..<32] (set_tls 7 (a64_new 0 0)))))
    = (a64_new 0x1000 0x8000)\<lparr>tpidr := 7\<rparr>"
  by (subst context_roundtrip [of "a64_new 0x1000 0x8000" "set_tls 7 (a64_new 0 0)"])
    (simp_all, simp add: set_tls_def a64_new_def)

end
