(* ===== verification/A64_Alu.thy ===== *)
theory A64_Alu
  imports A64_State
begin

text \<open>
  Integer data processing of the aarch64 interpreter, \<^verbatim>\<open>src/vcpu/interp/alu.rs\<close> (and the
  CRC-32 step of \<^verbatim>\<open>crypto.rs\<close>): the two encoding groups \<open>exec_dp_imm\<close> and \<open>exec_dp_reg\<close>,
  one definition per class of instruction, and the arithmetic they share. An unallocated encoding
  is the outcome \<open>Illegal\<close> and leaves the processor as it was. Shift amounts, bit counts and
  element sizes are naturals; every value the program computes with is a word.
\<close>

unbundle bit_operations_syntax

subsection \<open>Machine arithmetic of the Rust library\<close>

definition leading_zeros :: "u64 \<Rightarrow> nat" where
  "leading_zeros v = length (takeWhile Not (rev (map (bit v) [0..<64])))"

definition ilog2 :: "u32 \<Rightarrow> nat" where
  "ilog2 x = length (dropWhile Not (rev (map (bit x) [0..<32]))) - 1"

definition swap_bytes64 :: "u64 \<Rightarrow> u64" where
  "swap_bytes64 v = word_of_nat (from_le (rev (to_le 8 (unat v))))"

definition swap_bytes32 :: "u32 \<Rightarrow> u32" where
  "swap_bytes32 v = word_of_nat (from_le (rev (to_le 4 (unat v))))"

definition trunc_div :: "int \<Rightarrow> int \<Rightarrow> int" where
  "trunc_div a b = sgn a * sgn b * (\<bar>a\<bar> div \<bar>b\<bar>)"

subsection \<open>Width and mask helpers\<close>

definition mask_sf :: "u64 \<Rightarrow> bool \<Rightarrow> u64" where
  "mask_sf v sf = (if sf then v else v AND 0xffffffff)"

definition sign_extend :: "u64 \<Rightarrow> nat \<Rightarrow> u64" where
  "sign_extend v n = signed_drop_bit (64 - n) (push_bit (64 - n) v)"

definition ones :: "nat \<Rightarrow> u64" where
  "ones n = (if n \<ge> 64 then - 1 else push_bit n 1 - 1)"

definition width_of :: "bool \<Rightarrow> nat" where
  "width_of sf = (if sf then 64 else 32)"

definition shift_reg :: "u64 \<Rightarrow> u32 \<Rightarrow> nat \<Rightarrow> bool \<Rightarrow> u64" where
  "shift_reg v shift_type amount sf =
     (if sf
      then if shift_type = 0 then push_bit amount v
           else if shift_type = 1 then drop_bit amount v
           else if shift_type = 2 then signed_drop_bit amount v
           else word_rotr amount v
      else let v = ucast v :: u32
           in ucast (if shift_type = 0 then push_bit amount v
                     else if shift_type = 1 then drop_bit amount v
                     else if shift_type = 2 then signed_drop_bit amount v
                     else word_rotr amount v))"

definition rbit :: "u64 \<Rightarrow> nat \<Rightarrow> u64" where
  "rbit v width = (if width = 64 then word_reverse v else ucast (word_reverse (ucast v :: u32)))"

definition rev16 :: "u64 \<Rightarrow> nat \<Rightarrow> u64" where
  "rev16 v width =
     (let r = push_bit 8 (v AND 0x00ff00ff00ff00ff) OR (drop_bit 8 v AND 0x00ff00ff00ff00ff)
      in if width = 64 then r else r AND 0xffffffff)"

definition rev32 :: "u64 \<Rightarrow> u64" where
  "rev32 v = ucast (swap_bytes32 (ucast v)) OR push_bit 32 (ucast (swap_bytes32 (ucast (drop_bit 32 v))))"

definition cls :: "u64 \<Rightarrow> nat \<Rightarrow> nat" where
  "cls v width =
     (let x = (if width = 64 then v else push_bit 32 v OR 0xffffffff);
          y = x XOR push_bit 1 x;
          y = (if width = 64 then y else y OR 1)
      in min (leading_zeros y) (width - 1))"

definition udiv :: "u64 \<Rightarrow> u64 \<Rightarrow> bool \<Rightarrow> u64" where
  "udiv a b sf =
     (if sf then if b = 0 then 0 else a div b
      else let a = ucast a :: u32; b = ucast b :: u32 in if b = 0 then 0 else ucast (a div b))"

definition sdiv :: "u64 \<Rightarrow> u64 \<Rightarrow> bool \<Rightarrow> u64" where
  "sdiv a b sf =
     (if sf then if b = 0 then 0 else word_of_int (trunc_div (sint a) (sint b))
      else let a = ucast a :: u32; b = ucast b :: u32
           in if b = 0 then 0 else ucast (word_of_int (trunc_div (sint a) (sint b)) :: u32))"

definition extend_reg :: "u64 \<Rightarrow> u32 \<Rightarrow> nat \<Rightarrow> u64" where
  "extend_reg v opt shift =
     push_bit shift
       (if opt = 0 then v AND 0xff
        else if opt = 1 then v AND 0xffff
        else if opt = 2 then v AND 0xffffffff
        else if opt = 4 then sign_extend v 8
        else if opt = 5 then sign_extend v 16
        else if opt = 6 then sign_extend v 32
        else v)"

subsection \<open>Bit masks\<close>

definition ror_val :: "u64 \<Rightarrow> nat \<Rightarrow> nat \<Rightarrow> u64" where
  "ror_val v r sz =
     (let v = v AND ones sz; r = r mod sz
      in if r = 0 then v else (drop_bit r v OR push_bit (sz - r) v) AND ones sz)"

text \<open>
  The loop of \<^verbatim>\<open>replicate\<close>. Its element size is at least 2 wherever it is called; the guard
  against 0 only makes the recursion wide.
\<close>

function replicate_loop :: "u64 \<Rightarrow> nat \<Rightarrow> nat \<Rightarrow> nat \<Rightarrow> u64 \<Rightarrow> u64" where
  "replicate_loop pat esize width i result =
     (if i < width \<and> 0 < esize
      then replicate_loop pat esize width (i + esize) (result OR push_bit i pat)
      else result)"
  by auto
termination by (relation "measure (\<lambda>(pat, esize, width, i, result). width - i)") auto

declare replicate_loop.simps [simp del]

definition replicate_bits :: "u64 \<Rightarrow> nat \<Rightarrow> nat \<Rightarrow> u64" where
  "replicate_bits pattern esize width = replicate_loop (pattern AND ones esize) esize width 0 0"

definition decode_bit_masks :: "u32 \<Rightarrow> u32 \<Rightarrow> u32 \<Rightarrow> nat \<Rightarrow> bool \<Rightarrow> (u64 \<times> u64) option" where
  "decode_bit_masks n imms immr width immediate =
     (let x = push_bit 6 n OR (NOT imms AND 0x3f)
      in if x = 0 then None
         else let len = ilog2 x
              in if len < 1 then None
                 else let levels = push_bit len 1 - 1
                      in if immediate \<and> imms AND levels = levels then None
                         else let s = imms AND levels; r = immr AND levels;
                                  diff = (s - r) AND levels; esize = 2 ^ len;
                                  wmask = replicate_bits (ror_val (ones (unat s + 1)) (unat r) esize) esize width;
                                  tmask = replicate_bits (ones (unat diff + 1)) esize width
                              in Some (wmask, tmask))"

subsection \<open>Flags\<close>

definition set_nz :: "u64 \<Rightarrow> bool \<Rightarrow> a64 \<Rightarrow> a64" where
  "set_nz r sf c =
     (let top = (if sf then 63 else 31)
      in c\<lparr>rflags := \<lparr>fl_n = (drop_bit top r AND 1 = 1), fl_z = (r = 0), fl_c = False, fl_v = False\<rparr>\<rparr>)"

definition add_with_carry_flags :: "u64 \<Rightarrow> u64 \<Rightarrow> bool \<Rightarrow> bool \<Rightarrow> a64 \<Rightarrow> a64 \<times> u64" where
  "add_with_carry_flags a b carry sf c =
     (if sf
      then let wide = ucast a + ucast b + of_bool carry :: u128; r = ucast wide :: u64
           in (c\<lparr>rflags := \<lparr>fl_n = (drop_bit 63 r AND 1 = 1), fl_z = (r = 0),
                            fl_c = (drop_bit 64 wide \<noteq> 0),
                            fl_v = (drop_bit 63 ((a XOR r) AND (b XOR r)) = 1)\<rparr>\<rparr>, r)
      else let a = ucast a :: u32; b = ucast b :: u32;
               wide = ucast a + ucast b + of_bool carry :: u64; r = ucast wide :: u32
           in (c\<lparr>rflags := \<lparr>fl_n = (drop_bit 31 r AND 1 = 1), fl_z = (r = 0),
                            fl_c = (drop_bit 32 wide \<noteq> 0),
                            fl_v = (drop_bit 31 ((a XOR r) AND (b XOR r)) = 1)\<rparr>\<rparr>, ucast r))"

definition addsub_flags :: "u64 \<Rightarrow> u64 \<Rightarrow> bool \<Rightarrow> bool \<Rightarrow> a64 \<Rightarrow> a64 \<times> u64" where
  "addsub_flags a b sub sf c =
     (if sub then add_with_carry_flags a (NOT b) True sf c else add_with_carry_flags a b False sf c)"

subsection \<open>Data processing, immediate\<close>

definition dp_adr :: "u32 \<Rightarrow> a64 \<Rightarrow> a64 \<times> step_res" where
  "dp_adr instr c =
     (let rd = reg_field instr 0; sf = (drop_bit 31 instr = 1);
          immlo = ucast (fld instr 29 3); immhi = ucast (fld instr 5 0x7ffff);
          imm = sign_extend (push_bit 2 immhi OR immlo) 21;
          r = (if sf then (rpc c AND NOT 0xfff) + push_bit 12 imm else rpc c + imm)
      in (write_x rd r c, Next))"

definition dp_addsub_imm :: "u32 \<Rightarrow> a64 \<Rightarrow> a64 \<times> step_res" where
  "dp_addsub_imm instr c =
     (let rd = reg_field instr 0; rn = reg_field instr 5; sf = (drop_bit 31 instr = 1);
          sub = (fld instr 30 1 = 1); s = (fld instr 29 1 = 1);
          imm12 = ucast (fld instr 10 0xfff);
          imm = (if fld instr 22 1 = 1 then push_bit 12 imm12 else imm12);
          a = read_sp c rn
      in if s then let (c, r) = addsub_flags a imm sub sf c in (write_x rd r c, Next)
         else let r = (if sub then a - imm else a + imm) in (write_sp rd (mask_sf r sf) c, Next))"

text \<open>The three bitwise operations an \<^verbatim>\<open>opc\<close> selects (\<open>0\<close> and \<open>3\<close> both AND).\<close>

definition logic_op :: "u32 \<Rightarrow> u64 \<Rightarrow> u64 \<Rightarrow> u64" where
  "logic_op opc a b = (if opc = 0 \<or> opc = 3 then a AND b else if opc = 1 then a OR b else a XOR b)"

definition dp_logic_imm :: "u32 \<Rightarrow> a64 \<Rightarrow> a64 \<times> step_res" where
  "dp_logic_imm instr c =
     (let rd = reg_field instr 0; rn = reg_field instr 5; sf = (drop_bit 31 instr = 1);
          n = fld instr 22 1
      in if \<not> sf \<and> n = 1 then (c, Illegal)
         else let immr = fld instr 16 0x3f; imms = fld instr 10 0x3f
              in case decode_bit_masks n imms immr (width_of sf) True of
                   None \<Rightarrow> (c, Illegal)
                 | Some (imm, _) \<Rightarrow>
                     let a = read_x c rn; opc = fld instr 29 3; r = mask_sf (logic_op opc a imm) sf
                     in if opc = 3 then (write_x rd r (set_nz r sf c), Next)
                        else (write_sp rd r c, Next))"

definition dp_movewide :: "u32 \<Rightarrow> a64 \<Rightarrow> a64 \<times> step_res" where
  "dp_movewide instr c =
     (let rd = reg_field instr 0; sf = (drop_bit 31 instr = 1);
          opc = fld instr 29 3; hw = fld instr 21 3
      in if opc = 1 \<or> (\<not> sf \<and> hw > 1) then (c, Illegal)
         else let shift = unat hw * 16; v = push_bit shift (ucast (fld instr 5 0xffff)) :: u64;
                  r = (if opc = 0 then NOT v
                       else if opc = 2 then v
                       else (read_x c rd AND NOT (push_bit shift 0xffff)) OR v)
              in (write_x rd (mask_sf r sf) c, Next))"

definition dp_bitfield :: "u32 \<Rightarrow> a64 \<Rightarrow> a64 \<times> step_res" where
  "dp_bitfield instr c =
     (let rd = reg_field instr 0; rn = reg_field instr 5; sf = (drop_bit 31 instr = 1);
          opc = fld instr 29 3; n = fld instr 22 1; immr = fld instr 16 0x3f; imms = fld instr 10 0x3f
      in if opc = 3 \<or> (n = 1) \<noteq> sf \<or> (\<not> sf \<and> (immr OR imms) AND 0x20 \<noteq> 0) then (c, Illegal)
         else case decode_bit_masks n imms immr (width_of sf) False of
                None \<Rightarrow> (c, Illegal)
              | Some (wmask, tmask) \<Rightarrow>
                  let src = read_x c rn; bt = ror_val src (unat immr) (width_of sf) AND wmask;
                      r = (if opc = 0
                           then let top = (if drop_bit (unat imms) src AND 1 = 1 then ones (width_of sf) else 0)
                                in (top AND NOT tmask) OR (bt AND tmask)
                           else if opc = 1
                           then let dst = read_x c rd
                                in (dst AND NOT tmask) OR (((dst AND NOT wmask) OR bt) AND tmask)
                           else bt AND tmask)
                  in (write_x rd (mask_sf r sf) c, Next))"

definition dp_extr :: "u32 \<Rightarrow> a64 \<Rightarrow> a64 \<times> step_res" where
  "dp_extr instr c =
     (let rd = reg_field instr 0; rn = reg_field instr 5; sf = (drop_bit 31 instr = 1);
          n = fld instr 22 1; op21 = fld instr 29 3; o0 = fld instr 21 1; imms = fld instr 10 0x3f
      in if op21 \<noteq> 0 \<or> o0 \<noteq> 0 \<or> (n = 1) \<noteq> sf \<or> (\<not> sf \<and> imms \<ge> 32) then (c, Illegal)
         else let rm = reg_field instr 16; hi = read_x c rn; lo = read_x c rm;
                  r = (if sf
                       then if imms = 0 then lo
                            else drop_bit (unat imms) lo OR push_bit (64 - unat imms) hi
                       else let v = push_bit 32 (hi AND 0xffffffff) OR (lo AND 0xffffffff)
                            in drop_bit (unat imms) v AND 0xffffffff)
              in (write_x rd r c, Next))"

definition exec_dp_imm :: "u32 \<Rightarrow> a64 \<Rightarrow> a64 \<times> step_res" where
  "exec_dp_imm instr c =
     (let k = fld instr 23 7
      in if k = 0 \<or> k = 1 then dp_adr instr c
         else if k = 2 then dp_addsub_imm instr c
         else if k = 4 then dp_logic_imm instr c
         else if k = 5 then dp_movewide instr c
         else if k = 6 then dp_bitfield instr c
         else if k = 3 then (c, Illegal)
         else dp_extr instr c)"

subsection \<open>Data processing, register\<close>

definition dp_logic_reg :: "u32 \<Rightarrow> a64 \<Rightarrow> a64 \<times> step_res" where
  "dp_logic_reg instr c =
     (let sf = (drop_bit 31 instr = 1); rd = reg_field instr 0; rn = reg_field instr 5;
          rm = reg_field instr 16; imm6 = fld instr 10 0x3f
      in if \<not> sf \<and> imm6 \<ge> 32 then (c, Illegal)
         else let b = shift_reg (read_x c rm) (fld instr 22 3) (unat imm6) sf;
                  b = (if fld instr 21 1 = 1 then mask_sf (NOT b) sf else b);
                  a = read_x c rn; opc = fld instr 29 3; r = mask_sf (logic_op opc a b) sf;
                  c = (if opc = 3 then set_nz r sf c else c)
              in (write_x rd r c, Next))"

definition dp_addsub_shifted :: "u32 \<Rightarrow> a64 \<Rightarrow> a64 \<times> step_res" where
  "dp_addsub_shifted instr c =
     (let sf = (drop_bit 31 instr = 1); rd = reg_field instr 0; rn = reg_field instr 5;
          rm = reg_field instr 16; sub = (fld instr 30 1 = 1); s = (fld instr 29 1 = 1);
          shift = fld instr 22 3; imm6 = fld instr 10 0x3f
      in if shift = 3 \<or> (\<not> sf \<and> imm6 \<ge> 32) then (c, Illegal)
         else let a = read_x c rn; b = shift_reg (read_x c rm) shift (unat imm6) sf;
                  (c, r) = (if s then addsub_flags a b sub sf c
                            else if sub then (c, mask_sf (a - b) sf)
                            else (c, mask_sf (a + b) sf))
              in (write_x rd r c, Next))"

definition dp_addsub_extended :: "u32 \<Rightarrow> a64 \<Rightarrow> a64 \<times> step_res" where
  "dp_addsub_extended instr c =
     (let sf = (drop_bit 31 instr = 1); rd = reg_field instr 0; rn = reg_field instr 5;
          rm = reg_field instr 16; sub = (fld instr 30 1 = 1); s = (fld instr 29 1 = 1);
          imm3 = fld instr 10 7
      in if fld instr 22 3 \<noteq> 0 \<or> imm3 > 4 then (c, Illegal)
         else let a = read_sp c rn; b = extend_reg (read_x c rm) (fld instr 13 7) (unat imm3)
              in if s then let (c, r) = addsub_flags a b sub sf c in (write_x rd r c, Next)
                 else let r = (if sub then a - b else a + b)
                      in (write_sp rd (mask_sf r sf) c, Next))"

definition exec_flagm :: "u32 \<Rightarrow> a64 \<Rightarrow> a64 \<times> step_res" where
  "exec_flagm instr c =
     (let rn = reg_field instr 5
      in if instr AND 0xFFE07C10 = 0xBA000400
         then let v = word_rotr (unat (fld instr 15 0x3f)) (read_x c rn); k = instr AND 0xf;
                  cur = nzcv (rflags c); new = (cur AND NOT k) OR (ucast v AND k)
              in (c\<lparr>rflags := from_nzcv new\<rparr>, Next)
         else if instr AND 0xFFFFBC1F = 0x3A00080D
         then let nb = (if fld instr 14 1 = 1 then 16 else 8); v = read_x c rn;
                  top = (drop_bit (nb - 1) v AND 1 = 1)
              in (c\<lparr>rflags := (rflags c)\<lparr>fl_n := top, fl_z := (v AND ones nb = 0),
                                        fl_v := ((drop_bit nb v AND 1 = 1) \<noteq> top)\<rparr>\<rparr>, Next)
         else (c, Illegal))"

definition dp_adc :: "u32 \<Rightarrow> a64 \<Rightarrow> a64 \<times> step_res" where
  "dp_adc instr c =
     (let sf = (drop_bit 31 instr = 1); rd = reg_field instr 0; rn = reg_field instr 5;
          rm = reg_field instr 16
      in if fld instr 10 0x3f \<noteq> 0 then exec_flagm instr c
         else let sub = (fld instr 30 1 = 1); a = read_x c rn;
                  b = (if sub then NOT (read_x c rm) else read_x c rm);
                  (c, r) = (if fld instr 29 1 = 1 then add_with_carry_flags a b (fl_c (rflags c)) sf c
                            else (c, mask_sf (a + b + of_bool (fl_c (rflags c))) sf))
              in (write_x rd r c, Next))"

definition dp_ccmp :: "u32 \<Rightarrow> a64 \<Rightarrow> a64 \<times> step_res" where
  "dp_ccmp instr c =
     (let sf = (drop_bit 31 instr = 1); rn = reg_field instr 5; rm = reg_field instr 16
      in if fld instr 29 1 = 0 \<or> fld instr 10 1 \<noteq> 0 \<or> fld instr 4 1 \<noteq> 0 then (c, Illegal)
         else let operand = (if fld instr 11 1 = 1 then ucast (fld instr 16 0x1f) else read_x c rm)
              in if cond_holds c (fld instr 12 0xf)
                 then (fst (addsub_flags (read_x c rn) operand (fld instr 30 1 = 1) sf c), Next)
                 else (c\<lparr>rflags := from_nzcv (instr AND 0xf)\<rparr>, Next))"

definition dp_csel :: "u32 \<Rightarrow> a64 \<Rightarrow> a64 \<times> step_res" where
  "dp_csel instr c =
     (let sf = (drop_bit 31 instr = 1); rd = reg_field instr 0; rn = reg_field instr 5;
          rm = reg_field instr 16
      in if fld instr 29 1 \<noteq> 0 \<or> fld instr 11 1 \<noteq> 0 then (c, Illegal)
         else let r = (if cond_holds c (fld instr 12 0xf) then read_x c rn
                       else let m = read_x c rm
                            in if fld instr 30 1 = 0
                               then if fld instr 10 1 = 0 then m else m + 1
                               else if fld instr 10 1 = 0 then NOT m else - m)
              in (write_x rd (mask_sf r sf) c, Next))"

definition one_source_val :: "bool \<Rightarrow> u32 \<Rightarrow> u64 \<Rightarrow> u64 option" where
  "one_source_val sf opcode x =
     (let width = width_of sf
      in if opcode = 0 then Some (rbit x width)
         else if opcode = 1 then Some (rev16 x width)
         else if opcode = 2 then Some (if sf then rev32 x else ucast (swap_bytes32 (ucast x)))
         else if opcode = 3 \<and> sf then Some (swap_bytes64 x)
         else if opcode = 4 then Some (word_of_nat (leading_zeros x - (64 - width)))
         else if opcode = 5 then Some (word_of_nat (cls x width))
         else None)"

definition dp_one_source :: "u32 \<Rightarrow> a64 \<Rightarrow> a64 \<times> step_res" where
  "dp_one_source instr c =
     (let sf = (drop_bit 31 instr = 1); rd = reg_field instr 0; rn = reg_field instr 5;
          rm = reg_field instr 16; opcode = fld instr 10 0x3f
      in if rm \<noteq> 0 then (c, Illegal)
         else case one_source_val sf opcode (mask_sf (read_x c rn) sf) of
                None \<Rightarrow> (c, Illegal)
              | Some r \<Rightarrow> (write_x rd r c, Next))"

text \<open>\<^verbatim>\<open>crypto::crc32\<close>: one bit and one byte at a time.\<close>

definition crc32_bit :: "u32 \<Rightarrow> u32 \<Rightarrow> u32" where
  "crc32_bit poly crc = (if crc AND 1 \<noteq> 0 then drop_bit 1 crc XOR poly else drop_bit 1 crc)"

definition crc32 :: "u32 \<Rightarrow> u64 \<Rightarrow> nat \<Rightarrow> u32 \<Rightarrow> u32" where
  "crc32 crc v nbytes poly =
     fold (\<lambda>i crc. (crc32_bit poly ^^ 8) (crc XOR ucast (ucast (drop_bit (8 * i) v) :: u8))) [0..<nbytes] crc"

definition two_source_val :: "bool \<Rightarrow> u32 \<Rightarrow> u64 \<Rightarrow> u64 \<Rightarrow> u64 option" where
  "two_source_val sf opcode a b =
     (if opcode = 2 then Some (udiv a b sf)
      else if opcode = 3 then Some (sdiv a b sf)
      else if 8 \<le> opcode \<and> opcode \<le> 11
      then Some (shift_reg a (opcode AND 3) (unat b mod width_of sf) sf)
      else if 16 \<le> opcode \<and> opcode \<le> 23
      then let sz = opcode AND 3
           in if (sz = 3) \<noteq> sf then None
              else let poly = (if opcode AND 4 \<noteq> 0 then 0x82F63B78 else 0xEDB88320)
                   in Some (ucast (crc32 (ucast a) b (2 ^ unat sz) poly))
      else None)"

definition dp_two_source :: "u32 \<Rightarrow> a64 \<Rightarrow> a64 \<times> step_res" where
  "dp_two_source instr c =
     (let sf = (drop_bit 31 instr = 1); rd = reg_field instr 0; rn = reg_field instr 5;
          rm = reg_field instr 16; opcode = fld instr 10 0x3f
      in case two_source_val sf opcode (read_x c rn) (read_x c rm) of
           None \<Rightarrow> (c, Illegal)
         | Some r \<Rightarrow> (write_x rd (mask_sf r sf) c, Next))"

definition three_source_val :: "bool \<Rightarrow> u32 \<Rightarrow> bool \<Rightarrow> u64 \<Rightarrow> u64 \<Rightarrow> u64 \<Rightarrow> u64 option" where
  "three_source_val sf k o0 n m a =
     (let acc = (\<lambda>prod. if o0 then a - prod else a + prod)
      in if k = 0 then Some (mask_sf (acc (n * m)) sf)
         else if k = 1 \<and> sf then Some (acc (scast (ucast n :: u32) * scast (ucast m :: u32)))
         else if k = 5 \<and> sf then Some (acc (ucast (ucast n :: u32) * ucast (ucast m :: u32)))
         else if k = 2 \<and> sf \<and> \<not> o0 then Some (word_of_int (sint n * sint m div 2 ^ 64))
         else if k = 6 \<and> sf \<and> \<not> o0 then Some (word_of_int (uint n * uint m div 2 ^ 64))
         else None)"

definition dp_three_source :: "u32 \<Rightarrow> a64 \<Rightarrow> a64 \<times> step_res" where
  "dp_three_source instr c =
     (let sf = (drop_bit 31 instr = 1); rd = reg_field instr 0; rn = reg_field instr 5;
          rm = reg_field instr 16
      in if fld instr 29 3 \<noteq> 0 then (c, Illegal)
         else let o0 = (fld instr 15 1 = 1); ra = reg_field instr 10
              in case three_source_val sf (fld instr 21 7) o0 (read_x c rn) (read_x c rm) (read_x c ra) of
                   None \<Rightarrow> (c, Illegal)
                 | Some r \<Rightarrow> (write_x rd r c, Next))"

definition exec_dp_reg :: "u32 \<Rightarrow> a64 \<Rightarrow> a64 \<times> step_res" where
  "exec_dp_reg instr c =
     (if fld instr 28 1 = 0
      then if fld instr 24 1 = 0 then dp_logic_reg instr c
           else if fld instr 21 1 = 0 then dp_addsub_shifted instr c
           else dp_addsub_extended instr c
      else let k = fld instr 21 0xf
           in if k = 0 then dp_adc instr c
              else if k = 2 then dp_ccmp instr c
              else if k = 4 then dp_csel instr c
              else if k = 6
              then if fld instr 29 1 \<noteq> 0 then (c, Illegal)
                   else if fld instr 30 1 = 1 then dp_one_source instr c
                   else dp_two_source instr c
              else if 8 \<le> k then dp_three_source instr c
              else (c, Illegal))"

subsection \<open>What data processing touches\<close>

text \<open>Only general registers, the stack pointer and the condition flags.\<close>

definition alu_only :: "a64 \<Rightarrow> a64 \<Rightarrow> bool" where
  "alu_only c c' \<longleftrightarrow> length (rx c') = length (rx c) \<and> c' = c\<lparr>rx := rx c', rsp := rsp c', rflags := rflags c'\<rparr>"

lemma alu_only_refl [simp]: "alu_only c c"
  by (simp add: alu_only_def)

lemma alu_only_write [simp]:
  "alu_only c d \<Longrightarrow> alu_only c (write_x i v d)" "alu_only c d \<Longrightarrow> alu_only c (write_sp i v d)"
  "alu_only c d \<Longrightarrow> alu_only c (d\<lparr>rflags := f\<rparr>)" "alu_only c d \<Longrightarrow> alu_only c (set_nz r sf d)"
  "alu_only c d \<Longrightarrow> alu_only c (fst (add_with_carry_flags a b k sf d))"
  "alu_only c d \<Longrightarrow> alu_only c (fst (addsub_flags a b sub sf d))"
  by (cases c; cases d; simp add: alu_only_def write_x_def write_sp_def set_nz_def
      add_with_carry_flags_def addsub_flags_def Let_def)+

lemma alu_only_ok: "alu_only c c' \<Longrightarrow> a64_ok c \<Longrightarrow> a64_ok c'"
  by (cases c; cases c'; simp add: alu_only_def a64_ok_def)

lemma fst_case_snd: "fst (case p of (a, b) \<Rightarrow> (f a b, d)) = f (fst p) (snd p)"
  by (cases p) simp

lemma dp_adr_only: "alu_only c (fst (dp_adr instr c))"
  unfolding dp_adr_def Let_def by (simp add: fst_case_snd split: option.split)

lemma dp_addsub_imm_only: "alu_only c (fst (dp_addsub_imm instr c))"
  unfolding dp_addsub_imm_def Let_def by (simp add: fst_case_snd split: option.split)

lemma dp_logic_imm_only: "alu_only c (fst (dp_logic_imm instr c))"
  unfolding dp_logic_imm_def Let_def by (simp add: fst_case_snd split: option.split)

lemma dp_movewide_only: "alu_only c (fst (dp_movewide instr c))"
  unfolding dp_movewide_def Let_def by (simp add: fst_case_snd split: option.split)

lemma dp_bitfield_only: "alu_only c (fst (dp_bitfield instr c))"
  unfolding dp_bitfield_def Let_def by (simp add: fst_case_snd split: option.split)

lemma dp_extr_only: "alu_only c (fst (dp_extr instr c))"
  unfolding dp_extr_def Let_def by (simp add: fst_case_snd split: option.split)

lemma dp_logic_reg_only: "alu_only c (fst (dp_logic_reg instr c))"
  unfolding dp_logic_reg_def Let_def by (simp add: fst_case_snd split: option.split)

lemma dp_addsub_shifted_only: "alu_only c (fst (dp_addsub_shifted instr c))"
  unfolding dp_addsub_shifted_def Let_def by (simp add: fst_case_snd split: option.split)

lemma dp_addsub_extended_only: "alu_only c (fst (dp_addsub_extended instr c))"
  unfolding dp_addsub_extended_def Let_def by (simp add: fst_case_snd split: option.split)

lemma exec_flagm_only: "alu_only c (fst (exec_flagm instr c))"
  unfolding exec_flagm_def Let_def by (simp add: fst_case_snd split: option.split)

lemma dp_adc_only: "alu_only c (fst (dp_adc instr c))"
  unfolding dp_adc_def Let_def by (simp add: fst_case_snd exec_flagm_only split: option.split)

lemma dp_ccmp_only: "alu_only c (fst (dp_ccmp instr c))"
  unfolding dp_ccmp_def Let_def by (simp add: fst_case_snd split: option.split)

lemma dp_csel_only: "alu_only c (fst (dp_csel instr c))"
  unfolding dp_csel_def Let_def by (simp add: fst_case_snd split: option.split)

lemma dp_one_source_only: "alu_only c (fst (dp_one_source instr c))"
  unfolding dp_one_source_def Let_def by (simp split: option.split)

lemma dp_two_source_only: "alu_only c (fst (dp_two_source instr c))"
  unfolding dp_two_source_def Let_def by (simp split: option.split)

lemma dp_three_source_only: "alu_only c (fst (dp_three_source instr c))"
  unfolding dp_three_source_def Let_def by (simp split: option.split)

lemma dp_imm_only: "alu_only c (fst (exec_dp_imm instr c))"
  by (simp add: exec_dp_imm_def Let_def dp_adr_only dp_addsub_imm_only dp_logic_imm_only
      dp_movewide_only dp_bitfield_only dp_extr_only)

lemma dp_reg_only: "alu_only c (fst (exec_dp_reg instr c))"
  by (simp add: exec_dp_reg_def Let_def dp_logic_reg_only dp_addsub_shifted_only
      dp_addsub_extended_only dp_adc_only dp_ccmp_only dp_csel_only dp_one_source_only
      dp_two_source_only dp_three_source_only)

subsection \<open>The 32-bit forms\<close>

text \<open>\<open>w32\<close>: a value with the upper half clear, what a write to a W register leaves.\<close>

definition w32 :: "u64 \<Rightarrow> bool" where
  "w32 v \<longleftrightarrow> v AND 0xffffffff = v"

definition regs_w32 :: "a64 \<Rightarrow> a64 \<Rightarrow> bool" where
  "regs_w32 c c' \<longleftrightarrow> (\<forall>i < 31. rx c' ! i = rx c ! i \<or> w32 (rx c' ! i)) \<and> (rsp c' = rsp c \<or> w32 (rsp c'))"

lemma low32: "(0xffffffff :: u64) = mask 32"
  by (simp add: mask_eq_exp_minus_1)

lemma and_low32: "v AND 0xffffffff = take_bit 32 (v :: u64)"
  by (simp add: low32 take_bit_eq_mask)

lemma w32_iff: "w32 v \<longleftrightarrow> unat v < 2 ^ 32"
proof
  assume "w32 v"
  then have "unat (take_bit 32 v) = unat v" by (simp add: w32_def and_low32)
  then have "take_bit 32 (unat v) = unat v" by (simp add: unsigned_take_bit_eq)
  then show "unat v < 2 ^ 32" by (metis take_bit_nat_less_exp)
next
  assume "unat v < 2 ^ 32"
  then show "w32 v"
    by (simp add: w32_def and_low32 word_unat_eq_iff unsigned_take_bit_eq take_bit_nat_eq_self)
qed

lemma w32_and [simp]: "w32 (v AND 0xffffffff)"
  by (simp add: w32_def and.assoc)

lemma w32_mask [simp]: "w32 (mask_sf v False)"
  by (simp add: mask_sf_def)

lemma w32_ucast [simp]: "w32 (ucast (v :: u32))"
  using unat_u32_less [of v] by (simp add: w32_iff unsigned_ucast_eq take_bit_nat_eq_self)

lemma w32_small: "n < 2 ^ 32 \<Longrightarrow> w32 (word_of_nat n)"
  by (simp add: w32_iff unat_word_of_nat_eq)

lemma w32_0 [simp]: "w32 0"
  by (simp add: w32_def)

lemma regs_w32_refl [simp]: "regs_w32 c c"
  by (simp add: regs_w32_def)

lemma list_update_or:
  assumes "\<forall>j < k. xs ! j = ys ! j \<or> P (xs ! j)" "P v"
  shows "\<forall>j < k. xs[i := v] ! j = ys ! j \<or> P (xs[i := v] ! j)"
proof (intro allI impI)
  fix j assume "j < k"
  then show "xs[i := v] ! j = ys ! j \<or> P (xs[i := v] ! j)"
    using assms by (cases "i < length xs") (auto simp: nth_list_update list_update_beyond)
qed

lemma regs_w32_write [simp]:
  "regs_w32 c d \<Longrightarrow> w32 v \<Longrightarrow> regs_w32 c (write_x i v d)"
  "regs_w32 c d \<Longrightarrow> w32 v \<Longrightarrow> regs_w32 c (write_sp i v d)"
  using list_update_or [of 31 "rx d" "rx c" w32 v i]
  by (simp_all add: regs_w32_def write_x_def write_sp_def)

lemma regs_w32_flags [simp]:
  "regs_w32 c (d\<lparr>rflags := f\<rparr>) = regs_w32 c d" "regs_w32 c (set_nz r sf d) = regs_w32 c d"
  "regs_w32 c (fst (add_with_carry_flags a b k sf d)) = regs_w32 c d"
  "regs_w32 c (fst (addsub_flags a b sub sf d)) = regs_w32 c d"
  by (simp_all add: regs_w32_def set_nz_def add_with_carry_flags_def addsub_flags_def Let_def)

lemma w32_sum [simp]:
  "w32 (snd (add_with_carry_flags a b k False d))" "w32 (snd (addsub_flags a b sub False d))"
  by (simp_all add: add_with_carry_flags_def addsub_flags_def Let_def)

lemma leading_zeros_le: "leading_zeros v \<le> 64"
  unfolding leading_zeros_def using length_takeWhile_le [of Not "rev (map (bit v) [0..<64])"] by simp

lemma w32_one_source: "one_source_val False k x = Some r \<Longrightarrow> w32 r"
  using leading_zeros_le [of x]
  by (auto simp: one_source_val_def width_of_def rbit_def rev16_def cls_def Let_def
      intro!: w32_small split: if_splits)

lemma w32_three_source: "three_source_val False k o0 n m a = Some r \<Longrightarrow> w32 r"
  by (auto simp: three_source_val_def Let_def split: if_splits)

lemma dp_addsub_imm_w32: "drop_bit 31 instr \<noteq> 1 \<Longrightarrow> regs_w32 c (fst (dp_addsub_imm instr c))"
  unfolding dp_addsub_imm_def Let_def by (simp add: fst_case_snd split: option.split)

lemma dp_logic_imm_w32: "drop_bit 31 instr \<noteq> 1 \<Longrightarrow> regs_w32 c (fst (dp_logic_imm instr c))"
  unfolding dp_logic_imm_def Let_def by (simp add: fst_case_snd split: option.split)

lemma dp_movewide_w32: "drop_bit 31 instr \<noteq> 1 \<Longrightarrow> regs_w32 c (fst (dp_movewide instr c))"
  unfolding dp_movewide_def Let_def by (simp add: fst_case_snd split: option.split)

lemma dp_bitfield_w32: "drop_bit 31 instr \<noteq> 1 \<Longrightarrow> regs_w32 c (fst (dp_bitfield instr c))"
  unfolding dp_bitfield_def Let_def by (simp add: fst_case_snd split: option.split)

lemma dp_extr_w32: "drop_bit 31 instr \<noteq> 1 \<Longrightarrow> regs_w32 c (fst (dp_extr instr c))"
  unfolding dp_extr_def Let_def by (simp add: fst_case_snd split: option.split)

lemma dp_logic_reg_w32: "drop_bit 31 instr \<noteq> 1 \<Longrightarrow> regs_w32 c (fst (dp_logic_reg instr c))"
  unfolding dp_logic_reg_def Let_def by (simp add: fst_case_snd split: option.split)

lemma dp_addsub_shifted_w32: "drop_bit 31 instr \<noteq> 1 \<Longrightarrow> regs_w32 c (fst (dp_addsub_shifted instr c))"
  unfolding dp_addsub_shifted_def Let_def by (simp add: fst_case_snd split: option.split)

lemma dp_addsub_extended_w32: "drop_bit 31 instr \<noteq> 1 \<Longrightarrow> regs_w32 c (fst (dp_addsub_extended instr c))"
  unfolding dp_addsub_extended_def Let_def by (simp add: fst_case_snd split: option.split)

lemma exec_flagm_w32: "drop_bit 31 instr \<noteq> 1 \<Longrightarrow> regs_w32 c (fst (exec_flagm instr c))"
  unfolding exec_flagm_def Let_def by (simp add: fst_case_snd split: option.split)

lemma dp_adc_w32: "drop_bit 31 instr \<noteq> 1 \<Longrightarrow> regs_w32 c (fst (dp_adc instr c))"
  unfolding dp_adc_def Let_def by (simp add: fst_case_snd exec_flagm_w32 split: option.split)

lemma dp_ccmp_w32: "drop_bit 31 instr \<noteq> 1 \<Longrightarrow> regs_w32 c (fst (dp_ccmp instr c))"
  unfolding dp_ccmp_def Let_def by (simp add: fst_case_snd split: option.split)

lemma dp_csel_w32: "drop_bit 31 instr \<noteq> 1 \<Longrightarrow> regs_w32 c (fst (dp_csel instr c))"
  unfolding dp_csel_def Let_def by (simp add: fst_case_snd split: option.split)

lemma dp_one_source_w32: "drop_bit 31 instr \<noteq> 1 \<Longrightarrow> regs_w32 c (fst (dp_one_source instr c))"
  unfolding dp_one_source_def Let_def by (simp add: w32_one_source w32_three_source split: option.split)

lemma dp_two_source_w32: "drop_bit 31 instr \<noteq> 1 \<Longrightarrow> regs_w32 c (fst (dp_two_source instr c))"
  unfolding dp_two_source_def Let_def by (simp add: w32_one_source w32_three_source split: option.split)

lemma dp_three_source_w32: "drop_bit 31 instr \<noteq> 1 \<Longrightarrow> regs_w32 c (fst (dp_three_source instr c))"
  unfolding dp_three_source_def Let_def by (simp add: w32_one_source w32_three_source split: option.split)

lemma dp_imm_w32:
  "drop_bit 31 instr \<noteq> 1 \<Longrightarrow> fld instr 23 7 \<noteq> 0 \<Longrightarrow> fld instr 23 7 \<noteq> 1 \<Longrightarrow> regs_w32 c (fst (exec_dp_imm instr c))"
  by (simp add: exec_dp_imm_def Let_def dp_addsub_imm_w32 dp_logic_imm_w32 dp_movewide_w32
      dp_bitfield_w32 dp_extr_w32)

lemma dp_reg_w32: "drop_bit 31 instr \<noteq> 1 \<Longrightarrow> regs_w32 c (fst (exec_dp_reg instr c))"
  by (simp add: exec_dp_reg_def Let_def dp_logic_reg_w32 dp_addsub_shifted_w32
      dp_addsub_extended_w32 dp_adc_w32 dp_ccmp_w32 dp_csel_w32 dp_one_source_w32
      dp_two_source_w32 dp_three_source_w32)

subsection \<open>Carry and overflow\<close>

lemma top_bit_sint: "bit (w :: 'a::len word) (LENGTH('a) - 1) \<longleftrightarrow> sint w < 0"
  using bit_last_iff [of w] by simp

lemma drop_top: "drop_bit (LENGTH('a) - 1) (w :: 'a::len word) = of_bool (bit w (LENGTH('a) - 1))"
proof (rule bit_eqI)
  fix n assume "possible_bit TYPE('a word) n"
  then have "n < LENGTH('a)" by simp
  then show "bit (drop_bit (LENGTH('a) - 1) w) n = bit (of_bool (bit w (LENGTH('a) - 1)) :: 'a word) n"
    by (cases n) (auto simp: bit_simps bit_1_iff dest: bit_imp_le_length)
qed

lemma signed_overflow:
  fixes a b r :: "'a::len word"
  assumes r: "r = a + b + of_bool k" and L: "1 < LENGTH('a)"
  defines "s \<equiv> sint a + sint b + of_bool k"
  shows "bit ((a XOR r) AND (b XOR r)) (LENGTH('a) - 1) \<longleftrightarrow> s < - (2 ^ (LENGTH('a) - 1)) \<or> 2 ^ (LENGTH('a) - 1) \<le> s"
    and "\<not> (s < - (2 ^ (LENGTH('a) - 1)) \<or> 2 ^ (LENGTH('a) - 1) \<le> s) \<Longrightarrow> sint r = s"
    and "s < - (2 ^ (LENGTH('a) - 1)) \<or> 2 ^ (LENGTH('a) - 1) \<le> s \<Longrightarrow> (sint r < 0) = (0 \<le> s)"
proof -
  define H :: int where "H = 2 ^ (LENGTH('a) - 1)"
  have two: "2 ^ LENGTH('a) = 2 * H" using L by (simp add: H_def flip: power_Suc)
  have "sint r = signed_take_bit (LENGTH('a) - 1) s"
  proof -
    have "r = word_of_int s"
      by (cases k) (simp_all add: r s_def)
    then show ?thesis by (simp add: signed_of_int)
  qed
  then have m: "sint r = (s + H) mod (2 * H) - H"
    by (simp add: signed_take_bit_eq_take_bit_shift take_bit_eq_mod H_def two [unfolded H_def] L Suc_diff_Suc)
  have ra: "- H \<le> sint a" "sint a < H" "- H \<le> sint b" "sint b < H"
    using sint_greater_eq [of a] sint_less [of a] sint_greater_eq [of b] sint_less [of b] by (auto simp: H_def)
  have rr: "- H \<le> sint r" "sint r < H" using sint_greater_eq [of r] sint_less [of r] by (auto simp: H_def)
  have hpos: "0 < H" by (simp add: H_def)
  define e :: int where "e = of_bool k"
  have k: "0 \<le> e" "e \<le> 1" by (simp_all add: e_def)
  have se: "s = sint a + sint b + e" by (simp add: s_def e_def)
  have in_range: "sint r = s" if "- H \<le> s" "s < H"
    using m that by simp
  have high: "sint r = s - 2 * H" if "H \<le> s"
  proof -
    have "(s + H) mod (2 * H) = (s - H + 2 * H) mod (2 * H)" by (simp add: add.commute)
    also have "\<dots> = (s - H) mod (2 * H)" by (rule mod_add_self2)
    also have "\<dots> = s - H"
      using that ra k unfolding se by (intro mod_pos_pos_trivial) linarith+
    finally show ?thesis using m by simp
  qed
  have low: "sint r = s + 2 * H" if "s < - H"
  proof -
    have "(s + H) mod (2 * H) = (s + H + 2 * H) mod (2 * H)" by (rule mod_add_self2 [symmetric])
    also have "\<dots> = s + H + 2 * H"
      using that ra k unfolding se by (intro mod_pos_pos_trivial) linarith+
    finally show ?thesis using m by simp
  qed
  have bits: "bit ((a XOR r) AND (b XOR r)) (LENGTH('a) - 1) \<longleftrightarrow>
      (sint a < 0) \<noteq> (sint r < 0) \<and> (sint b < 0) \<noteq> (sint r < 0)"
    by (simp add: bit_simps top_bit_sint [symmetric, simplified])
  show "bit ((a XOR r) AND (b XOR r)) (LENGTH('a) - 1) \<longleftrightarrow> s < - (2 ^ (LENGTH('a) - 1)) \<or> 2 ^ (LENGTH('a) - 1) \<le> s"
    unfolding bits H_def [symmetric]
  proof (cases "s < - H \<or> H \<le> s")
    case True
    then show "((sint a < 0) \<noteq> (sint r < 0) \<and> (sint b < 0) \<noteq> (sint r < 0)) = (s < - H \<or> H \<le> s)"
      using high low ra k se by linarith
  next
    case False
    then have "sint r = sint a + sint b + e" using in_range by (simp add: se)
    then show "((sint a < 0) \<noteq> (sint r < 0) \<and> (sint b < 0) \<noteq> (sint r < 0)) = (s < - H \<or> H \<le> s)"
      using False k by auto
  qed
  show "\<not> (s < - (2 ^ (LENGTH('a) - 1)) \<or> 2 ^ (LENGTH('a) - 1) \<le> s) \<Longrightarrow> sint r = s"
    using in_range by (simp add: H_def)
  show "s < - (2 ^ (LENGTH('a) - 1)) \<or> 2 ^ (LENGTH('a) - 1) \<le> s \<Longrightarrow> (sint r < 0) = (0 \<le> s)"
    using high low ra k hpos unfolding H_def [symmetric] se by linarith
qed

lemma wide_sum:
  fixes a b :: "'a::len word" and k :: bool
  assumes L: "LENGTH('a) + 1 \<le> LENGTH('b::len)"
  defines "wide \<equiv> (ucast a + ucast b + of_bool k :: 'b word)"
  shows "unat wide = unat a + unat b + of_bool k"
    and "(ucast wide :: 'a word) = a + b + of_bool k"
    and "drop_bit LENGTH('a) wide \<noteq> 0 \<longleftrightarrow> 2 ^ LENGTH('a) \<le> unat a + unat b + of_bool k"
proof -
  have lt: "unat a + unat b + of_bool k < 2 ^ LENGTH('b)"
  proof -
    have "unat a + unat b + of_bool k < 2 * 2 ^ LENGTH('a)"
    proof -
      have "unat a < 2 ^ LENGTH('a)" "unat b < 2 ^ LENGTH('a)" by (rule unsigned_less)+
      then show ?thesis by (cases k) (simp_all del: unsigned_less)
    qed
    also have "\<dots> = 2 ^ (LENGTH('a) + 1)" by simp
    also have "\<dots> \<le> 2 ^ LENGTH('b)" using L by (intro power_increasing) auto
    finally show ?thesis .
  qed
  have w: "wide = word_of_nat (unat a + unat b + of_bool k)"
    by (cases k) (simp_all add: wide_def)
  show u: "unat wide = unat a + unat b + of_bool k"
    unfolding w by (rule unat_word_of_nat_eq [OF lt])
  have "(ucast wide :: 'a word) = word_of_nat (unat wide)" by simp
  then show "(ucast wide :: 'a word) = a + b + of_bool k"
    by (simp only: u) (cases k; simp)
  show "drop_bit LENGTH('a) wide \<noteq> 0 \<longleftrightarrow> 2 ^ LENGTH('a) \<le> unat a + unat b + of_bool k"
  proof -
    have "unat (drop_bit LENGTH('a) wide) = (unat a + unat b + of_bool k) div 2 ^ LENGTH('a)"
      by (simp only: unat_drop_bit_eq u) (rule drop_bit_eq_div)
    then have "unat (drop_bit LENGTH('a) wide) = 0 \<longleftrightarrow> unat a + unat b + of_bool k < 2 ^ LENGTH('a)"
      by (simp only: div_eq_0_iff) simp
    then show ?thesis by (simp only: unat_eq_0 not_less [symmetric])
  qed
qed

subsection \<open>Flags of an addition and of a comparison\<close>

text \<open>The operands of an instruction as numbers, at the width it works at.\<close>

definition uval :: "bool \<Rightarrow> u64 \<Rightarrow> int" where
  "uval sf a = (if sf then uint a else uint (ucast a :: u32))"

definition sval :: "bool \<Rightarrow> u64 \<Rightarrow> int" where
  "sval sf a = (if sf then sint a else sint (ucast a :: u32))"

lemma and1_top: "drop_bit 63 (r :: u64) AND 1 = 1 \<longleftrightarrow> sint r < 0" "drop_bit 31 (q :: u32) AND 1 = 1 \<longleftrightarrow> sint q < 0"
  using drop_top [of r] top_bit_sint [of r] drop_top [of q] top_bit_sint [of q] by auto

lemma top_is_1: "drop_bit 63 (r :: u64) = 1 \<longleftrightarrow> bit r 63" "drop_bit 31 (q :: u32) = 1 \<longleftrightarrow> bit q 31"
  using drop_top [of r] drop_top [of q] by auto

lemma add_with_carry_result:
  "sf \<Longrightarrow> snd (add_with_carry_flags a b k sf c) = a + b + of_bool k"
  "\<not> sf \<Longrightarrow> snd (add_with_carry_flags a b k sf c) = ucast (ucast a + ucast b + of_bool k :: u32)"
  using wide_sum(2) [where 'a = 64 and 'b = 128, of a b k]
    wide_sum(2) [where 'a = 32 and 'b = 64, of "ucast a" "ucast b" k]
  by (simp_all add: add_with_carry_flags_def Let_def)

lemma ucast_up_down [simp]: "ucast (ucast q :: u64) = (q :: u32)"
  by (simp add: unsigned_ucast_eq take_bit_word_eq_self)

lemma carry_int:
  "2 ^ n \<le> unat a + unat b + of_bool k \<longleftrightarrow> (2 :: int) ^ n \<le> uint a + uint b + of_bool k"
  for a b :: "'a::len word"
proof -
  have "2 ^ n \<le> unat a + unat b + of_bool k \<longleftrightarrow> int (2 ^ n) \<le> int (unat a + unat b + of_bool k)"
    by (simp only: of_nat_le_iff)
  then show ?thesis by (simp del: of_nat_le_iff)
qed

lemma add_with_carry_spec:
  fixes a b :: u64 and k sf :: bool and c :: a64
  defines "f \<equiv> rflags (fst (add_with_carry_flags a b k sf c))"
    and "r \<equiv> snd (add_with_carry_flags a b k sf c)"
    and "W \<equiv> (2 :: int) ^ width_of sf"
  shows "uval sf r = (uval sf a + uval sf b + of_bool k) mod W"
    and "fl_z f \<longleftrightarrow> uval sf r = 0"
    and "fl_n f \<longleftrightarrow> sval sf r < 0"
    and "fl_c f \<longleftrightarrow> W \<le> uval sf a + uval sf b + of_bool k"
    and "fl_v f \<longleftrightarrow> sval sf a + sval sf b + of_bool k \<notin> {- (W div 2) ..< W div 2}"
    and "fl_n f \<noteq> fl_v f \<longleftrightarrow> sval sf a + sval sf b + of_bool k < 0"
proof -
  have v64: "drop_bit 63 ((a XOR (a + b + of_bool k)) AND (b XOR (a + b + of_bool k))) = 1 \<longleftrightarrow>
      sint a + sint b + of_bool k < - (2 ^ 63) \<or> 2 ^ 63 \<le> sint a + sint b + of_bool k"
    unfolding top_is_1 using signed_overflow(1) [of "a + b + of_bool k" a b k] by simp
  have v32: "drop_bit 31 ((ucast a XOR (ucast a + ucast b + of_bool k)) AND (ucast b XOR (ucast a + ucast b + of_bool k :: u32))) = 1 \<longleftrightarrow>
      sint (ucast a :: u32) + sint (ucast b :: u32) + of_bool k < - (2 ^ 31) \<or> 2 ^ 31 \<le> sint (ucast a :: u32) + sint (ucast b :: u32) + of_bool k"
    unfolding top_is_1 using signed_overflow(1) [of "ucast a + ucast b + of_bool k :: u32" "ucast a" "ucast b" k] by simp
  have n64: "sint (a + b + of_bool k) < 0 \<longleftrightarrow>
      (if sint a + sint b + of_bool k < - (2 ^ 63) \<or> 2 ^ 63 \<le> sint a + sint b + of_bool k
       then 0 \<le> sint a + sint b + of_bool k else sint a + sint b + of_bool k < 0)"
    using signed_overflow(2,3) [of "a + b + of_bool k" a b k] by simp
  have n32: "sint (ucast a + ucast b + of_bool k :: u32) < 0 \<longleftrightarrow>
      (if sint (ucast a :: u32) + sint (ucast b :: u32) + of_bool k < - (2 ^ 31) \<or> 2 ^ 31 \<le> sint (ucast a :: u32) + sint (ucast b :: u32) + of_bool k
       then 0 \<le> sint (ucast a :: u32) + sint (ucast b :: u32) + of_bool k else sint (ucast a :: u32) + sint (ucast b :: u32) + of_bool k < 0)"
    using signed_overflow(2,3) [of "ucast a + ucast b + of_bool k :: u32" "ucast a" "ucast b" k] by simp
  note w64 = wide_sum [where 'a = 64 and 'b = 128, of a b k, simplified]
  note w32 = wide_sum [where 'a = 32 and 'b = 64, of "ucast a" "ucast b" k, simplified]
  show "uval sf r = (uval sf a + uval sf b + of_bool k) mod W"
    by (cases sf; cases k) (simp_all add: r_def W_def uval_def width_of_def add_with_carry_result uint_word_ariths mod_simps)
  show "fl_z f \<longleftrightarrow> uval sf r = 0"
    by (cases sf) (simp_all add: f_def r_def uval_def add_with_carry_flags_def Let_def uint_0_iff del: of_bool_eq_0_iff)
  show n: "fl_n f \<longleftrightarrow> sval sf r < 0"
    by (cases sf) (simp_all add: f_def r_def sval_def add_with_carry_flags_def Let_def and1_top)
  show "fl_c f \<longleftrightarrow> W \<le> uval sf a + uval sf b + of_bool k"
    using w64(3) w32(3) carry_int [of 64 a b k] carry_int [of 32 "ucast a :: u32" "ucast b" k]
    by (cases sf) (simp_all add: f_def W_def width_of_def uval_def add_with_carry_flags_def Let_def)
  show v: "fl_v f \<longleftrightarrow> sval sf a + sval sf b + of_bool k \<notin> {- (W div 2) ..< W div 2}"
    using v64 v32 unfolding f_def W_def width_of_def sval_def add_with_carry_flags_def Let_def
    by (cases sf) (simp_all only: w64 w32 if_True if_False fst_conv flags.select_convs a64.select_convs a64.update_convs not_less not_le atLeastLessThan_iff, auto)
  have "sval sf r < 0 \<longleftrightarrow>
      (if sval sf a + sval sf b + of_bool k \<notin> {- (W div 2) ..< W div 2}
       then 0 \<le> sval sf a + sval sf b + of_bool k else sval sf a + sval sf b + of_bool k < 0)"
    using n64 n32 by (cases sf) (simp_all add: sval_def W_def width_of_def r_def add_with_carry_result)
  then show "fl_n f \<noteq> fl_v f \<longleftrightarrow> sval sf a + sval sf b + of_bool k < 0"
    unfolding n v by auto
qed

lemma uint_not: "uint (NOT w) = 2 ^ LENGTH('a) - 1 - uint (w :: 'a::len word)"
proof -
  have "uint (NOT w) = (- uint w - 1) mod 2 ^ LENGTH('a)"
    by (simp add: unsigned_not_eq not_int_def take_bit_eq_mod)
  also have "\<dots> = (2 ^ LENGTH('a) - 1 - uint w) mod 2 ^ LENGTH('a)"
    using mod_add_self2 [of "- uint w - 1" "2 ^ LENGTH('a)"] by (simp add: algebra_simps)
  also have "\<dots> = 2 ^ LENGTH('a) - 1 - uint w"
    using uint_bounded [of w] uint_ge_0 [of w] by (intro mod_pos_pos_trivial) linarith+
  finally show ?thesis .
qed

lemma sint_not: "sint (NOT w) = - sint w - 1" for w :: "'a::len word"
proof -
  have h: "(2 :: int) ^ (LENGTH('a) - Suc 0) \<le> 2 ^ LENGTH('a)" by (intro power_increasing) auto
  have "signed_take_bit LENGTH('a) (- sint w - 1) = - sint w - 1"
    using sint_greater_eq [of w] sint_less [of w] h by (intro signed_take_bit_int_eq_self) linarith+
  then show ?thesis by (simp add: signed_not_eq not_int_def)
qed

lemma ucast_not32: "(ucast (NOT b) :: u32) = NOT (ucast (b :: u64))"
  by (rule bit_eqI) (simp add: bit_simps)

lemma val_not: "uval sf (NOT b) = 2 ^ width_of sf - 1 - uval sf b" "sval sf (NOT b) = - sval sf b - 1"
  by (simp_all add: uval_def sval_def width_of_def ucast_not32 uint_not sint_not)

lemma val_eq: "uval sf a = uval sf b \<longleftrightarrow> sval sf a = sval sf b"
  by (auto simp: uval_def sval_def dest: unsigned_word_eqI signed_word_eqI)

lemma uval_range: "0 \<le> uval sf a" "uval sf a < 2 ^ width_of sf"
  using uint_bounded [of a] uint_bounded [of "ucast a :: u32"] by (auto simp: uval_def width_of_def)

text \<open>After a compare, the conditions are the comparisons of the operands.\<close>

lemma compare_flags:
  fixes a b :: u64 and sf :: bool and c :: a64
  defines "f \<equiv> rflags (fst (addsub_flags a b True sf c))"
  shows "fl_z f \<longleftrightarrow> uval sf a = uval sf b" "fl_c f \<longleftrightarrow> uval sf b \<le> uval sf a"
    "fl_n f = fl_v f \<longleftrightarrow> sval sf b \<le> sval sf a" "fl_n f = (\<not> fl_v f) \<longleftrightarrow> sval sf a < sval sf b"
proof -
  note sp = add_with_carry_spec [where a = a and b = "NOT b" and k = True and sf = sf and c = c]
  have f: "f = rflags (fst (add_with_carry_flags a (NOT b) True sf c))"
    by (simp add: f_def addsub_flags_def)
  let ?W = "2 ^ width_of sf :: int"
  have "uval sf (snd (add_with_carry_flags a (NOT b) True sf c)) = (uval sf a - uval sf b + ?W) mod ?W"
    using sp(1) by (simp add: val_not algebra_simps)
  also have "\<dots> = (uval sf a - uval sf b) mod ?W" by simp
  also have "\<dots> = 0 \<longleftrightarrow> uval sf a = uval sf b"
  proof
    assume z: "(uval sf a - uval sf b) mod ?W = 0"
    then obtain q where q: "uval sf a - uval sf b = ?W * q" by (auto simp: mod_eq_0_iff_dvd)
    have "\<bar>?W * q\<bar> < ?W * 1" using uval_range [of sf a] uval_range [of sf b] by (simp flip: q)
    then have "q = 0" by (simp add: abs_mult)
    with q show "uval sf a = uval sf b" by simp
  qed simp
  finally show "fl_z f \<longleftrightarrow> uval sf a = uval sf b" using sp(2) by (simp add: f)
  show "fl_c f \<longleftrightarrow> uval sf b \<le> uval sf a" using sp(4) by (auto simp: f val_not)
  show le: "fl_n f = fl_v f \<longleftrightarrow> sval sf b \<le> sval sf a" using sp(6) by (auto simp: f val_not)
  then show "fl_n f = (\<not> fl_v f) \<longleftrightarrow> sval sf a < sval sf b" by auto
qed

lemma uval_order:
  "uval sf b \<le> uval sf a \<and> uval sf a \<noteq> uval sf b \<longleftrightarrow> uval sf b < uval sf a"
  "(uval sf b \<le> uval sf a \<longrightarrow> uval sf a = uval sf b) \<longleftrightarrow> uval sf a \<le> uval sf b"
  by auto

lemma sval_order:
  "sval sf b \<le> sval sf a \<and> uval sf a \<noteq> uval sf b \<longleftrightarrow> sval sf b < sval sf a"
  "sval sf a < sval sf b \<or> uval sf a = uval sf b \<longleftrightarrow> sval sf a \<le> sval sf b"
  by (auto simp: val_eq)

lemma compare_conditions:
  "cond_holds (fst (addsub_flags a b True sf c)) k \<longleftrightarrow>
    (if k = 0 then uval sf a = uval sf b
     else if k = 1 then uval sf a \<noteq> uval sf b
     else if k = 2 then uval sf b \<le> uval sf a
     else if k = 3 then uval sf a < uval sf b
     else if k = 8 then uval sf b < uval sf a
     else if k = 9 then uval sf a \<le> uval sf b
     else if k = 10 then sval sf b \<le> sval sf a
     else if k = 11 then sval sf a < sval sf b
     else if k = 12 then sval sf b < sval sf a
     else sval sf a \<le> sval sf b)"
  if "k \<in> {0, 1, 2, 3, 8, 9, 10, 11, 12, 13}"
  using that
  by (elim insertE emptyE) (simp_all add: cond_holds_def Let_def compare_flags not_le uval_order sval_order)

subsection \<open>Bit masks\<close>

lemma bit_ones [simp]: "bit (ones n) j \<longleftrightarrow> j < n \<and> j < 64"
proof -
  have "ones n = mask n" if "n < 64" using that by (simp add: ones_def mask_eq_exp_minus_1 push_bit_of_1)
  then show ?thesis
    by (cases "n < 64") (auto simp: bit_mask_iff ones_def bit_minus_1_iff)
qed

lemma bit_ror_val:
  assumes "0 < sz" "sz \<le> 64"
  shows "bit (ror_val v r sz) j \<longleftrightarrow> j < sz \<and> bit v ((j + r) mod sz)"
proof -
  define q where "q = r mod sz"
  have q: "q < sz" using assms by (simp add: q_def)
  have "(j + r) mod sz = (j + q) mod sz" by (simp add: q_def mod_add_right_eq)
  moreover have "j < sz \<Longrightarrow> (j + q) mod sz = (if j + q < sz then j + q else j + q - sz)"
    using q by (simp add: mod_if le_mod_geq)
  ultimately show ?thesis
    using q assms by (auto simp: ror_val_def Let_def bit_simps q_def [symmetric] add.commute split: if_splits)
qed

lemma bit_replicate_loop:
  assumes "0 < esize" "width \<le> 64" "\<And>k. bit pat k \<Longrightarrow> k < esize" "i \<le> width" "esize dvd (width - i)"
  shows "bit (replicate_loop pat esize width i res) j \<longleftrightarrow> bit res j \<or> i \<le> j \<and> j < width \<and> bit pat ((j - i) mod esize)"
  using assms
proof (induction pat esize width i res rule: replicate_loop.induct)
  case (1 pat esize width i res)
  show ?case
  proof (cases "i < width")
    case False
    then show ?thesis by (subst replicate_loop.simps) auto
  next
    case True
    have le: "i + esize \<le> width"
      using True "1.prems"(1,5) by (metis add.commute dvd_imp_le le_diff_conv2 less_imp_le zero_less_diff)
    moreover have "esize dvd (width - (i + esize))"
      using "1.prems"(5) by (metis diff_diff_left dvd_diff_nat dvd_refl)
    ultimately have IH: "bit (replicate_loop pat esize width (i + esize) (res OR push_bit i pat)) j \<longleftrightarrow>
        bit (res OR push_bit i pat) j \<or> i + esize \<le> j \<and> j < width \<and> bit pat ((j - (i + esize)) mod esize)"
      using "1.IH" True "1.prems" by blast
    have far: "(j - i) mod esize = (j - (i + esize)) mod esize" if "i + esize \<le> j"
    proof -
      obtain m where "j = i + esize + m" using le_Suc_ex [OF \<open>i + esize \<le> j\<close>] by blast
      then show ?thesis by (simp add: add.assoc)
    qed
    have near: "(j - i) mod esize = j - i" if "j < i + esize" "i \<le> j" using that by simp
    have "bit (push_bit i pat) j \<longleftrightarrow> i \<le> j \<and> j < i + esize \<and> bit pat (j - i)"
      using le "1.prems"(2) "1.prems"(3) [of "j - i"] by (auto simp: bit_simps)
    then show ?thesis
      using IH True "1.prems"(1) far near le
      by (subst replicate_loop.simps, cases "i + esize \<le> j") (auto simp: bit_or_iff not_le)
  qed
qed

lemma bit_replicate_bits:
  assumes "0 < esize" "width \<le> 64" "esize dvd width"
  shows "bit (replicate_bits p esize width) j \<longleftrightarrow> j < width \<and> bit p (j mod esize)"
proof -
  have "esize \<le> 64 \<or> width = 0" using assms by (auto dest: dvd_imp_le)
  then show ?thesis
    unfolding replicate_bits_def using assms
    by (subst bit_replicate_loop) (auto simp: bit_and_iff intro: less_le_trans dest: bit_imp_le_length)
qed

lemma highest_bit:
  "length (dropWhile Not (rev bs)) \<le> length bs"
  "length (dropWhile Not (rev bs)) \<le> j \<Longrightarrow> j < length bs \<Longrightarrow> \<not> bs ! j"
  "0 < length (dropWhile Not (rev bs)) \<Longrightarrow> bs ! (length (dropWhile Not (rev bs)) - 1)"
proof -
  show le: "length (dropWhile Not (rev bs)) \<le> length bs" for bs
    by (metis length_dropWhile_le length_rev)
  show "length (dropWhile Not (rev bs)) \<le> j \<Longrightarrow> j < length bs \<Longrightarrow> \<not> bs ! j"
    by (induction bs rule: rev_induct) (auto simp: nth_append split: if_splits)
  show "0 < length (dropWhile Not (rev bs)) \<Longrightarrow> bs ! (length (dropWhile Not (rev bs)) - 1)"
  proof (induction bs rule: rev_induct)
    case (snoc b bs)
    show ?case
    proof (cases b)
      case False
      with snoc have p: "0 < length (dropWhile Not (rev bs))" by simp
      with le [of bs] have "length (dropWhile Not (rev bs)) - 1 < length bs" by linarith
      with snoc.IH p False show ?thesis by (simp add: nth_append)
    qed simp
  qed simp
qed

lemma ilog2_bit: "x \<noteq> 0 \<Longrightarrow> bit x (ilog2 x)" "ilog2 x < j \<Longrightarrow> \<not> bit x j" "x \<noteq> 0 \<Longrightarrow> ilog2 x < 32"
proof -
  let ?bs = "map (bit x) [0..<32]"
  note h = highest_bit [of ?bs]
  have nz: "0 < length (dropWhile Not (rev ?bs))" if "x \<noteq> 0"
  proof -
    obtain i where "bit x i" using \<open>x \<noteq> 0\<close> by (auto simp: bit_eq_iff)
    then have "i < 32" using bit_imp_le_length [of x i] by simp
    with \<open>bit x i\<close> show ?thesis using h(2) [of i] by (cases "length (dropWhile Not (rev ?bs))") auto
  qed
  show lt: "x \<noteq> 0 \<Longrightarrow> ilog2 x < 32" using h(1) nz unfolding ilog2_def by fastforce
  show "x \<noteq> 0 \<Longrightarrow> bit x (ilog2 x)"
    using h(3) nz lt unfolding ilog2_def by (metis (no_types, lifting) add_0 diff_zero length_map length_upt nth_map nth_upt)
  show "\<not> bit x j" if "ilog2 x < j"
  proof
    assume b: "bit x j"
    then have "j < 32" using bit_imp_le_length [of x j] by simp
    moreover have "length (dropWhile Not (rev ?bs)) \<le> j" using that unfolding ilog2_def by linarith
    ultimately show False using b h(2) [of j] by simp
  qed
qed
text \<open>
  What the two masks of \<^verbatim>\<open>DecodeBitMasks\<close> are, bit by bit: with an element size \<open>E\<close>, the first
  has the bits of a run of \<open>S + 1\<close> ones rotated right by \<open>R\<close>, the second a run of \<open>D + 1\<close> ones,
  each repeated in every element.
\<close>

lemma levels_mask: "push_bit len 1 - 1 = (mask len :: u32)"
  by (simp add: mask_eq_exp_minus_1 push_bit_of_1)

lemma and_levels: "unat (w AND (push_bit len 1 - 1)) = unat (w :: u32) mod 2 ^ len"
  by (simp only: levels_mask take_bit_eq_mask [symmetric] unsigned_take_bit_eq) (rule take_bit_eq_mod)

lemma uint_and_levels: "uint (w AND (push_bit len 1 - 1)) = uint (w :: u32) mod 2 ^ len"
  by (simp only: levels_mask take_bit_eq_mask [symmetric] unsigned_take_bit_eq) (rule take_bit_eq_mod)

lemma unat_diff_levels:
  fixes s r :: u32
  assumes "len \<le> 32" "unat r < 2 ^ len"
  shows "unat ((s - r) AND (push_bit len 1 - 1)) = (unat s + 2 ^ len - unat r) mod 2 ^ len"
proof -
  have "uint ((s - r) AND (push_bit len 1 - 1)) = (uint s - uint r) mod 2 ^ 32 mod 2 ^ len"
    by (simp only: uint_and_levels) (simp add: uint_word_ariths)
  also have "\<dots> = (uint s - uint r) mod 2 ^ len"
    using assms(1) by (simp only: mod_mod_cancel [OF le_imp_power_dvd])
  also have "\<dots> = (uint s - uint r + 2 ^ len) mod 2 ^ len" by simp
  also have "\<dots> = int ((unat s + 2 ^ len - unat r) mod 2 ^ len)"
    using assms(2) by (simp add: of_nat_diff zmod_int algebra_simps)
  finally have "int (unat ((s - r) AND (push_bit len 1 - 1))) = int ((unat s + 2 ^ len - unat r) mod 2 ^ len)"
    by simp
  then show ?thesis by (simp only: of_nat_eq_iff)
qed

lemma decode_bit_masks_bits:
  assumes d: "decode_bit_masks n imms immr width imm = Some (wmask, tmask)"
    and E: "E = 2 ^ ilog2 (push_bit 6 n OR (NOT imms AND 0x3f))" "E dvd width" "width \<le> 64" "0 < width"
  defines "S \<equiv> unat imms mod E" and "R \<equiv> unat immr mod E"
  shows "bit wmask j \<longleftrightarrow> j < width \<and> (j + R) mod E \<le> S"
    and "bit tmask j \<longleftrightarrow> j < width \<and> j mod E \<le> (S + E - R) mod E"
proof -
  define len where "len = ilog2 (push_bit 6 n OR (NOT imms AND 0x3f))"
  let ?lv = "push_bit len 1 - 1 :: u32"
  have nz: "push_bit 6 n OR (NOT imms AND 0x3f) \<noteq> 0" using d by (auto simp: decode_bit_masks_def)
  then have len: "len < 32" unfolding len_def by (rule ilog2_bit(3))
  have E': "E = 2 ^ len" using E(1) by (simp add: len_def)
  have E64: "0 < E" "E \<le> 64" using E E' by (auto dest: dvd_imp_le)
  have SR: "unat (imms AND ?lv) = S" "unat (immr AND ?lv) = R" "S < E" "R < E"
    using E64 by (simp_all only: and_levels S_def R_def E' mod_less_divisor)
  have D: "unat ((imms AND ?lv) - (immr AND ?lv) AND ?lv) = (S + E - R) mod E"
    using unat_diff_levels [of len "immr AND ?lv" "imms AND ?lv"] len SR by (simp add: E')
  have w: "wmask = replicate_bits (ror_val (ones (S + 1)) R E) E width"
    and t: "tmask = replicate_bits (ones ((S + E - R) mod E + 1)) E width"
    using d nz by (auto simp: decode_bit_masks_def Let_def len_def [symmetric] SR [unfolded push_bit_of_1] D [unfolded push_bit_of_1] E' [symmetric] split: if_splits)
  have m: "(j mod E + R) mod E = (j + R) mod E" by (rule mod_add_left_eq)
  have le: "x mod E < 64" for x using E64 by (meson less_le_trans mod_less_divisor)
  show "bit wmask j \<longleftrightarrow> j < width \<and> (j + R) mod E \<le> S"
    using E64 E(2,3) le by (auto simp: w bit_replicate_bits bit_ror_val m)
  show "bit tmask j \<longleftrightarrow> j < width \<and> j mod E \<le> (S + E - R) mod E"
    using E64 E(2,3) le by (auto simp: t bit_replicate_bits)
qed

subsection \<open>Bitfield moves\<close>

text \<open>
  The documented meaning of \<^verbatim>\<open>SBFM\<close>, \<^verbatim>\<open>BFM\<close> and \<^verbatim>\<open>UBFM\<close> (\<open>opc\<close> 0, 1, 2), of which
  shifts by a constant, extractions, insertions and extensions are aliases: when \<open>R \<le> S\<close> the source
  field \<open>S..R\<close> moves to the bottom, otherwise the bits \<open>S..0\<close> move up to position \<open>W - R\<close>; above
  the field come copies of its top bit, the old destination, or zeros.
\<close>

definition bitfield_ref :: "u32 \<Rightarrow> nat \<Rightarrow> nat \<Rightarrow> nat \<Rightarrow> u64 \<Rightarrow> u64 \<Rightarrow> nat \<Rightarrow> bool" where
  "bitfield_ref opc W S R src dst j =
     (let above = (if opc = 0 then bit src S else opc = 1 \<and> bit dst j)
      in if R \<le> S then (if j \<le> S - R then bit src (j + R) else above)
         else if j < W - R then opc = 1 \<and> bit dst j
         else if j \<le> W - R + S then bit src (j - (W - R))
         else above)"

lemma bit_unat_ge: "bit w k \<Longrightarrow> 2 ^ k \<le> unat w" for w :: "'a::len word"
proof -
  assume "bit w k"
  then have "bit (unat w) k" by (simp add: bit_unsigned_iff)
  then have "odd (unat w div 2 ^ k)" by (rule bit_iff_odd [THEN iffD1])
  then show ?thesis by (metis div_less even_zero not_less)
qed

lemma fld_1: "fld instr k 1 = 0 \<or> fld instr k 1 = 1"
  by (simp add: fld_def and_one_eq mod_2_eq_odd)

lemma ilog2_eq: "bit x k \<Longrightarrow> (\<And>j. k < j \<Longrightarrow> \<not> bit x j) \<Longrightarrow> ilog2 x = k"
  using ilog2_bit(1) [of x] ilog2_bit(2) [of x k] by (metis bit_0_eq bot_apply bot_bool_def linorder_neqE_nat)

lemma bit_u32_mask6: "bit (0x3f :: u32) j \<longleftrightarrow> j < 6"
proof -
  have eq: "(0x3f :: u32) = mask 6" by (simp add: mask_eq_exp_minus_1)
  show ?thesis unfolding eq bit_mask_iff by auto
qed

lemma bit_length_field: "bit (push_bit 6 n OR (NOT imms AND 0x3f)) j \<longleftrightarrow>
    j < 32 \<and> 6 \<le> j \<and> bit n (j - 6) \<or> j < 6 \<and> \<not> bit imms j" for n imms :: u32
  unfolding bit_or_iff bit_and_iff bit_not_iff bit_u32_mask6 bit_push_bit_iff by auto

lemma element_is_width:
  assumes "(n = 1) = sf" "n = 0 \<or> n = 1" "unat imms < width_of sf"
  shows "2 ^ ilog2 (push_bit 6 n OR (NOT imms AND 0x3f)) = width_of sf"
proof (cases sf)
  case True
  then have "ilog2 (push_bit 6 n OR (NOT imms AND 0x3f)) = 6"
    using assms by (intro ilog2_eq; unfold bit_length_field) (auto simp: bit_1_iff)
  then show ?thesis using True by (simp add: width_of_def)
next
  case False
  then have n: "n = 0" using assms by auto
  have "\<not> bit imms 5" using assms(3) False bit_unat_ge [of imms 5] by (auto simp: width_of_def)
  then have "ilog2 (push_bit 6 n OR (NOT imms AND 0x3f)) = 5"
    using n by (intro ilog2_eq; unfold bit_length_field) (auto simp: bit_1_iff)
  then show ?thesis using False by (simp add: width_of_def)
qed

lemma field_masks:
  assumes "decode_bit_masks n imms immr (width_of sf) False = Some (wmask, tmask)"
    and "(n = 1) = sf" "n = 0 \<or> n = 1" "unat imms < width_of sf" "unat immr < width_of sf"
  defines "W \<equiv> width_of sf" and "S \<equiv> unat imms" and "R \<equiv> unat immr"
  shows "bit wmask j \<longleftrightarrow> j < W \<and> (j + R) mod W \<le> S"
    and "bit tmask j \<longleftrightarrow> j < W \<and> j \<le> (S + W - R) mod W"
proof -
  have W: "W \<le> 64" "0 < W" by (simp_all add: W_def width_of_def)
  have "S mod W = S" "R mod W = R" using assms(4,5) by (simp_all add: W_def S_def R_def)
  then show "bit wmask j \<longleftrightarrow> j < W \<and> (j + R) mod W \<le> S"
    and "bit tmask j \<longleftrightarrow> j < W \<and> j \<le> (S + W - R) mod W"
    using decode_bit_masks_bits [OF assms(1) element_is_width [OF assms(2-4), symmetric], of j] W
    by (auto simp: W_def S_def R_def)
qed

lemma decode_fields:
  assumes "(n = 1) = sf" "n = 0 \<or> n = 1" "unat imms < width_of sf"
  shows "\<exists>wmask tmask. decode_bit_masks n imms immr (width_of sf) False = Some (wmask, tmask)"
proof -
  have e: "2 ^ ilog2 (push_bit 6 n OR (NOT imms AND 0x3f)) = width_of sf" by (rule element_is_width [OF assms])
  have "bit (push_bit 6 n OR (NOT imms AND 0x3f)) (if sf then 6 else 5)"
    unfolding bit_length_field using assms bit_unat_ge [of imms 5] by (auto simp: bit_1_iff width_of_def)
  then have "push_bit 6 n OR (NOT imms AND 0x3f) \<noteq> 0" by auto
  moreover have "ilog2 (push_bit 6 n OR (NOT imms AND 0x3f)) \<noteq> 0"
    using e by (intro notI) (simp add: width_of_def split: if_splits)
  ultimately show ?thesis by (simp add: decode_bit_masks_def Let_def)
qed

text \<open>Where the two masks let a destination bit come from the rotated source.\<close>

lemma field_position:
  fixes S R W j :: nat
  assumes "S < W" "R < W" "j < W"
  shows "(j + R) mod W \<le> S \<and> j \<le> (S + W - R) mod W \<longleftrightarrow>
      (if R \<le> S then j \<le> S - R else W - R \<le> j \<and> j \<le> W - R + S)"
    and "j \<le> (S + W - R) mod W \<longleftrightarrow> (if R \<le> S then j \<le> S - R else j \<le> W - R + S)"
    and "R \<le> S \<Longrightarrow> j \<le> S - R \<Longrightarrow> (j + R) mod W = j + R"
    and "S < R \<Longrightarrow> W - R \<le> j \<Longrightarrow> j \<le> W - R + S \<Longrightarrow> (j + R) mod W = j - (W - R)"
proof -
  have jr: "(j + R) mod W = (if j + R < W then j + R else j + R - W)"
    using assms by (cases "j + R < W") (simp_all add: le_mod_geq)
  have d: "(S + W - R) mod W = (if R \<le> S then S - R else S + W - R)"
  proof (cases "R \<le> S")
    case True
    then have "S + W - R = S - R + W" by simp
    then show ?thesis using True assms by (simp only: mod_add_self2) simp
  qed (use assms in simp)
  show "(j + R) mod W \<le> S \<and> j \<le> (S + W - R) mod W \<longleftrightarrow>
      (if R \<le> S then j \<le> S - R else W - R \<le> j \<and> j \<le> W - R + S)"
    using assms by (auto simp: jr d)
  show "j \<le> (S + W - R) mod W \<longleftrightarrow> (if R \<le> S then j \<le> S - R else j \<le> W - R + S)"
    using assms by (auto simp: d)
  show "R \<le> S \<Longrightarrow> j \<le> S - R \<Longrightarrow> (j + R) mod W = j + R" using assms by (simp add: jr)
  show "S < R \<Longrightarrow> W - R \<le> j \<Longrightarrow> j \<le> W - R + S \<Longrightarrow> (j + R) mod W = j - (W - R)"
    using assms by (simp add: jr)
qed

lemma bitfield_bits:
  fixes src :: u64
  assumes w: "\<And>j. bit wmask j \<longleftrightarrow> j < W \<and> (j + R) mod W \<le> S"
    and t: "\<And>j. bit tmask j \<longleftrightarrow> j < W \<and> j \<le> (S + W - R) mod W"
    and b: "S < W" "R < W" "W \<le> 64" "j < W"
  defines "lo \<equiv> ror_val src R W AND wmask"
  shows "bit (if opc = 0 then ((if drop_bit S src AND 1 = 1 then ones W else 0) AND NOT tmask) OR (lo AND tmask)
              else if opc = 1 then (dst AND NOT tmask) OR (((dst AND NOT wmask) OR lo) AND tmask)
              else lo AND tmask) j \<longleftrightarrow> bitfield_ref opc W S R src dst j"
proof -
  define pos where "pos \<longleftrightarrow> (j + R) mod W \<le> S"
  define low where "low \<longleftrightarrow> j \<le> (S + W - R) mod W"
  have s1: "drop_bit S src AND 1 = 1 \<longleftrightarrow> bit src S"
    by (simp add: bit_iff_odd_drop_bit and_one_eq odd_iff_mod_2_eq_one)
  have lo: "bit lo j \<longleftrightarrow> bit src ((j + R) mod W) \<and> pos"
    using b by (simp add: lo_def bit_and_iff bit_ror_val w pos_def)
  have masks: "bit wmask j \<longleftrightarrow> pos" "bit tmask j \<longleftrightarrow> low" using b by (simp_all add: w t pos_def low_def)
  have "bit (if opc = 0 then ((if drop_bit S src AND 1 = 1 then ones W else 0) AND NOT tmask) OR (lo AND tmask)
              else if opc = 1 then (dst AND NOT tmask) OR (((dst AND NOT wmask) OR lo) AND tmask)
              else lo AND tmask) j \<longleftrightarrow>
      (if low \<and> pos then bit src ((j + R) mod W)
       else if low then opc = 1 \<and> bit dst j
       else if opc = 0 then bit src S else opc = 1 \<and> bit dst j)"
    using b masks lo by (auto simp: bit_simps s1)
  also have "\<dots> \<longleftrightarrow> bitfield_ref opc W S R src dst j"
    using field_position [OF b(1,2,4)] b unfolding pos_def low_def bitfield_ref_def Let_def
    by (auto simp: not_le not_less)
  finally show ?thesis .
qed

lemma and_32_zero: "unat a < 32 \<Longrightarrow> unat b < 32 \<Longrightarrow> (a OR b) AND 0x20 = (0 :: u32)"
proof -
  assume "unat a < 32" "unat b < 32"
  then have "\<not> bit a 5" "\<not> bit b 5" using bit_unat_ge [of a 5] bit_unat_ge [of b 5] by auto
  moreover have eq: "(0x20 :: u32) = push_bit 5 1" by simp
  ultimately show ?thesis
    unfolding eq by (intro bit_eqI) (auto simp: bit_and_iff bit_or_iff bit_push_bit_iff bit_1_iff simp del: push_bit_numeral push_bit_of_1)
qed

lemma bit_low32: "bit (0xffffffff :: u64) j \<longleftrightarrow> j < 32"
proof -
  have eq: "(0xffffffff :: u64) = mask 32" by (simp add: mask_eq_exp_minus_1)
  show ?thesis unfolding eq bit_mask_iff by auto
qed

lemma bitfield_move:
  fixes instr :: u32 and c :: a64
  defines "sf \<equiv> drop_bit 31 instr = 1" and "S \<equiv> unat (fld instr 10 0x3f)" and "R \<equiv> unat (fld instr 16 0x3f)"
  assumes cls: "fld instr 23 7 = 6" "fld instr 29 3 \<noteq> 3" "(fld instr 22 1 = 1) = sf"
    and b: "S < width_of sf" "R < width_of sf"
  shows "\<exists>r. exec_dp_imm instr c = (write_x (reg_field instr 0) r c, Next)
    \<and> (\<forall>j. bit r j \<longleftrightarrow> j < width_of sf
          \<and> bitfield_ref (fld instr 29 3) (width_of sf) S R
               (read_x c (reg_field instr 5)) (read_x c (reg_field instr 0)) j)"
proof -
  obtain wmask tmask where d: "decode_bit_masks (fld instr 22 1) (fld instr 10 0x3f) (fld instr 16 0x3f) (width_of sf) False
      = Some (wmask, tmask)"
    using decode_fields [OF cls(3) fld_1 b(1) [unfolded S_def]] by blast
  note m = field_masks [OF d cls(3) fld_1 b(1) [unfolded S_def] b(2) [unfolded R_def], folded S_def R_def]
  have z: "\<not> sf \<Longrightarrow> (fld instr 16 0x3f OR fld instr 10 0x3f) AND 0x20 = 0"
    using and_32_zero b by (simp add: width_of_def S_def R_def)
  have bit_mask: "bit (mask_sf v sf) j \<longleftrightarrow> bit v j \<and> j < width_of sf" for v j
    using bit_imp_le_length [of v j]
    by (cases sf) (auto simp only: mask_sf_def width_of_def bit_and_iff bit_low32 if_True if_False len_num1 len_bit0, auto)
  let ?src = "read_x c (reg_field instr 5)" and ?dst = "read_x c (reg_field instr 0)" and ?opc = "fld instr 29 3"
  define lo where "lo = ror_val ?src R (width_of sf) AND wmask"
  define r where "r = (if ?opc = 0 then ((if drop_bit S ?src AND 1 = 1 then ones (width_of sf) else 0) AND NOT tmask) OR (lo AND tmask)
              else if ?opc = 1 then (?dst AND NOT tmask) OR (((?dst AND NOT wmask) OR lo) AND tmask)
              else lo AND tmask)"
  have "exec_dp_imm instr c = dp_bitfield instr c"
    using cls(1) by (simp add: exec_dp_imm_def)
  also have "\<dots> = (write_x (reg_field instr 0) (mask_sf r sf) c, Next)"
    unfolding dp_bitfield_def sf_def [symmetric] Let_def d option.case prod.case R_def [symmetric] S_def [symmetric]
      lo_def [symmetric] r_def [symmetric]
    using cls(2,3) z by auto
  moreover have "bit (mask_sf r sf) j \<longleftrightarrow> j < width_of sf \<and> bitfield_ref ?opc (width_of sf) S R ?src ?dst j" for j
  proof (cases "j < width_of sf")
    case True
    have "width_of sf \<le> 64" by (simp add: width_of_def)
    from bitfield_bits [OF m b this True, of ?opc ?src ?dst]
    show ?thesis unfolding bit_mask r_def lo_def using True by simp
  qed (simp add: bit_mask)
  ultimately show ?thesis by (intro exI [of _ "mask_sf r sf"]) simp
qed

subsection \<open>Properties\<close>

text \<open>
  C10. After \<^verbatim>\<open>CMP\<close> (and any other flag-setting subtraction, at either width) each condition code
  holds exactly when the comparison it is named for does: EQ, NE, HS, LO, HI, LS on the unsigned
  values of the operands, GE, LT, GT, LE on the signed ones, in the order of the list.
\<close>

theorem compare_sets_conditions:
  "map (cond_holds (fst (addsub_flags a b True sf c))) [0, 1, 2, 3, 8, 9, 10, 11, 12, 13, 14]
   = [uval sf a = uval sf b, uval sf a \<noteq> uval sf b, uval sf b \<le> uval sf a, uval sf a < uval sf b,
      uval sf b < uval sf a, uval sf a \<le> uval sf b, sval sf b \<le> sval sf a, sval sf a < sval sf b,
      sval sf b < sval sf a, sval sf a \<le> sval sf b, True]"
  by (simp add: compare_conditions) (simp add: cond_holds_def Let_def)



text \<open>
  C11. \<^verbatim>\<open>SBFM\<close>, \<^verbatim>\<open>BFM\<close> and \<^verbatim>\<open>UBFM\<close>, decoded through \<^verbatim>\<open>DecodeBitMasks\<close> and a rotation,
  compute the documented bitfield move, bit for bit, for every allocated encoding at both widths.
\<close>

theorem bitfield_move_exact:
  assumes "fld instr 23 7 = 6" "fld instr 29 3 \<noteq> 3" "(fld instr 22 1 = 1) = (drop_bit 31 instr = 1)"
    and "unat (fld instr 10 0x3f) < width_of (drop_bit 31 instr = 1)"
    and "unat (fld instr 16 0x3f) < width_of (drop_bit 31 instr = 1)"
  shows "\<exists>r. exec_dp_imm instr c = (write_x (reg_field instr 0) r c, Next)
    \<and> (\<forall>j. bit r j \<longleftrightarrow> j < width_of (drop_bit 31 instr = 1)
          \<and> bitfield_ref (fld instr 29 3) (width_of (drop_bit 31 instr = 1))
               (unat (fld instr 10 0x3f)) (unat (fld instr 16 0x3f))
               (read_x c (reg_field instr 5)) (read_x c (reg_field instr 0)) j)"
  using bitfield_move [OF assms] .

theorem bitfield_move_exact_witness:
  "\<exists>r. exec_dp_imm 0xD3441C20 (a64_new 0 0) = (write_x 0 r (a64_new 0 0), Next)
    \<and> (\<forall>j. bit r j \<longleftrightarrow> j < 64 \<and> bitfield_ref 2 64 7 4 (read_x (a64_new 0 0) 1) (read_x (a64_new 0 0) 0) j)"
  using bitfield_move_exact [of "0xD3441C20" "a64_new 0 0"]
  by (simp add: fld_def reg_field_def width_of_def)

end
