(* ===== verification/A64_Branch.thy ===== *)
theory A64_Branch
  imports A64_Alu
begin

text \<open>
  Branches, exception generation and system instructions of the aarch64 interpreter,
  \<^verbatim>\<open>src/vcpu/interp/branch.rs\<close>: the branch forms, \<^verbatim>\<open>SVC\<close> and \<^verbatim>\<open>BRK\<close>, hints and barriers, the
  flag instructions, the system registers and the cache maintenance operations, of which
  \<^verbatim>\<open>DC ZVA\<close> really stores.
\<close>

unbundle bit_operations_syntax

type_synonym 'm reader = "'m \<Rightarrow> u64 \<Rightarrow> nat \<Rightarrow> bytes option"
type_synonym 'm writer = "'m \<Rightarrow> u64 \<Rightarrow> bytes \<Rightarrow> 'm \<times> u64 option"

subsection \<open>System register keys and values\<close>

definition sysreg :: "u32 \<Rightarrow> u32 \<Rightarrow> u32 \<Rightarrow> u32 \<Rightarrow> u32 \<Rightarrow> u32" where
  "sysreg op0 op1 crn crm op2 =
     push_bit 14 op0 OR push_bit 11 op1 OR push_bit 7 crn OR push_bit 3 crm OR op2"

definition NZCV :: u32 where "NZCV = sysreg 3 3 4 2 0"
definition DIT :: u32 where "DIT = sysreg 3 3 4 2 5"
definition FPCR :: u32 where "FPCR = sysreg 3 3 4 4 0"
definition FPSR :: u32 where "FPSR = sysreg 3 3 4 4 1"
definition TPIDR_EL0 :: u32 where "TPIDR_EL0 = sysreg 3 3 13 0 2"
definition TPIDRRO_EL0 :: u32 where "TPIDRRO_EL0 = sysreg 3 3 13 0 3"
definition CTR_EL0 :: u32 where "CTR_EL0 = sysreg 3 3 0 0 1"
definition DCZID_EL0 :: u32 where "DCZID_EL0 = sysreg 3 3 0 0 7"
definition CNTFRQ_EL0 :: u32 where "CNTFRQ_EL0 = sysreg 3 3 14 0 0"
definition CNTVCT_EL0 :: u32 where "CNTVCT_EL0 = sysreg 3 3 14 0 2"

text \<open>
  The registers that read as constants: identification registers and the fixed parameters of the
  processor, with the values Linux shows a program on this CPU.
\<close>

definition const_sysregs :: "(u32 \<times> u64) list" where
  "const_sysregs =
     [(TPIDRRO_EL0, 0), (CTR_EL0, 0x8444C004), (DCZID_EL0, 0x4), (CNTFRQ_EL0, 1000000000),
      (sysreg 3 0 0 0 0, 0x410FD0C0), (sysreg 3 0 0 0 5, 0x80000000), (sysreg 3 0 0 0 6, 0),
      (sysreg 3 0 0 4 0, 0x0001000000110011), (sysreg 3 0 0 6 0, 0x0021100110212120),
      (sysreg 3 0 0 5 0, 0x6), (sysreg 3 0 0 7 0, 0xFF000000),
      (sysreg 3 0 0 6 1, 0x0010101100211002), (sysreg 3 0 0 7 2, 0x100000000)]"

definition sys_op :: "u32 \<Rightarrow> u32 \<Rightarrow> u32 \<Rightarrow> u32 \<Rightarrow> u32" where
  "sys_op op1 crn crm op2 = push_bit 11 op1 OR push_bit 7 crn OR push_bit 3 crm OR op2"

definition SYS_DC_ZVA :: u32 where "SYS_DC_ZVA = sys_op 3 7 4 1"
definition SYS_IC_IVAU :: u32 where "SYS_IC_IVAU = sys_op 3 7 5 1"
definition SYS_DC_CLEAN :: "u32 list" where
  "SYS_DC_CLEAN = [sys_op 3 7 10 1, sys_op 3 7 11 1, sys_op 3 7 14 1, sys_op 3 7 12 1, sys_op 3 7 13 1]"

definition DC_ZVA_BLOCK_BYTES :: nat where "DC_ZVA_BLOCK_BYTES = 64"

subsection \<open>System registers\<close>

definition read_sysreg :: "u32 \<Rightarrow> a64 \<Rightarrow> a64 \<times> u64 option" where
  "read_sysreg k c =
     (if k = NZCV then (c, Some (push_bit 28 (ucast (nzcv (rflags c)))))
      else if k = DIT then (c, Some (push_bit 24 (of_bool (dit c))))
      else if k = FPCR then (c, Some (fpcr c))
      else if k = FPSR then (c, Some (fpsr c))
      else if k = TPIDR_EL0 then (c, Some (tpidr c))
      else if k = CNTVCT_EL0 then let c = c\<lparr>cntvct := cntvct c + 1\<rparr> in (c, Some (cntvct c))
      else case map_of const_sysregs k of
             Some v \<Rightarrow> (c, Some v)
           | None \<Rightarrow> (c, if k AND 0xff80 = 0xc000 \<and> 1 \<le> (drop_bit 3 k AND 0xf) \<and> (drop_bit 3 k AND 0xf) \<le> 7
                        then Some 0 else None))"

definition write_sysreg :: "u32 \<Rightarrow> u64 \<Rightarrow> a64 \<Rightarrow> a64 \<times> bool" where
  "write_sysreg k v c =
     (if k = NZCV then (c\<lparr>rflags := from_nzcv (ucast (drop_bit 28 v))\<rparr>, True)
      else if k = DIT then (c\<lparr>dit := (drop_bit 24 v AND 1 = 1)\<rparr>, True)
      else if k = FPCR then (c\<lparr>fpcr := v AND FPCR_WRITABLE\<rparr>, True)
      else if k = FPSR then (c\<lparr>fpsr := v AND FPSR_WRITABLE\<rparr>, True)
      else if k = TPIDR_EL0 then (c\<lparr>tpidr := v\<rparr>, True)
      else (c, False))"

subsection \<open>System instructions\<close>

definition exec_msr_imm :: "u32 \<Rightarrow> u32 \<Rightarrow> u32 \<Rightarrow> a64 \<Rightarrow> a64 \<times> step_res" where
  "exec_msr_imm op1 crm op2 c =
     (let f = rflags c
      in if op1 = 0 \<and> op2 = 0 \<and> crm = 0 then (c\<lparr>rflags := f\<lparr>fl_c := \<not> fl_c f\<rparr>\<rparr>, Next)
         else if op1 = 0 \<and> op2 = 1 \<and> crm = 0
         then (c\<lparr>rflags := \<lparr>fl_n = (\<not> fl_c f \<and> \<not> fl_z f), fl_z = (fl_z f \<and> fl_c f),
                            fl_c = (fl_c f \<or> fl_z f), fl_v = (\<not> fl_c f \<and> fl_z f)\<rparr>\<rparr>, Next)
         else if op1 = 0 \<and> op2 = 2 \<and> crm = 0
         then (c\<lparr>rflags := \<lparr>fl_n = False, fl_z = (fl_z f \<or> fl_v f),
                            fl_c = (fl_c f \<and> \<not> fl_v f), fl_v = False\<rparr>\<rparr>, Next)
         else if op1 = 3 \<and> op2 = 2 then (c\<lparr>dit := (crm AND 1 = 1)\<rparr>, Next)
         else (c, Illegal))"

definition exec_sys :: "'m writer \<Rightarrow> u32 \<Rightarrow> a64 \<Rightarrow> 'm \<Rightarrow> a64 \<times> 'm \<times> step_res" where
  "exec_sys wr instr c m =
     (let rt = reg_field instr 0; k = fld instr 5 0x3fff
      in if k = SYS_DC_ZVA
         then let addr = read_x c rt AND NOT (word_of_nat DC_ZVA_BLOCK_BYTES - 1);
                  c = note_store addr DC_ZVA_BLOCK_BYTES c
              in case wr m addr (replicate DC_ZVA_BLOCK_BYTES 0) of
                   (m, Some e) \<Rightarrow> (c, m, Fault addr True)
                 | (m, None) \<Rightarrow> (c, m, Next)
         else if k = SYS_IC_IVAU then (invalidate_fetch c, m, Next)
         else if k \<in> set SYS_DC_CLEAN then (c, m, Next)
         else (c, m, Illegal))"

definition exec_system :: "'m writer \<Rightarrow> u32 \<Rightarrow> a64 \<Rightarrow> 'm \<Rightarrow> a64 \<times> 'm \<times> step_res" where
  "exec_system wr instr c m =
     (if fld instr 22 3 \<noteq> 0 then (c, m, Illegal)
      else let l = fld instr 21 1; op0 = fld instr 19 3; rt = reg_field instr 0
           in if op0 = 0
              then let op1 = fld instr 16 7; crn = fld instr 12 0xf; crm = fld instr 8 0xf; op2 = fld instr 5 7
                   in if l \<noteq> 0 \<or> rt \<noteq> 31 then (c, m, Illegal)
                      else if crn = 4 then let (c, r) = exec_msr_imm op1 crm op2 c in (c, m, r)
                      else if op1 \<noteq> 3 then (c, m, Illegal)
                      else if crn = 2 then (c, m, Next)
                      else if crn = 3
                      then if op2 = 2 then (c\<lparr>excl_monitor := False\<rparr>, m, Next)
                           else if op2 = 4 \<or> op2 = 5 then (c, m, Next)
                           else if op2 = 6 then (invalidate_fetch c, m, Next)
                           else if op2 = 7 \<and> crm = 0 then (c, m, Next)
                           else (c, m, Illegal)
                      else (c, m, Illegal)
              else if op0 = 1 then if l \<noteq> 0 then (c, m, Illegal) else exec_sys wr instr c m
              else let k = fld instr 5 0xffff
                   in if l = 1
                      then case read_sysreg k c of
                             (c, None) \<Rightarrow> (c, m, Illegal)
                           | (c, Some v) \<Rightarrow> (write_x rt v c, m, Next)
                      else case write_sysreg k (read_x c rt) c of
                             (c, ok) \<Rightarrow> (c, m, if ok then Next else Illegal))"

subsection \<open>Branches\<close>

definition exec_branch_reg :: "u32 \<Rightarrow> a64 \<Rightarrow> a64 \<times> step_res" where
  "exec_branch_reg instr c =
     (if instr AND 0xFE1FFC1F \<noteq> 0xD61F0000 then (c, Illegal)
      else let target = read_x c (reg_field instr 5); k = fld instr 21 0xf
           in if k = 0 \<or> k = 2 then (c\<lparr>rpc := target\<rparr>, Branched)
              else if k = 1 then (c\<lparr>rx := (rx c)[30 := rpc c + 4], rpc := target\<rparr>, Branched)
              else (c, Illegal))"

definition exec_branch_sys :: "'m writer \<Rightarrow> u32 \<Rightarrow> a64 \<Rightarrow> 'm \<Rightarrow> a64 \<times> 'm \<times> step_res" where
  "exec_branch_sys wr instr c m =
     (let k = drop_bit 29 instr; ret = (\<lambda>(c, r). (c, m, r))
      in if k = 0 \<or> k = 4
         then let c = (if drop_bit 31 instr = 1 then c\<lparr>rx := (rx c)[30 := rpc c + 4]\<rparr> else c);
                  off = push_bit 2 (sign_extend (ucast (instr AND 0x03ffffff)) 26)
              in ret (branch off c)
         else if k = 1 \<or> k = 5
         then let rt = reg_field instr 0; nonzero = (fld instr 24 1 = 1);
                  taken = (if fld instr 25 1 = 0
                           then let v = read_x c rt; v = (if drop_bit 31 instr = 1 then v else v AND 0xffffffff)
                                in (v \<noteq> 0) = nonzero
                           else let b = push_bit 5 (drop_bit 31 instr) OR fld instr 19 0x1f
                                in (drop_bit (unat b) (read_x c rt) AND 1 = 1) = nonzero)
              in if taken
                 then ret (branch (if fld instr 25 1 = 0 then push_bit 2 (sign_extend (ucast (fld instr 5 0x7ffff)) 19)
                                   else push_bit 2 (sign_extend (ucast (fld instr 5 0x3fff)) 14)) c)
                 else (c, m, Next)
         else if k = 2
         then if fld instr 24 3 \<noteq> 0 \<or> fld instr 4 1 \<noteq> 0 then (c, m, Illegal)
              else if cond_holds c (instr AND 0xf)
              then ret (branch (push_bit 2 (sign_extend (ucast (fld instr 5 0x7ffff)) 19)) c)
              else (c, m, Next)
         else if k = 6
         then let q = fld instr 24 3
              in if q = 0
                 then if instr AND 0xFFE0001F = 0xD4000001 then (c, m, Syscall)
                      else if instr AND 0xFFE0001F = 0xD4200000
                      then (c, m, Breakpoint (ucast (fld instr 5 0xffff)))
                      else (c, m, Illegal)
                 else if q = 1 then exec_system wr instr c m
                 else ret (exec_branch_reg instr c)
         else (c, m, Illegal))"
end
