(* ===== verification/A64_Ldst.thy ===== *)
theory A64_Ldst
  imports A64_Branch
begin

text \<open>
  Loads and stores of the aarch64 interpreter, \<^verbatim>\<open>src/vcpu/interp/ldst.rs\<close>: single registers in
  every addressing mode, literals, pairs, the exclusive and acquire/release family with the local
  monitor, the atomics, and the structure loads and stores of the vector registers. Every store
  first goes through \<open>note_store\<close>, then through the memory's own checks.
\<close>

unbundle bit_operations_syntax

subsection \<open>Decoding\<close>

datatype gpr_kind = GStore | GLoad | GLoadSx64 | GLoadSx32 | GPrefetch

definition gpr_op :: "u32 \<Rightarrow> u32 \<Rightarrow> bool \<Rightarrow> gpr_kind option" where
  "gpr_op sz opc prefetch_ok =
     (if opc = 0 then Some GStore
      else if opc = 1 then Some GLoad
      else if sz = 3 \<and> opc = 2 \<and> prefetch_ok then Some GPrefetch
      else if sz \<le> 2 \<and> opc = 2 then Some GLoadSx64
      else if sz \<le> 1 \<and> opc = 3 then Some GLoadSx32
      else None)"

definition fp_op :: "u32 \<Rightarrow> u32 \<Rightarrow> (nat \<times> bool) option" where
  "fp_op sz opc =
     (if opc AND 2 = 0 then Some (unat sz, opc AND 1 = 1)
      else if sz = 0 then Some (4, opc AND 1 = 1)
      else None)"

datatype addr_mode = AUnsigned u64 | AUnscaled u64 | AUnprivileged u64 | APre u64 | APost u64 | ARegister

definition crosses_granule :: "u64 \<Rightarrow> nat \<Rightarrow> bool" where
  "crosses_granule addr n \<longleftrightarrow> unat (addr AND 15) + n > 16"

subsection \<open>Accesses\<close>

definition mem_read_sized :: "'m reader \<Rightarrow> 'm \<Rightarrow> u64 \<Rightarrow> nat \<Rightarrow> u64 option" where
  "mem_read_sized rd m addr nbytes = map_option u64_from_le (rd m addr nbytes)"

definition load_x :: "'m reader \<Rightarrow> u64 \<Rightarrow> nat \<Rightarrow> nat \<Rightarrow> nat \<Rightarrow> a64 \<Rightarrow> 'm \<Rightarrow> a64 \<times> 'm \<times> step_res" where
  "load_x rd addr scale rt sx c m =
     (case rd m addr (2 ^ scale) of
        None \<Rightarrow> (c, m, Fault addr False)
      | Some bs \<Rightarrow>
          let raw = u64_from_le bs;
              v = (if sx = 0 then raw
                   else if sx = 64 then sign_extend raw (8 * 2 ^ scale)
                   else sign_extend raw (8 * 2 ^ scale) AND 0xffffffff)
          in (write_x rt v c, m, Next))"

text \<open>A store of \<open>bs\<close> at \<open>addr\<close>: the fault, if any, is at the address the memory names.\<close>

definition put_bytes :: "'m writer \<Rightarrow> u64 \<Rightarrow> bytes \<Rightarrow> a64 \<Rightarrow> 'm \<Rightarrow> a64 \<times> 'm \<times> step_res" where
  "put_bytes wr addr bs c m =
     (let c = note_store addr (length bs) c
      in case wr m addr bs of (m, Some e) \<Rightarrow> (c, m, Fault e True) | (m, None) \<Rightarrow> (c, m, Next))"

definition store_x :: "'m writer \<Rightarrow> u64 \<Rightarrow> nat \<Rightarrow> nat \<Rightarrow> a64 \<Rightarrow> 'm \<Rightarrow> a64 \<times> 'm \<times> step_res" where
  "store_x wr addr scale rt c m = put_bytes wr addr (take (2 ^ scale) (u64_to_le (read_x c rt))) c m"

definition u128_to_le :: "u128 \<Rightarrow> bytes" where
  "u128_to_le v = to_le 16 (unat v)"

definition u128_from_le :: "bytes \<Rightarrow> u128" where
  "u128_from_le bs = word_of_nat (from_le bs)"

definition ldst_vec :: "'m reader \<Rightarrow> 'm writer \<Rightarrow> u64 \<Rightarrow> nat \<Rightarrow> bool \<Rightarrow> nat \<Rightarrow> a64 \<Rightarrow> 'm
    \<Rightarrow> a64 \<times> 'm \<times> step_res" where
  "ldst_vec rd wr addr scale is_load rt c m =
     (if is_load
      then case rd m addr (2 ^ scale) of
             None \<Rightarrow> (c, m, Fault addr False)
           | Some bs \<Rightarrow> (c\<lparr>rv := (rv c)[rt := u128_from_le bs]\<rparr>, m, Next)
      else put_bytes wr addr (take (2 ^ scale) (u128_to_le (rv c ! rt))) c m)"

subsection \<open>Single registers\<close>

definition single_op :: "u32 \<Rightarrow> addr_mode \<Rightarrow> (nat \<times> gpr_kind) option" where
  "single_op instr mode =
     (let sz = drop_bit 30 instr; opc = fld instr 22 3
      in if fld instr 26 1 = 1
         then case mode of
                AUnprivileged _ \<Rightarrow> None
              | _ \<Rightarrow> map_option (\<lambda>(scale, ld). (scale, if ld then GLoad else GStore)) (fp_op sz opc)
         else map_option (\<lambda>op. (unat sz, op))
                (gpr_op sz opc (case mode of AUnsigned _ \<Rightarrow> True | AUnscaled _ \<Rightarrow> True | ARegister \<Rightarrow> True | _ \<Rightarrow> False)))"

text \<open>The address of an access and the base register's new value, if it is written back.\<close>

definition single_addr :: "u32 \<Rightarrow> addr_mode \<Rightarrow> nat \<Rightarrow> a64 \<Rightarrow> (u64 \<times> u64 option) option" where
  "single_addr instr mode scale c =
     (let base = read_sp c (reg_field instr 5)
      in case mode of
           AUnsigned imm \<Rightarrow> Some (base + push_bit scale imm, None)
         | AUnscaled imm \<Rightarrow> Some (base + imm, None)
         | AUnprivileged imm \<Rightarrow> Some (base + imm, None)
         | APre imm \<Rightarrow> Some (base + imm, Some (base + imm))
         | APost imm \<Rightarrow> Some (base, Some (base + imm))
         | ARegister \<Rightarrow>
             let opt = fld instr 13 7
             in if opt AND 2 = 0 then None
                else let shift = (if fld instr 12 1 = 1 then scale else 0)
                     in Some (base + extend_reg (read_x c (reg_field instr 16)) opt shift, None))"

definition exec_single :: "'m reader \<Rightarrow> 'm writer \<Rightarrow> u32 \<Rightarrow> addr_mode \<Rightarrow> a64 \<Rightarrow> 'm
    \<Rightarrow> a64 \<times> 'm \<times> step_res" where
  "exec_single rd wr instr mode c m =
     (let rt = reg_field instr 0; rn = reg_field instr 5
      in case single_op instr mode of
           None \<Rightarrow> (c, m, Illegal)
         | Some (scale, op) \<Rightarrow>
             (case single_addr instr mode scale c of
                None \<Rightarrow> (c, m, Illegal)
              | Some (addr, wback) \<Rightarrow>
                  let (c, m, r) =
                        (if fld instr 26 1 = 1 then ldst_vec rd wr addr scale (op = GLoad) rt c m
                         else case op of
                                GPrefetch \<Rightarrow> (c, m, Next)
                              | GStore \<Rightarrow> store_x wr addr scale rt c m
                              | GLoad \<Rightarrow> load_x rd addr scale rt 0 c m
                              | GLoadSx64 \<Rightarrow> load_x rd addr scale rt 64 c m
                              | GLoadSx32 \<Rightarrow> load_x rd addr scale rt 32 c m)
                  in case (r, wback) of
                       (Next, Some a) \<Rightarrow> (write_sp rn a c, m, r)
                     | _ \<Rightarrow> (c, m, r)))"

definition exec_literal :: "'m reader \<Rightarrow> 'm writer \<Rightarrow> u32 \<Rightarrow> a64 \<Rightarrow> 'm \<Rightarrow> a64 \<times> 'm \<times> step_res" where
  "exec_literal rd wr instr c m =
     (let opc = drop_bit 30 instr; rt = reg_field instr 0;
          addr = rpc c + push_bit 2 (sign_extend (ucast (fld instr 5 0x7ffff)) 19)
      in if fld instr 26 1 = 1
         then if opc = 3 then (c, m, Illegal) else ldst_vec rd wr addr (unat opc + 2) True rt c m
         else if opc = 0 then load_x rd addr 2 rt 0 c m
         else if opc = 1 then load_x rd addr 3 rt 0 c m
         else if opc = 2 then load_x rd addr 2 rt 64 c m
         else (c, m, Next))"

subsection \<open>Pairs\<close>

definition pair_op :: "u32 \<Rightarrow> (nat \<times> bool) option" where
  "pair_op instr =
     (let opc = drop_bit 30 instr; mode = fld instr 23 3; ld = (fld instr 22 1 = 1)
      in if fld instr 26 1 = 1 then if opc = 3 then None else Some (unat opc + 2, False)
         else if opc = 0 then Some (2, False)
         else if opc = 1 \<and> ld \<and> mode \<noteq> 0 then Some (2, True)
         else if opc = 2 then Some (3, False)
         else None)"

definition exec_pair :: "'m reader \<Rightarrow> 'm writer \<Rightarrow> u32 \<Rightarrow> a64 \<Rightarrow> 'm \<Rightarrow> a64 \<times> 'm \<times> step_res" where
  "exec_pair rd wr instr c m =
     (let vector = (fld instr 26 1 = 1); mode = fld instr 23 3; ld = (fld instr 22 1 = 1);
          rt = reg_field instr 0; rt2 = reg_field instr 10; rn = reg_field instr 5
      in case pair_op instr of
           None \<Rightarrow> (c, m, Illegal)
         | Some (scale, sx) \<Rightarrow>
             let off = push_bit scale (sign_extend (ucast (fld instr 15 0x7f)) 7);
                 base = read_sp c rn; addr = (if mode = 1 then base else base + off); nbytes = 2 ^ scale;
                 (c, m, r) =
                   (if ld
                    then case rd m addr (2 * nbytes) of
                           None \<Rightarrow> (c, m, Fault addr False)
                         | Some bs \<Rightarrow>
                             let a = u128_from_le (take nbytes bs); b = u128_from_le (drop nbytes bs)
                             in if vector then (c\<lparr>rv := (rv c)[rt := a, rt2 := b]\<rparr>, m, Next)
                                else if sx
                                then (write_x rt2 (sign_extend (ucast b) 32) (write_x rt (sign_extend (ucast a) 32) c), m, Next)
                                else (write_x rt2 (ucast b) (write_x rt (ucast a) c), m, Next)
                    else let a = (if vector then rv c ! rt else ucast (read_x c rt));
                             b = (if vector then rv c ! rt2 else ucast (read_x c rt2))
                         in put_bytes wr addr (take nbytes (u128_to_le a) @ take nbytes (u128_to_le b)) c m)
             in if r \<noteq> Next then (c, m, r)
                else if mode = 1 then (write_sp rn (base + off) c, m, Next)
                else if mode = 3 then (write_sp rn addr c, m, Next)
                else (c, m, Next))"

subsection \<open>Exclusives, ordered accesses and atomics\<close>

definition open_monitor :: "u64 \<Rightarrow> a64 \<Rightarrow> a64" where
  "open_monitor addr c = c\<lparr>excl_monitor := True, excl_addr := addr\<rparr>"

definition excl_check :: "u64 \<Rightarrow> a64 \<Rightarrow> a64 \<times> bool" where
  "excl_check addr c = (c\<lparr>excl_monitor := False\<rparr>, excl_monitor c \<and> excl_addr c = addr)"

text \<open>A sized store of an atomic: its caller reports the fault, at the access address.\<close>

definition mem_write_sized :: "'m writer \<Rightarrow> u64 \<Rightarrow> nat \<Rightarrow> u64 \<Rightarrow> a64 \<Rightarrow> 'm \<Rightarrow> a64 \<times> 'm \<times> bool" where
  "mem_write_sized wr addr nbytes v c m =
     (let c = note_store addr nbytes c; (m, e) = wr m addr (take nbytes (u64_to_le v))
      in (c, m, e = None))"

definition cas_single :: "'m reader \<Rightarrow> 'm writer \<Rightarrow> u64 \<Rightarrow> nat \<Rightarrow> nat \<Rightarrow> nat \<Rightarrow> a64 \<Rightarrow> 'm
    \<Rightarrow> a64 \<times> 'm \<times> step_res" where
  "cas_single rd wr addr nbytes rs rt c m =
     (case mem_read_sized rd m addr nbytes of
        None \<Rightarrow> (c, m, Fault addr False)
      | Some old \<Rightarrow>
          if old = read_x c rs AND ones (nbytes * 8)
          then let (c, m, ok) = mem_write_sized wr addr nbytes (read_x c rt) c m
               in if \<not> ok then (c, m, Fault addr True) else (write_x rs old c, m, Next)
          else (write_x rs old c, m, Next))"

definition cas_pair :: "'m reader \<Rightarrow> 'm writer \<Rightarrow> u64 \<Rightarrow> nat \<Rightarrow> nat \<Rightarrow> nat \<Rightarrow> a64 \<Rightarrow> 'm
    \<Rightarrow> a64 \<times> 'm \<times> step_res" where
  "cas_pair rd wr addr nbytes rs rt c m =
     (case mem_read_sized rd m addr nbytes of
        None \<Rightarrow> (c, m, Fault addr False)
      | Some old0 \<Rightarrow>
          let addr2 = addr + word_of_nat nbytes
          in case mem_read_sized rd m addr2 nbytes of
               None \<Rightarrow> (c, m, Fault addr2 False)
             | Some old1 \<Rightarrow>
                 let k = ones (nbytes * 8);
                     (c, m, r) =
                       (if old0 = read_x c rs AND k \<and> old1 = read_x c (rs + 1) AND k
                        then put_bytes wr addr (take nbytes (u64_to_le (read_x c rt))
                                                @ take nbytes (u64_to_le (read_x c (rt + 1)))) c m
                        else (c, m, Next))
                 in if r \<noteq> Next then (c, m, r)
                    else (write_x (rs + 1) old1 (write_x rs old0 c), m, Next))"

definition swp :: "'m reader \<Rightarrow> 'm writer \<Rightarrow> u64 \<Rightarrow> nat \<Rightarrow> nat \<Rightarrow> nat \<Rightarrow> a64 \<Rightarrow> 'm
    \<Rightarrow> a64 \<times> 'm \<times> step_res" where
  "swp rd wr addr nbytes rs rt c m =
     (case mem_read_sized rd m addr nbytes of
        None \<Rightarrow> (c, m, Fault addr False)
      | Some old \<Rightarrow>
          let (c, m, ok) = mem_write_sized wr addr nbytes (read_x c rs) c m
          in if \<not> ok then (c, m, Fault addr True) else (write_x rt old c, m, Next))"

definition ld_op_val :: "u32 \<Rightarrow> nat \<Rightarrow> u64 \<Rightarrow> u64 \<Rightarrow> u64" where
  "ld_op_val op nbits old s =
     (if op = 0 then (old + s) AND ones nbits
      else if op = 1 then old AND NOT s
      else if op = 2 then old XOR s
      else if op = 3 then old OR s
      else if op = 4 then if sint (sign_extend s nbits) \<le> sint (sign_extend old nbits) then old else s
      else if op = 5 then if sint (sign_extend old nbits) \<le> sint (sign_extend s nbits) then old else s
      else if op = 6 then max old s
      else min old s)"

definition ld_op :: "'m reader \<Rightarrow> 'm writer \<Rightarrow> u64 \<Rightarrow> nat \<Rightarrow> nat \<Rightarrow> nat \<Rightarrow> u32 \<Rightarrow> a64 \<Rightarrow> 'm
    \<Rightarrow> a64 \<times> 'm \<times> step_res" where
  "ld_op rd wr addr nbytes rs rt op c m =
     (case mem_read_sized rd m addr nbytes of
        None \<Rightarrow> (c, m, Fault addr False)
      | Some old \<Rightarrow>
          let nbits = nbytes * 8; s = read_x c rs AND ones nbits;
              (c, m, ok) = mem_write_sized wr addr nbytes (ld_op_val op nbits old s) c m
          in if \<not> ok then (c, m, Fault addr True) else (write_x rt old c, m, Next))"

definition exec_atomic :: "'m reader \<Rightarrow> 'm writer \<Rightarrow> u32 \<Rightarrow> a64 \<Rightarrow> 'm \<Rightarrow> a64 \<times> 'm \<times> step_res" where
  "exec_atomic rd wr instr c m =
     (let nbytes = 2 ^ unat (drop_bit 30 instr); rs = reg_field instr 16; rn = reg_field instr 5;
          rt = reg_field instr 0; o3 = fld instr 15 1; opc = fld instr 12 7;
          ldapr = (o3 = 1 \<and> opc = 4 \<and> fld instr 22 3 = 2 \<and> rs = 31)
      in if o3 = 1 \<and> opc \<noteq> 0 \<and> \<not> ldapr then (c, m, Illegal)
         else let addr = read_sp c rn
              in if crosses_granule addr nbytes then (c, m, Misaligned addr (\<not> ldapr))
                 else if o3 = 0 then ld_op rd wr addr nbytes rs rt opc c m
                 else if opc = 0 then swp rd wr addr nbytes rs rt c m
                 else if opc = 4 \<and> fld instr 22 3 = 2 \<and> rs = 31
                 then load_x rd addr (unat (drop_bit 30 instr)) rt 0 c m
                 else (c, m, Illegal))"

definition ldxr :: "'m reader \<Rightarrow> u64 \<Rightarrow> nat \<Rightarrow> nat \<Rightarrow> a64 \<Rightarrow> 'm \<Rightarrow> a64 \<times> 'm \<times> step_res" where
  "ldxr rd addr nbytes rt c m =
     (case mem_read_sized rd m addr nbytes of
        None \<Rightarrow> (c, m, Fault addr False)
      | Some v \<Rightarrow> (open_monitor addr (write_x rt v c), m, Next))"

definition stxr :: "'m writer \<Rightarrow> u64 \<Rightarrow> nat \<Rightarrow> nat \<Rightarrow> nat \<Rightarrow> a64 \<Rightarrow> 'm \<Rightarrow> a64 \<times> 'm \<times> step_res" where
  "stxr wr addr nbytes rs rt c m =
     (let (c, ok) = excl_check addr c
      in if ok
         then let (c, m, ok) = mem_write_sized wr addr nbytes (read_x c rt) c m
              in if \<not> ok then (c, m, Fault addr True) else (write_x rs 0 c, m, Next)
         else (write_x rs 1 c, m, Next))"

definition ldxp :: "'m reader \<Rightarrow> u64 \<Rightarrow> nat \<Rightarrow> nat \<Rightarrow> nat \<Rightarrow> a64 \<Rightarrow> 'm \<Rightarrow> a64 \<times> 'm \<times> step_res" where
  "ldxp rd addr nbytes rt rt2 c m =
     (case mem_read_sized rd m addr nbytes of
        None \<Rightarrow> (c, m, Fault addr False)
      | Some a \<Rightarrow>
          let addr2 = addr + word_of_nat nbytes
          in case mem_read_sized rd m addr2 nbytes of
               None \<Rightarrow> (c, m, Fault addr2 False)
             | Some b \<Rightarrow> (open_monitor addr (write_x rt2 b (write_x rt a c)), m, Next))"

definition stxp :: "'m writer \<Rightarrow> u64 \<Rightarrow> nat \<Rightarrow> nat \<Rightarrow> nat \<Rightarrow> nat \<Rightarrow> a64 \<Rightarrow> 'm \<Rightarrow> a64 \<times> 'm \<times> step_res" where
  "stxp wr addr nbytes rs rt rt2 c m =
     (let (c, ok) = excl_check addr c
      in if ok
         then let (c, m, r) = put_bytes wr addr (take nbytes (u64_to_le (read_x c rt))
                                                 @ take nbytes (u64_to_le (read_x c rt2))) c m
              in if r \<noteq> Next then (c, m, r) else (write_x rs 0 c, m, Next)
         else (write_x rs 1 c, m, Next))"

definition excl_bytes :: "u32 \<Rightarrow> u32 \<Rightarrow> nat \<Rightarrow> nat" where
  "excl_bytes o2 o1 sz =
     (if o1 = 1 \<and> (o2 = 1 \<or> sz < 2) then if o2 = 1 then 2 ^ sz else 8 * 2 ^ (sz mod 2)
      else if o1 = 1 then 2 * 2 ^ sz
      else 2 ^ sz)"

definition exec_exclusive :: "'m reader \<Rightarrow> 'm writer \<Rightarrow> u32 \<Rightarrow> a64 \<Rightarrow> 'm \<Rightarrow> a64 \<times> 'm \<times> step_res" where
  "exec_exclusive rd wr instr c m =
     (let sz = unat (drop_bit 30 instr); o2 = fld instr 23 1; ld = (fld instr 22 1 = 1);
          o1 = fld instr 21 1; o0 = fld instr 15 1; rs = reg_field instr 16; rt2 = reg_field instr 10;
          rn = reg_field instr 5; rt = reg_field instr 0; addr = read_sp c rn;
          unallocated = (if o2 = 1 \<and> o1 = 0 then o0 = 0
                         else if o2 = 1 \<and> o1 = 1 then rt2 \<noteq> 31
                         else if o2 = 0 \<and> o1 = 1 \<and> sz < 2 then odd rs \<or> odd rt \<or> rt2 \<noteq> 31
                         else False)
      in if unallocated then (c, m, Illegal)
         else if crosses_granule addr (excl_bytes o2 o1 sz) then (c, m, Misaligned addr (\<not> ld))
         else if o2 = 0 \<and> o1 = 0
         then if ld then ldxr rd addr (2 ^ sz) rt c m else stxr wr addr (2 ^ sz) rs rt c m
         else if o2 = 0 \<and> o1 = 1 \<and> sz \<ge> 2
         then if ld then ldxp rd addr (2 ^ sz) rt rt2 c m else stxp wr addr (2 ^ sz) rs rt rt2 c m
         else if o2 = 0 \<and> o1 = 1
         then if odd rs \<or> odd rt \<or> rt2 \<noteq> 31 then (c, m, Illegal)
              else cas_pair rd wr addr (if odd sz then 8 else 4) rs rt c m
         else if o2 = 1 \<and> o1 = 0
         then if o0 = 0 then (c, m, Illegal)
              else if ld then load_x rd addr sz rt 0 c m else store_x wr addr sz rt c m
         else if rt2 \<noteq> 31 then (c, m, Illegal)
              else cas_single rd wr addr (2 ^ sz) rs rt c m)"

definition exec_rcpc2 :: "'m reader \<Rightarrow> 'm writer \<Rightarrow> u32 \<Rightarrow> a64 \<Rightarrow> 'm \<Rightarrow> a64 \<times> 'm \<times> step_res" where
  "exec_rcpc2 rd wr instr c m =
     (let sz = unat (drop_bit 30 instr); opc = fld instr 22 3; rt = reg_field instr 0;
          imm9 = sign_extend (ucast (fld instr 12 0x1ff)) 9; addr = read_sp c (reg_field instr 5) + imm9
      in if opc \<ge> 2 \<and> (sz = 3 \<or> (sz = 2 \<and> opc = 3)) then (c, m, Illegal)
         else if crosses_granule addr (2 ^ sz) then (c, m, Misaligned addr (opc = 0))
         else if opc = 0 then store_x wr addr sz rt c m
         else if opc = 1 then load_x rd addr sz rt 0 c m
         else if sz \<le> 2 \<and> opc = 2 then load_x rd addr sz rt 64 c m
         else if sz \<le> 1 \<and> opc = 3 then load_x rd addr sz rt 32 c m
         else (c, m, Illegal))"

subsection \<open>Vector structures\<close>

text \<open>
  The element of a single-structure access: its size (as a power of two), whether a load
  replicates it over the register, and its lane.
\<close>

definition simd_lane :: "bool \<Rightarrow> bool \<Rightarrow> nat \<Rightarrow> nat \<Rightarrow> nat \<Rightarrow> (nat \<times> bool \<times> nat) option" where
  "simd_lane ld q opc3 s sz =
     (let scale = opc3 div 2; q = of_bool q
      in if scale = 3 then if \<not> ld \<or> s \<noteq> 0 then None else Some (sz, True, 0)
         else if scale = 0 then Some (0, False, q * 8 + s * 4 + sz)
         else if scale = 1 then if odd sz then None else Some (1, False, q * 4 + s * 2 + sz div 2)
         else if sz \<ge> 2 then None
         else if sz = 0 then Some (2, False, q * 2 + s)
         else if s \<noteq> 0 then None
         else Some (3, False, q))"

definition set_lane :: "bool \<Rightarrow> bool \<Rightarrow> nat \<Rightarrow> nat \<Rightarrow> u128 \<Rightarrow> u128 \<Rightarrow> u128" where
  "set_lane q rep esize index elem v =
     (if rep
      then fold (\<lambda>i w. w OR push_bit (i * esize) elem) [0..<(if q then 128 else 64) div esize] 0
      else let sh = index * esize
           in (v AND NOT (push_bit sh (ucast (ones esize)))) OR push_bit sh elem)"

definition simd_single_load :: "bool \<Rightarrow> bool \<Rightarrow> nat \<Rightarrow> nat \<Rightarrow> nat \<Rightarrow> nat \<Rightarrow> bytes \<Rightarrow> u128 list \<Rightarrow> u128 list" where
  "simd_single_load q rep ebytes index selem rt buf vs =
     fold (\<lambda>s vs. let elem = u128_from_le (take ebytes (drop (s * ebytes) buf)); t = (rt + s) mod 32
                  in vs[t := set_lane q rep (8 * ebytes) index elem (vs ! t)]) [0..<selem] vs"

definition simd_single_bytes :: "nat \<Rightarrow> nat \<Rightarrow> nat \<Rightarrow> nat \<Rightarrow> u128 list \<Rightarrow> bytes" where
  "simd_single_bytes ebytes index selem rt vs =
     concat (map (\<lambda>s. let elem = (ucast (drop_bit (index * (8 * ebytes)) (vs ! ((rt + s) mod 32))) :: u64)
                                AND ones (8 * ebytes)
                      in take ebytes (u64_to_le elem)) [0..<selem])"

text \<open>The order in which a multiple-structure access visits memory: repeat, lane, structure.\<close>

definition simd_order :: "nat \<Rightarrow> nat \<Rightarrow> nat \<Rightarrow> (nat \<times> nat \<times> nat) list" where
  "simd_order rpt elements selem =
     concat (map (\<lambda>r. concat (map (\<lambda>e. map (\<lambda>s. (r, e, s)) [0..<selem]) [0..<elements])) [0..<rpt])"

definition splice :: "bytes \<Rightarrow> nat \<Rightarrow> bytes \<Rightarrow> bytes" where
  "splice xs i ys = take i xs @ ys @ drop (i + length ys) xs"

definition simd_multi_load :: "nat \<Rightarrow> nat \<Rightarrow> nat \<Rightarrow> nat \<Rightarrow> nat \<Rightarrow> bytes \<Rightarrow> u128 list \<Rightarrow> u128 list" where
  "simd_multi_load rpt selem elements ebytes rt buf vs =
     (let regs = fold (\<lambda>(i, (r, e, s)) regs.
                    regs[r + s := splice (regs ! (r + s)) (e * ebytes) (take ebytes (drop (i * ebytes) buf))])
                  (enumerate 0 (simd_order rpt elements selem)) (replicate 4 (replicate 16 0))
      in fold (\<lambda>i vs. vs[(rt + i) mod 32 := u128_from_le (regs ! i)]) [0..<max rpt selem] vs)"

definition simd_multi_bytes :: "nat \<Rightarrow> nat \<Rightarrow> nat \<Rightarrow> nat \<Rightarrow> nat \<Rightarrow> u128 list \<Rightarrow> bytes" where
  "simd_multi_bytes rpt selem elements ebytes rt vs =
     concat (map (\<lambda>(r, e, s). take ebytes (drop (e * ebytes) (u128_to_le (vs ! ((rt + r + s) mod 32)))))
                 (simd_order rpt elements selem))"

definition simd_multi_shape :: "u32 \<Rightarrow> (nat \<times> nat) option" where
  "simd_multi_shape opcode =
     map_of [(0, (1, 4)), (2, (4, 1)), (4, (1, 3)), (6, (3, 1)), (7, (1, 1)), (8, (1, 2)), (10, (2, 1))] opcode"

text \<open>The transfer itself, before the base register moves.\<close>

definition simd_transfer :: "'m reader \<Rightarrow> 'm writer \<Rightarrow> bool \<Rightarrow> u64 \<Rightarrow> nat
    \<Rightarrow> (bytes \<Rightarrow> u128 list \<Rightarrow> u128 list) \<Rightarrow> bytes \<Rightarrow> a64 \<Rightarrow> 'm \<Rightarrow> a64 \<times> 'm \<times> step_res" where
  "simd_transfer rd wr ld addr tot take_in out c m =
     (if ld
      then case rd m addr tot of
             None \<Rightarrow> (c, m, Fault addr False)
           | Some buf \<Rightarrow> (c\<lparr>rv := take_in buf (rv c)\<rparr>, m, Next)
      else put_bytes wr addr out c m)"

definition simd_struct_access :: "'m reader \<Rightarrow> 'm writer \<Rightarrow> u32 \<Rightarrow> a64 \<Rightarrow> 'm
    \<Rightarrow> (a64 \<times> 'm \<times> step_res) \<times> nat" where
  "simd_struct_access rd wr instr c m =
     (let q = (fld instr 30 1 = 1); single = (fld instr 24 1 = 1); ld = (fld instr 22 1 = 1);
          r_bit = unat (fld instr 21 1); opcode = fld instr 12 0xf; sz = unat (fld instr 10 3);
          rt = reg_field instr 0; addr = read_sp c (reg_field instr 5)
      in if single
         then let opc3 = unat (drop_bit 1 opcode); s = unat (opcode AND 1);
                  selem = (opc3 mod 2) * 2 + r_bit + 1
              in case simd_lane ld q opc3 s sz of
                   None \<Rightarrow> ((c, m, Illegal), 0)
                 | Some (scale, rep, index) \<Rightarrow>
                     let ebytes = 2 ^ scale; tot = ebytes * selem
                     in (simd_transfer rd wr ld addr tot
                           (simd_single_load q rep ebytes index selem rt)
                           (simd_single_bytes ebytes index selem rt (rv c)) c m, tot)
         else case simd_multi_shape opcode of
                None \<Rightarrow> ((c, m, Illegal), 0)
              | Some (rpt, selem) \<Rightarrow>
                  if sz = 3 \<and> \<not> q \<and> selem \<noteq> 1 then ((c, m, Illegal), 0)
                  else let ebytes = 2 ^ sz; regbytes = (if q then 16 else 8);
                           elements = regbytes div ebytes; tot = rpt * selem * regbytes
                       in (simd_transfer rd wr ld addr tot
                             (simd_multi_load rpt selem elements ebytes rt)
                             (simd_multi_bytes rpt selem elements ebytes rt (rv c)) c m, tot))"

definition exec_simd_struct :: "'m reader \<Rightarrow> 'm writer \<Rightarrow> u32 \<Rightarrow> a64 \<Rightarrow> 'm \<Rightarrow> a64 \<times> 'm \<times> step_res" where
  "exec_simd_struct rd wr instr c m =
     (let post = (fld instr 23 1 = 1); single = (fld instr 24 1 = 1); rm = reg_field instr 16;
          rn = reg_field instr 5; addr = read_sp c rn
      in if drop_bit 31 instr \<noteq> 0 then (c, m, Illegal)
         else if (\<not> post \<and> rm \<noteq> 0) \<or> (\<not> single \<and> fld instr 21 1 \<noteq> 0) then (c, m, Illegal)
         else let ((c, m, r), tot) = simd_struct_access rd wr instr c m
              in if r = Next \<and> post
                 then let off = (if rm = 31 then word_of_nat tot else read_x c rm)
                      in (write_sp rn (addr + off) c, m, Next)
                 else (c, m, r))"

subsection \<open>The load and store group\<close>

definition exec_ldst :: "'m reader \<Rightarrow> 'm writer \<Rightarrow> u32 \<Rightarrow> a64 \<Rightarrow> 'm \<Rightarrow> a64 \<times> 'm \<times> step_res" where
  "exec_ldst rd wr instr c m =
     (let vector = (fld instr 26 1 = 1); k = fld instr 28 3
      in if fld instr 5 0x1f = 31 \<and> rsp c AND 15 \<noteq> 0 \<and> \<not> (k = 1 \<and> fld instr 24 1 = 0)
            \<and> instr AND 0xFFC00000 \<noteq> 0xF9800000 \<and> instr AND 0xFFC00000 \<noteq> 0xF8800000
         then (c, m, Misaligned (rsp c) False)
         else if k = 0
         then if vector then exec_simd_struct rd wr instr c m
              else if fld instr 24 1 = 0 then exec_exclusive rd wr instr c m
              else (c, m, Illegal)
         else if k = 1
         then if fld instr 24 1 = 0 then exec_literal rd wr instr c m
              else if \<not> vector \<and> fld instr 21 1 = 0 \<and> fld instr 10 3 = 0 then exec_rcpc2 rd wr instr c m
              else (c, m, Illegal)
         else if k = 2 then exec_pair rd wr instr c m
         else if fld instr 24 1 = 1
         then exec_single rd wr instr (AUnsigned (ucast (fld instr 10 0xfff))) c m
         else if fld instr 21 1 = 0
         then let imm9 = sign_extend (ucast (fld instr 12 0x1ff)) 9; q = fld instr 10 3;
                  mode = (if q = 0 then AUnscaled imm9 else if q = 1 then APost imm9
                          else if q = 2 then AUnprivileged imm9 else APre imm9)
              in exec_single rd wr instr mode c m
         else if fld instr 10 3 = 0 \<and> \<not> vector then exec_atomic rd wr instr c m
         else if fld instr 10 3 = 2 then exec_single rd wr instr ARegister c m
         else (c, m, Illegal))"

end
