(* ===== verification/A64_Run.thy ===== *)
theory A64_Run
  imports A64_Ldst
begin

text \<open>
  The instruction dispatch and the run loop of the aarch64 interpreter, \<^verbatim>\<open>src/vcpu/interp.rs\<close>,
  and the properties of whole executions. Scalar floating point and vector arithmetic
  (\<^verbatim>\<open>exec_simd_fp\<close>) is the parameter \<open>simd\<close>; the preemption clock is the parameter \<open>intr\<close>, which
  says whether the quantum or the embedder's deadline has passed at a given iteration.
\<close>

unbundle bit_operations_syntax

type_synonym simd_unit = "u32 \<Rightarrow> a64 \<Rightarrow> a64 \<times> step_res"

definition MAX_STEPS :: nat where "MAX_STEPS = 50000000"

definition exec :: "simd_unit \<Rightarrow> 'm reader \<Rightarrow> 'm writer \<Rightarrow> u32 \<Rightarrow> a64 \<Rightarrow> 'm \<Rightarrow> a64 \<times> 'm \<times> step_res" where
  "exec simd rd wr instr c m =
     (let k = fld instr 25 0xf; ret = (\<lambda>(c, r). (c, m, r))
      in if k = 8 \<or> k = 9 then ret (exec_dp_imm instr c)
         else if k = 4 \<or> k = 6 \<or> k = 12 \<or> k = 14 then exec_ldst rd wr instr c m
         else if k = 5 \<or> k = 13 then ret (exec_dp_reg instr c)
         else if k = 10 \<or> k = 11 then exec_branch_sys wr instr c m
         else if k = 7 \<or> k = 15 then ret (simd instr c)
         else (c, m, Illegal))"

text \<open>One turn of the loop after the fetch: an exit, or the processor moved on.\<close>

definition retire_step :: "step_res \<Rightarrow> a64 \<Rightarrow> a64 \<times> exit_res option" where
  "retire_step r c =
     (case r of
        Next \<Rightarrow> (c\<lparr>rpc := rpc c + 4\<rparr>, None)
      | Branched \<Rightarrow> (c, None)
      | Syscall \<Rightarrow> (c, Some ExSyscall)
      | Illegal \<Rightarrow> (c, Some (ExIllegalInstruction (rpc c)))
      | Fault addr w \<Rightarrow> (c, Some (ExMemFault addr w))
      | Breakpoint imm \<Rightarrow> (c, Some (ExBreakpoint (rpc c) (ucast imm)))
      | Misaligned addr w \<Rightarrow> (c, Some (ExMisaligned addr w)))"

definition fetch_instr :: "'m reader \<Rightarrow> a64 \<Rightarrow> 'm \<Rightarrow> a64 \<times> u32 option" where
  "fetch_instr rd c m =
     (if rpc c AND 3 = 0
      then let (fc, r) = fc_fetch rd (rpc c) m (fetch c) in (c\<lparr>fetch := fc\<rparr>, r)
      else (c, None))"

definition fetch_exit :: "a64 \<Rightarrow> exit_res" where
  "fetch_exit c = (if rpc c AND 3 = 0 then ExMemFault (rpc c) False else ExMisaligned (rpc c) False)"

primrec run_loop :: "simd_unit \<Rightarrow> 'm reader \<Rightarrow> 'm writer \<Rightarrow> (nat \<Rightarrow> bool) \<Rightarrow> nat \<Rightarrow> nat \<Rightarrow> a64 \<Rightarrow> 'm
    \<Rightarrow> a64 \<times> 'm \<times> exit_res" where
  "run_loop simd rd wr intr 0 i c m = (c, m, ExInterrupted)"
| "run_loop simd rd wr intr (Suc n) i c m =
     (if i mod 4096 = 4095 \<and> intr i then (c, m, ExInterrupted)
      else case fetch_instr rd c m of
             (c, None) \<Rightarrow> (c, m, fetch_exit c)
           | (c, Some instr) \<Rightarrow>
               let (c, m, r) = exec simd rd wr instr c m
               in case retire_step r c of
                    (c, Some ex) \<Rightarrow> (c, m, ex)
                  | (c, None) \<Rightarrow> run_loop simd rd wr intr n (Suc i) c m)"

definition a64_run :: "simd_unit \<Rightarrow> 'm reader \<Rightarrow> 'm writer \<Rightarrow> (nat \<Rightarrow> bool) \<Rightarrow> a64 \<Rightarrow> 'm
    \<Rightarrow> a64 \<times> 'm \<times> exit_res" where
  "a64_run simd rd wr intr c m =
     run_loop simd rd wr intr MAX_STEPS 0 (c\<lparr>excl_monitor := False, fetch := fc_clear (fetch c)\<rparr>) m"

subsection \<open>The one store of an instruction\<close>

text \<open>
  What an instruction does to memory, to the fetch cache and to the monitor: either memory stays
  and the monitor is not opened, or there is one store, announced by \<open>note_store\<close>, and the
  monitor is closed.
\<close>

definition calm :: "a64 \<Rightarrow> a64 \<Rightarrow> bool" where
  "calm c c' \<longleftrightarrow> (fetch c' = fetch c \<or> fetch c' = fc_clear (fetch c))
     \<and> (excl_monitor c' \<longrightarrow> excl_monitor c \<and> excl_addr c' = excl_addr c)"

definition stores :: "'m writer \<Rightarrow> a64 \<Rightarrow> 'm \<Rightarrow> a64 \<Rightarrow> 'm \<Rightarrow> bool" where
  "stores wr c m c' m' \<longleftrightarrow> (\<exists>addr bs. 0 < length bs \<and> length bs \<le> 64 \<and> m' = fst (wr m addr bs)
     \<and> fetch c' = fc_invalidate addr (length bs) (fetch c) \<and> \<not> excl_monitor c')"

definition effect :: "'m writer \<Rightarrow> a64 \<Rightarrow> 'm \<Rightarrow> a64 \<times> 'm \<times> step_res \<Rightarrow> bool" where
  "effect wr c m res \<longleftrightarrow> (case res of (c', m', r) \<Rightarrow> (m' = m \<and> calm c c') \<or> stores wr c m c' m')"

lemma calm_refl [simp]: "calm c c"
  by (simp add: calm_def)

lemma effect_same [simp]: "calm c c' \<Longrightarrow> effect wr c m (c', m, r)"
  by (simp add: effect_def)

lemma calm_alu: "alu_only c c' \<Longrightarrow> calm c c'"
  by (cases c; cases c') (simp add: alu_only_def calm_def)

lemma calm_write [simp]:
  "calm c (write_x i v d) = calm c d" "calm c (write_sp i v d) = calm c d"
  "calm c (d\<lparr>rpc := p\<rparr>) = calm c d" "calm c (d\<lparr>rx := xs\<rparr>) = calm c d"
  "calm c (d\<lparr>rv := vs\<rparr>) = calm c d" "calm c (d\<lparr>rflags := f\<rparr>) = calm c d"
  "calm c (d\<lparr>dit := b\<rparr>) = calm c d" "calm c (d\<lparr>fpcr := p\<rparr>) = calm c d"
  "calm c (d\<lparr>fpsr := p\<rparr>) = calm c d" "calm c (d\<lparr>tpidr := p\<rparr>) = calm c d"
  "calm c (d\<lparr>cntvct := p\<rparr>) = calm c d"
  by (simp_all add: calm_def write_x_def write_sp_def)

lemma calm_close [simp]: "calm c (c\<lparr>excl_monitor := False\<rparr>)" "calm c (invalidate_fetch c)"
  by (simp_all add: calm_def invalidate_fetch_def)

lemma stores_write [simp]:
  "stores wr c m (write_x i v d) m' = stores wr c m d m'" "stores wr c m (write_sp i v d) m' = stores wr c m d m'"
  by (simp_all add: stores_def write_x_def write_sp_def)

lemma effect_write [simp]:
  "effect wr c m (write_x i v d, m', r) = effect wr c m (d, m', r)"
  "effect wr c m (write_sp i v d, m', r) = effect wr c m (d, m', r)"
  by (simp_all add: effect_def)

lemma stores_note:
  "wr m addr bs = (m', e) \<Longrightarrow> 0 < length bs \<Longrightarrow> length bs \<le> 64 \<Longrightarrow> fetch d = fetch c \<Longrightarrow> n = length bs \<Longrightarrow>
    stores wr c m (note_store addr n d) m'"
  unfolding stores_def by (intro exI [of _ addr] exI [of _ bs]) (simp add: note_store_def)

lemma put_bytes_effect:
  "0 < length bs \<Longrightarrow> length bs \<le> 64 \<Longrightarrow> fetch d = fetch c \<Longrightarrow> effect wr c m (put_bytes wr addr bs d m)"
  by (auto simp: put_bytes_def effect_def Let_def stores_note split: prod.split option.split)

lemma load_x_effect: "effect wr c m (load_x rd addr scale rt sx c m)"
  by (simp add: load_x_def Let_def split: option.split)

lemma length_u128_to_le [simp]: "length (u128_to_le v) = 16"
  by (simp add: u128_to_le_def)

lemma to_le_ne [simp]: "u64_to_le v \<noteq> []" "u128_to_le w \<noteq> []"
  using length_u64_to_le [of v] length_u128_to_le [of w] by (metis list.size(3) zero_neq_numeral)+

lemma store_x_effect: "effect wr c m (store_x wr addr scale rt c m)"
  by (simp add: store_x_def put_bytes_effect)

lemma ldst_vec_effect: "effect wr c m (ldst_vec rd wr addr scale ld rt c m)"
  by (auto simp: ldst_vec_def put_bytes_effect split: option.split)


lemma exec_single_effect: "effect wr c m (exec_single rd wr instr mode c m)"
proof (cases "single_op instr mode")
  case (Some so)
  obtain scale op where so: "so = (scale, op)" by (cases so)
  show ?thesis
  proof (cases "single_addr instr mode scale c")
    case (Some sa)
    obtain addr wback where sa: "sa = (addr, wback)" by (cases sa)
    define acc where "acc = (if fld instr 26 1 = 1 then ldst_vec rd wr addr scale (op = GLoad) (reg_field instr 0) c m
                         else case op of
                                GPrefetch \<Rightarrow> (c, m, Next)
                              | GStore \<Rightarrow> store_x wr addr scale (reg_field instr 0) c m
                              | GLoad \<Rightarrow> load_x rd addr scale (reg_field instr 0) 0 c m
                              | GLoadSx64 \<Rightarrow> load_x rd addr scale (reg_field instr 0) 64 c m
                              | GLoadSx32 \<Rightarrow> load_x rd addr scale (reg_field instr 0) 32 c m)"
    have "effect wr c m acc"
      by (simp add: acc_def ldst_vec_effect store_x_effect load_x_effect split: gpr_kind.split)
    moreover obtain d m' r where acc: "acc = (d, m', r)" by (cases acc) auto
    moreover have "exec_single rd wr instr mode c m =
        (case (r, wback) of (Next, Some a) \<Rightarrow> (write_sp (reg_field instr 5) a d, m', r) | _ \<Rightarrow> (d, m', r))"
      using \<open>single_op instr mode = Some so\<close> Some acc
      by (simp add: exec_single_def so sa Let_def acc_def [symmetric])
    ultimately show ?thesis by (auto split: step_res.split option.split)
  qed (simp add: exec_single_def so Some)
qed (simp add: exec_single_def)

lemma exec_literal_effect: "effect wr c m (exec_literal rd wr instr c m)"
  by (simp add: exec_literal_def Let_def ldst_vec_effect load_x_effect)

lemma effect_wb:
  assumes "effect wr c m res"
  shows "effect wr c m (case res of (d, m', r) \<Rightarrow> if r \<noteq> Next then (d, m', r) else if A then (write_sp i a d, m', Next) else if B then (write_sp j b d, m', Next) else (d, m', Next))"
  using assms by (cases res) (auto simp: effect_def)

lemma exec_pair_effect: "effect wr c m (exec_pair rd wr instr c m)"
proof (cases "pair_op instr")
  case (Some po)
  obtain scale sx where po: "po = (scale, sx)" by (cases po)
  show ?thesis
    unfolding exec_pair_def Let_def Some option.case po prod.case
    by (rule effect_wb) (auto simp: put_bytes_effect split: option.split)
qed (simp add: exec_pair_def)

lemma mem_write_sized_effect:
  assumes "mem_write_sized wr addr nbytes v d m = (d', m', ok)" "0 < nbytes" "nbytes \<le> 8" "fetch d = fetch c"
  shows "effect wr c m (d', m', r)"
proof -
  obtain e where "wr m addr (take nbytes (u64_to_le v)) = (m', e)" "d' = note_store addr nbytes d"
    using assms(1) by (auto simp: mem_write_sized_def Let_def split: prod.splits)
  then have "stores wr c m d' m'" using assms(2-4) by (auto intro!: stores_note)
  then show ?thesis by (simp add: effect_def)
qed

lemma swp_effect: "0 < n \<Longrightarrow> n \<le> 8 \<Longrightarrow> effect wr c m (swp rd wr addr n rs rt c m)"
  by (auto simp: swp_def mem_write_sized_effect split: option.split prod.split)

lemma ld_op_effect: "0 < n \<Longrightarrow> n \<le> 8 \<Longrightarrow> effect wr c m (ld_op rd wr addr n rs rt op c m)"
  by (auto simp: ld_op_def Let_def mem_write_sized_effect split: option.split prod.split)

lemma cas_single_effect: "0 < n \<Longrightarrow> n \<le> 8 \<Longrightarrow> effect wr c m (cas_single rd wr addr n rs rt c m)"
  by (auto simp: cas_single_def mem_write_sized_effect split: option.split prod.split)

lemma effect_regs:
  assumes "effect wr c m res"
  shows "effect wr c m (case res of (d, m', r) \<Rightarrow> if r \<noteq> Next then (d, m', r) else (write_x i a (write_x j b d), m', Next))"
    and "effect wr c m (case res of (d, m', r) \<Rightarrow> if r \<noteq> Next then (d, m', r) else (write_x i a d, m', Next))"
  using assms by (cases res; auto simp: effect_def)+

lemma put_pair_effect:
  assumes "0 < n" "n \<le> 8" "fetch d = fetch c"
  shows "effect wr c m (put_bytes wr addr (take n (u64_to_le a) @ take n (u64_to_le b)) d m)"
  using assms by (intro put_bytes_effect) auto

lemma cas_pair_effect: "0 < n \<Longrightarrow> n \<le> 8 \<Longrightarrow> effect wr c m (cas_pair rd wr addr n rs rt c m)"
  unfolding cas_pair_def Let_def
  by (auto split: option.split simp: put_pair_effect intro!: effect_regs)

lemma stxr_effect: "0 < n \<Longrightarrow> n \<le> 8 \<Longrightarrow> effect wr c m (stxr wr addr n rs rt c m)"
  by (auto simp: stxr_def excl_check_def mem_write_sized_effect split: prod.split)

lemma stxp_effect: "0 < n \<Longrightarrow> n \<le> 8 \<Longrightarrow> effect wr c m (stxp wr addr n rs rt rt2 c m)"
  unfolding stxp_def excl_check_def Let_def prod.case
  by (auto simp: put_pair_effect intro!: effect_regs)

text \<open>Load-exclusives are the only instructions that open the monitor, and they store nothing.\<close>

definition is_ldx :: "u32 \<Rightarrow> bool" where
  "is_ldx instr \<longleftrightarrow> fld instr 28 3 = 0 \<and> fld instr 26 1 = 0 \<and> fld instr 24 1 = 0 \<and> fld instr 23 1 = 0
     \<and> fld instr 22 1 = 1 \<and> (fld instr 21 1 = 0 \<or> unat (drop_bit 30 instr) \<ge> 2)"

lemma size_field: "unat (drop_bit 30 instr) < 4" for instr :: u32
proof -
  have "unat (drop_bit 30 instr) = unat instr div 2 ^ 30"
    by (simp only: unat_drop_bit_eq) (rule drop_bit_eq_div)
  then show ?thesis using unat_u32_less [of instr] by simp
qed

lemma size_bytes: "(2::nat) ^ unat (drop_bit 30 instr) \<le> 8" for instr :: u32
  using power_increasing [of "unat (drop_bit 30 instr)" 3 "2::nat"] size_field [of instr] by simp

lemma exec_atomic_effect: "effect wr c m (exec_atomic rd wr instr c m)"
  unfolding exec_atomic_def Let_def
  by (simp add: ld_op_effect swp_effect load_x_effect size_bytes)

lemma exec_exclusive_effect:
  "\<not> (fld instr 23 1 = 0 \<and> fld instr 22 1 = 1 \<and> (fld instr 21 1 = 0 \<or> unat (drop_bit 30 instr) \<ge> 2)) \<Longrightarrow>
    effect wr c m (exec_exclusive rd wr instr c m)"
  unfolding exec_exclusive_def Let_def
  using fld_1 [of instr 21] fld_1 [of instr 22]
  by (auto simp: stxr_effect stxp_effect cas_pair_effect cas_single_effect load_x_effect store_x_effect size_bytes)

lemma exec_rcpc2_effect: "effect wr c m (exec_rcpc2 rd wr instr c m)"
  unfolding exec_rcpc2_def Let_def by (simp add: load_x_effect store_x_effect)


lemma length_concat_const: "(\<And>x. x \<in> set xs \<Longrightarrow> length (f x) = n) \<Longrightarrow> length (concat (map f xs)) = length xs * n"
  by (induction xs) auto

lemma length_simd_order: "length (simd_order rpt elements selem) = rpt * (elements * selem)"
proof -
  have "length (concat (map (\<lambda>e. map (\<lambda>s. (r, e, s)) [0..<selem]) [0..<elements])) = elements * selem" for r :: nat
    by (subst length_concat_const [where n = selem]) auto
  then show ?thesis
    unfolding simd_order_def by (subst length_concat_const [where n = "elements * selem"]) auto
qed

lemma simd_order_bound: "(r, e, s) \<in> set (simd_order rpt elements selem) \<Longrightarrow> r < rpt \<and> e < elements \<and> s < selem"
  by (auto simp: simd_order_def)

lemma length_simd_multi_bytes:
  assumes "elements * ebytes \<le> 16"
  shows "length (simd_multi_bytes rpt selem elements ebytes rt vs) = rpt * (elements * selem) * ebytes"
proof -
  have "length (take ebytes (drop (e * ebytes) (u128_to_le v))) = ebytes" if "e < elements" for e v
  proof -
    have "Suc e * ebytes \<le> elements * ebytes" using that by (intro mult_le_mono1) simp
    then have "e * ebytes + ebytes \<le> 16" using assms by simp
    then show ?thesis by simp
  qed
  then show ?thesis
    unfolding simd_multi_bytes_def
    by (subst length_concat_const [where n = ebytes]) (auto simp: length_simd_order dest: simd_order_bound)
qed

lemma length_simd_single_bytes:
  "ebytes \<le> 8 \<Longrightarrow> length (simd_single_bytes ebytes index selem rt vs) = selem * ebytes"
  unfolding simd_single_bytes_def by (subst length_concat_const [where n = ebytes]) (auto simp: Let_def)

lemma simd_transfer_effect:
  "0 < length out \<Longrightarrow> length out \<le> 64 \<Longrightarrow> effect wr c m (simd_transfer rd wr ld addr tot f out c m)"
  by (auto simp: simd_transfer_def put_bytes_effect split: option.split)

lemma simd_lane_scale: "simd_lane ld q opc3 s sz = Some (scale, rep, index) \<Longrightarrow> sz < 4 \<Longrightarrow> scale \<le> 3"
  by (auto simp: simd_lane_def Let_def split: if_splits)

lemma fld_3: "unat (fld instr k 3) < 4"
proof -
  have "fld instr k 3 = take_bit 2 (drop_bit k instr)"
    by (simp add: fld_def take_bit_eq_mask mask_eq_exp_minus_1)
  then have "unat (fld instr k 3) = take_bit 2 (unat (drop_bit k instr))" by (simp only: unsigned_take_bit_eq)
  then show ?thesis using take_bit_nat_less_exp [of 2 "unat (drop_bit k instr)"] by simp
qed

lemma simd_single_effect:
  assumes "simd_lane ld q opc3 s sz = Some (scale, rep, index)" "sz < 4" "selem \<le> 4" "0 < selem"
  shows "effect wr c m (simd_transfer rd wr ld addr tot f (simd_single_bytes (2 ^ scale) index selem rt vs) c m)"
proof -
  have "(2::nat) ^ scale \<le> 8"
    using simd_lane_scale [OF assms(1,2)] power_increasing [of scale 3 "2::nat"] by simp
  then have "length (simd_single_bytes (2 ^ scale) index selem rt vs) = selem * 2 ^ scale"
    by (rule length_simd_single_bytes)
  moreover have "selem * 2 ^ scale \<le> 4 * 8" by (rule mult_le_mono [OF assms(3) \<open>2 ^ scale \<le> 8\<close>])
  ultimately show ?thesis using assms(4) by (intro simd_transfer_effect) simp_all
qed

lemma simd_shape: "simd_multi_shape opcode = Some (rpt, selem) \<Longrightarrow> 0 < rpt \<and> 0 < selem \<and> rpt * selem \<le> 4"
  by (auto simp: simd_multi_shape_def split: if_splits)

lemma simd_multi_effect:
  assumes "simd_multi_shape opcode = Some (rpt, selem)" "sz < 4" "regbytes = 16 \<or> regbytes = 8"
  shows "effect wr c m (simd_transfer rd wr ld addr tot f (simd_multi_bytes rpt selem (regbytes div 2 ^ sz) (2 ^ sz) rt vs) c m)"
proof -
  have sz: "sz = 0 \<or> sz = 1 \<or> sz = 2 \<or> sz = 3" using assms(2) by linarith
  then have e: "regbytes div 2 ^ sz * 2 ^ sz = regbytes" using assms(3) by auto
  then have "length (simd_multi_bytes rpt selem (regbytes div 2 ^ sz) (2 ^ sz) rt vs) = rpt * (regbytes div 2 ^ sz * selem) * 2 ^ sz"
    using assms(3) by (intro length_simd_multi_bytes) auto
  also have "\<dots> = rpt * selem * (regbytes div 2 ^ sz * 2 ^ sz)" by (simp add: mult.commute mult.left_commute mult.assoc)
  finally have l: "length (simd_multi_bytes rpt selem (regbytes div 2 ^ sz) (2 ^ sz) rt vs) = rpt * selem * regbytes"
    by (simp only: e)
  have "rpt * selem * regbytes \<le> 4 * 16"
    using simd_shape [OF assms(1)] assms(3) by (intro mult_le_mono) auto
  then show ?thesis using l simd_shape [OF assms(1)] assms(3) by (intro simd_transfer_effect) auto
qed

lemma effect_if: "effect wr c m (fst x) \<Longrightarrow> effect wr c m (fst y) \<Longrightarrow> effect wr c m (fst (if b then x else y))"
  by simp

lemma simd_struct_access_effect:
  "effect wr c m (fst (simd_struct_access rd wr instr c m))"
proof -
  have r: "unat (fld instr 21 1) \<le> 1" using fld_1 [of instr 21] by auto
  have selem: "unat (drop_bit 1 (fld instr 12 0xf)) mod 2 * 2 + unat (fld instr 21 1) + 1 \<le> 4"
    using r by linarith
  show ?thesis
  proof (cases "fld instr 24 1 = 1")
    case True
    show ?thesis
    proof (cases "simd_lane (fld instr 22 1 = 1) (fld instr 30 1 = 1) (unat (drop_bit 1 (fld instr 12 0xf)))
        (unat (fld instr 12 0xf AND 1)) (unat (fld instr 10 3))")
      case (Some l)
      obtain scale rep index where l: "l = (scale, rep, index)" by (cases l)
      show ?thesis
        unfolding simd_struct_access_def Let_def if_P [OF True] Some l option.case prod.case fst_conv
        by (rule simd_single_effect [OF Some [unfolded l] fld_3 selem]) simp
    qed (simp add: simd_struct_access_def True Let_def)
  next
    case False
    show ?thesis
    proof (cases "simd_multi_shape (fld instr 12 0xf)")
      case (Some l)
      obtain rpt selem where l: "l = (rpt, selem)" by (cases l)
      have rb: "(if fld instr 30 1 = 1 then 16 else 8 :: nat) = 16 \<or> (if fld instr 30 1 = 1 then 16 else 8 :: nat) = 8"
        by simp
      show ?thesis
        unfolding simd_struct_access_def Let_def if_not_P [OF False] Some l option.case prod.case
        by (rule effect_if) (simp_all only: simd_multi_effect [OF Some [unfolded l] fld_3 rb] fst_conv effect_same calm_refl)
    qed (simp add: simd_struct_access_def False Let_def)
  qed
qed

lemma exec_simd_struct_effect: "effect wr c m (exec_simd_struct rd wr instr c m)"
proof -
  obtain d m' r tot where a: "simd_struct_access rd wr instr c m = ((d, m', r), tot)"
    by (metis prod_cases4 surj_pair)
  then have "effect wr c m (d, m', r)" using simd_struct_access_effect [of wr c m rd instr] by simp
  then show ?thesis
    unfolding exec_simd_struct_def Let_def a prod.case by (auto simp: effect_def)
qed

lemma exec_ldst_effect: "\<not> is_ldx instr \<Longrightarrow> effect wr c m (exec_ldst rd wr instr c m)"
  using exec_exclusive_effect [of instr wr c m rd] fld_1 [of instr 26] fld_1 [of instr 24] 
  unfolding exec_ldst_def Let_def is_ldx_def
  by (auto simp: exec_simd_struct_effect exec_literal_effect exec_rcpc2_effect exec_pair_effect
      exec_single_effect exec_atomic_effect)

lemma exec_sys_effect: "effect wr c m (exec_sys wr instr c m)"
  unfolding exec_sys_def Let_def
  by (auto split: prod.split option.split simp: effect_def
      intro!: stores_note [where bs = "replicate DC_ZVA_BLOCK_BYTES 0"]) (simp_all add: DC_ZVA_BLOCK_BYTES_def)

lemma read_sysreg_calm: "calm c (fst (read_sysreg k c))"
  by (simp add: read_sysreg_def Let_def split: option.split)

lemma write_sysreg_calm: "calm c (fst (write_sysreg k v c))"
  by (simp add: write_sysreg_def)

lemma exec_msr_imm_calm: "calm c (fst (exec_msr_imm op1 crm op2 c))"
  by (simp add: exec_msr_imm_def Let_def)

lemma exec_branch_reg_calm: "calm c (fst (exec_branch_reg instr c))"
  by (simp add: exec_branch_reg_def Let_def)

lemma effect_ite: "effect wr c m x \<Longrightarrow> effect wr c m y \<Longrightarrow> effect wr c m (if b then x else y)"
  by simp

lemma if_effect: "(b \<Longrightarrow> effect wr c m x) \<Longrightarrow> (\<not> b \<Longrightarrow> effect wr c m y) \<Longrightarrow> effect wr c m (if b then x else y)"
  by simp

lemma effect_pair:
  "calm c (fst p) \<Longrightarrow> effect wr c m (case p of (d, r) \<Rightarrow> (d, m, f r))"
  "calm c (fst q) \<Longrightarrow> effect wr c m (case q of (d, None) \<Rightarrow> (d, m, g) | (d, Some v) \<Rightarrow> (write_x rt v d, m, h))"
  by (auto split: prod.split option.split)

lemma exec_system_effect: "effect wr c m (exec_system wr instr c m)"
  unfolding exec_system_def Let_def
  by (intro effect_ite effect_pair exec_sys_effect read_sysreg_calm write_sysreg_calm exec_msr_imm_calm
      effect_same calm_refl calm_close)

lemma exec_branch_sys_effect: "effect wr c m (exec_branch_sys wr instr c m)"
  unfolding exec_branch_sys_def Let_def branch_def
  by (intro effect_ite effect_pair exec_system_effect exec_branch_reg_calm effect_same calm_refl) simp_all

text \<open>A load-exclusive stores nothing; if the monitor is open after it, it was opened on its base address.\<close>

lemma ldxr_opens:
  "ldxr rd addr n rt c m = (c', m', r) \<Longrightarrow> m' = m \<and> fetch c' = fetch c \<and>
    (excl_monitor c' \<longrightarrow> excl_addr c' = addr \<or> excl_monitor c \<and> excl_addr c' = excl_addr c)"
  by (auto simp: ldxr_def open_monitor_def write_x_def split: option.splits if_splits)

lemma ldxp_opens:
  "ldxp rd addr n rt rt2 c m = (c', m', r) \<Longrightarrow> m' = m \<and> fetch c' = fetch c \<and>
    (excl_monitor c' \<longrightarrow> excl_addr c' = addr \<or> excl_monitor c \<and> excl_addr c' = excl_addr c)"
  by (auto simp: ldxp_def open_monitor_def write_x_def Let_def split: option.splits if_splits)

lemma exec_ldx:
  assumes "is_ldx instr" "exec_ldst rd wr instr c m = (c', m', r)"
  shows "m' = m \<and> fetch c' = fetch c \<and>
    (excl_monitor c' \<longrightarrow> excl_addr c' = read_sp c (reg_field instr 5) \<or> excl_monitor c \<and> excl_addr c' = excl_addr c)"
proof -
  have res: "(c', m', r) = exec_exclusive rd wr instr c m \<or> (c' = c \<and> m' = m)"
    using assms by (auto simp: exec_ldst_def Let_def is_ldx_def split: if_splits)
  have sel: "fld instr 23 1 = 0" "fld instr 22 1 = 1" "fld instr 21 1 = 0 \<or> fld instr 21 1 = 1 \<and> 2 \<le> unat (drop_bit 30 instr)"
    using assms(1) fld_1 [of instr 21] by (auto simp: is_ldx_def)
  have "(c', m', r) = exec_exclusive rd wr instr c m \<Longrightarrow>
      (c' = c \<and> m' = m) \<or> (\<exists>n rt. (c', m', r) = ldxr rd (read_sp c (reg_field instr 5)) n rt c m)
      \<or> (\<exists>n rt rt2. (c', m', r) = ldxp rd (read_sp c (reg_field instr 5)) n rt rt2 c m)"
    using sel unfolding exec_exclusive_def Let_def by (auto split: if_splits)
  with res show ?thesis using ldxr_opens ldxp_opens by (metis (no_types, lifting))
qed

subsection \<open>What a single instruction does\<close>

definition ldx_instr :: "u32 \<Rightarrow> bool" where
  "ldx_instr instr \<longleftrightarrow> fld instr 25 0xf \<in> {4, 6, 12, 14} \<and> is_ldx instr"

definition simd_quiet :: "simd_unit \<Rightarrow> bool" where
  "simd_quiet simd \<longleftrightarrow> (\<forall>instr c. fetch (fst (simd instr c)) = fetch c
     \<and> excl_monitor (fst (simd instr c)) = excl_monitor c \<and> excl_addr (fst (simd instr c)) = excl_addr c)"

lemma exec_effect:
  assumes "simd_quiet simd" "\<not> ldx_instr instr"
  shows "effect wr c m (exec simd rd wr instr c m)"
proof -
  have s: "calm c (fst (simd instr c))" using assms(1) by (simp add: simd_quiet_def calm_def)
  have l: "fld instr 25 0xf = 4 \<or> fld instr 25 0xf = 6 \<or> fld instr 25 0xf = 12 \<or> fld instr 25 0xf = 14 \<Longrightarrow>
      effect wr c m (exec_ldst rd wr instr c m)"
    using assms(2) by (intro exec_ldst_effect) (auto simp: ldx_instr_def)
  show ?thesis
    unfolding exec_def Let_def
    by (intro if_effect effect_pair calm_alu [OF dp_imm_only] calm_alu [OF dp_reg_only] s
        exec_branch_sys_effect l effect_same calm_refl)
qed


subsection \<open>Well-formed processors stay well-formed\<close>

lemma ok_pair: "a64_ok (fst p) \<Longrightarrow> a64_ok (fst (case p of (d, r) \<Rightarrow> (d, m, f r)))"
  by (cases p) simp

lemma ok_ite: "a64_ok (fst x) \<Longrightarrow> a64_ok (fst y) \<Longrightarrow> a64_ok (fst (if b then x else y))"
  by simp

lemma a64_ok_rv: "a64_ok c \<Longrightarrow> length vs = length (rv c) \<Longrightarrow> a64_ok (c\<lparr>rv := vs\<rparr>)"
  by (simp add: a64_ok_def)

lemma put_bytes_ok: "a64_ok c \<Longrightarrow> a64_ok (fst (put_bytes wr addr bs c m))"
  by (simp add: put_bytes_def Let_def split: prod.split option.split)

lemma load_x_ok: "a64_ok c \<Longrightarrow> a64_ok (fst (load_x rd addr scale rt sx c m))"
  by (simp add: load_x_def Let_def split: option.split)

lemma store_x_ok: "a64_ok c \<Longrightarrow> a64_ok (fst (store_x wr addr scale rt c m))"
  by (simp add: store_x_def put_bytes_ok)

lemma ldst_vec_ok: "a64_ok c \<Longrightarrow> a64_ok (fst (ldst_vec rd wr addr scale ld rt c m))"
  by (simp add: ldst_vec_def put_bytes_ok split: option.split)

lemma mem_write_sized_ok: "a64_ok c \<Longrightarrow> a64_ok (fst (mem_write_sized wr addr n v c m))"
  by (simp add: mem_write_sized_def Let_def split: prod.split)

lemma ok_wb:
  assumes "a64_ok (fst res)"
  shows "a64_ok (fst (case res of (d, m', r) \<Rightarrow> case r of Next \<Rightarrow> (case wb of None \<Rightarrow> (d, m', r) | Some a \<Rightarrow> (write_sp i a d, m', r)) | _ \<Rightarrow> (d, m', r)))"
    and "a64_ok (fst (case res of (d, m', r) \<Rightarrow> if r \<noteq> Next then (d, m', r) else if A then (write_sp i a d, m', Next) else if B then (write_sp j b d, m', Next) else (d, m', Next)))"
    and "a64_ok (fst (case res of (d, m', r) \<Rightarrow> if r \<noteq> Next then (d, m', r) else (write_x k x (write_x l y d), m', Next)))"
    and "a64_ok (fst (case res of (d, m', r) \<Rightarrow> if r \<noteq> Next then (d, m', r) else (write_x k x d, m', Next)))"
  using assms by (cases res; auto split: step_res.split option.split)+

lemma ok_sized:
  "a64_ok (fst res) \<Longrightarrow> a64_ok (fst (case res of (d, m', b) \<Rightarrow> if \<not> b then (d, m', f) else (write_x k x d, m', Next)))"
  by (cases res) auto

lemma exec_single_ok: "a64_ok c \<Longrightarrow> a64_ok (fst (exec_single rd wr instr mode c m))"
  unfolding exec_single_def Let_def
  by (auto split: option.split gpr_kind.split simp: ldst_vec_ok store_x_ok load_x_ok intro!: ok_wb(1) ok_ite)

lemma exec_literal_ok: "a64_ok c \<Longrightarrow> a64_ok (fst (exec_literal rd wr instr c m))"
  unfolding exec_literal_def Let_def by (intro ok_ite ldst_vec_ok load_x_ok) simp_all

lemma exec_pair_ok: "a64_ok c \<Longrightarrow> a64_ok (fst (exec_pair rd wr instr c m))"
  unfolding exec_pair_def Let_def
  by (auto split: option.split simp: put_bytes_ok a64_ok_rv intro!: ok_wb(2) ok_ite)

lemma atomic_ok:
  assumes "a64_ok c"
  shows "a64_ok (fst (swp rd wr addr n rs rt c m))" "a64_ok (fst (ld_op rd wr addr n rs rt op c m))"
    "a64_ok (fst (cas_single rd wr addr n rs rt c m))" "a64_ok (fst (cas_pair rd wr addr n rs rt c m))"
  unfolding swp_def ld_op_def cas_single_def cas_pair_def Let_def
  using assms by (auto split: option.split simp: mem_write_sized_ok put_bytes_ok intro!: ok_sized ok_wb(3) ok_ite)

lemma exclusive_ok:
  assumes "a64_ok c"
  shows "a64_ok (fst (ldxr rd addr n rt c m))" "a64_ok (fst (ldxp rd addr n rt rt2 c m))"
    "a64_ok (fst (stxr wr addr n rs rt c m))" "a64_ok (fst (stxp wr addr n rs rt rt2 c m))"
  unfolding ldxr_def ldxp_def stxr_def stxp_def excl_check_def open_monitor_def Let_def prod.case
  using assms by (auto split: option.split simp: mem_write_sized_ok put_bytes_ok intro!: ok_sized ok_wb(4) ok_ite)

lemma exec_atomic_ok: "a64_ok c \<Longrightarrow> a64_ok (fst (exec_atomic rd wr instr c m))"
  unfolding exec_atomic_def Let_def by (intro ok_ite atomic_ok load_x_ok) simp_all

lemma exec_exclusive_ok: "a64_ok c \<Longrightarrow> a64_ok (fst (exec_exclusive rd wr instr c m))"
  unfolding exec_exclusive_def Let_def by (intro ok_ite atomic_ok exclusive_ok load_x_ok store_x_ok) simp_all

lemma exec_rcpc2_ok: "a64_ok c \<Longrightarrow> a64_ok (fst (exec_rcpc2 rd wr instr c m))"
  unfolding exec_rcpc2_def Let_def by (intro ok_ite load_x_ok store_x_ok) simp_all

lemma length_fold_update:
  "length (fold (\<lambda>i vs. vs[f i := g i vs]) xs vs) = length vs"
  by (induction xs arbitrary: vs) auto

lemma length_simd_loads:
  "length (simd_single_load q rep ebytes index selem rt buf vs) = length vs"
  "length (simd_multi_load rpt selem elements ebytes rt buf vs) = length vs"
  by (simp_all add: simd_single_load_def simd_multi_load_def Let_def length_fold_update)

lemma simd_transfer_ok:
  "a64_ok c \<Longrightarrow> (\<And>buf vs. length (f buf vs) = length vs) \<Longrightarrow> a64_ok (fst (simd_transfer rd wr ld addr tot f out c m))"
  by (simp add: simd_transfer_def put_bytes_ok a64_ok_rv split: option.split)

lemma simd_struct_access_ok: "a64_ok c \<Longrightarrow> a64_ok (fst (fst (simd_struct_access rd wr instr c m)))"
  unfolding simd_struct_access_def Let_def
  by (simp add: simd_transfer_ok length_simd_loads split: option.split prod.split)

lemma exec_simd_struct_ok: "a64_ok c \<Longrightarrow> a64_ok (fst (exec_simd_struct rd wr instr c m))"
  using simd_struct_access_ok [of c rd wr instr m]
  unfolding exec_simd_struct_def Let_def by (auto split: prod.split)

lemma exec_ldst_ok: "a64_ok c \<Longrightarrow> a64_ok (fst (exec_ldst rd wr instr c m))"
  unfolding exec_ldst_def Let_def
  by (intro ok_ite exec_simd_struct_ok exec_exclusive_ok exec_literal_ok exec_rcpc2_ok exec_pair_ok
      exec_single_ok exec_atomic_ok) simp_all

lemma system_ok:
  assumes "a64_ok c"
  shows "a64_ok (fst (exec_sys wr instr c m))" "a64_ok (fst (read_sysreg k c))"
    "a64_ok (fst (write_sysreg k v c))" "a64_ok (fst (exec_msr_imm op1 crm op2 c))"
    "a64_ok (fst (exec_branch_reg instr c))"
  using assms
  by (simp_all add: exec_sys_def read_sysreg_def write_sysreg_def exec_msr_imm_def exec_branch_reg_def
      Let_def a64_ok_def and.assoc note_store_def invalidate_fetch_def split: option.split prod.split)

lemma ok_sysreg:
  "a64_ok (fst q) \<Longrightarrow> a64_ok (fst (case q of (d, None) \<Rightarrow> (d, m, g) | (d, Some v) \<Rightarrow> (write_x rt v d, m, h)))"
  by (auto split: prod.split option.split)

lemma exec_system_ok: "a64_ok c \<Longrightarrow> a64_ok (fst (exec_system wr instr c m))"
  unfolding exec_system_def Let_def
  by (intro ok_ite ok_pair ok_sysreg system_ok) simp_all

lemma exec_branch_sys_ok: "a64_ok c \<Longrightarrow> a64_ok (fst (exec_branch_sys wr instr c m))"
  unfolding exec_branch_sys_def Let_def branch_def
  by (intro ok_ite ok_pair exec_system_ok system_ok) simp_all

lemma exec_ok:
  assumes "a64_ok c" "a64_ok (fst (simd instr c))"
  shows "a64_ok (fst (exec simd rd wr instr c m))"
  unfolding exec_def Let_def
  by (intro ok_ite ok_pair exec_ldst_ok exec_branch_sys_ok assms alu_only_ok [OF dp_imm_only] alu_only_ok [OF dp_reg_only])
    (use assms in simp_all)


subsection \<open>Executions\<close>

text \<open>The state after \<open>n\<close> turns of the loop, if none of them exits.\<close>

primrec after :: "simd_unit \<Rightarrow> 'm reader \<Rightarrow> 'm writer \<Rightarrow> nat \<Rightarrow> a64 \<Rightarrow> 'm \<Rightarrow> (a64 \<times> 'm) option" where
  "after simd rd wr 0 c m = Some (c, m)"
| "after simd rd wr (Suc n) c m =
     (case after simd rd wr n c m of
        None \<Rightarrow> None
      | Some (c, m) \<Rightarrow>
          (case fetch_instr rd c m of
             (c, None) \<Rightarrow> None
           | (c, Some instr) \<Rightarrow>
               let (c, m, r) = exec simd rd wr instr c m
               in case retire_step r c of (c, Some ex) \<Rightarrow> None | (c, None) \<Rightarrow> Some (c, m)))"

lemma after_Suc:
  assumes "after simd rd wr (Suc n) c m = Some (c', m')"
  obtains c1 m1 c2 instr c3 r where
    "after simd rd wr n c m = Some (c1, m1)" "fetch_instr rd c1 m1 = (c2, Some instr)"
    "exec simd rd wr instr c2 m1 = (c3, m', r)" "retire_step r c3 = (c', None)"
  using assms by (auto simp: Let_def split: option.splits prod.splits)

lemma retire_step_same: "retire_step r c = (c', ex) \<Longrightarrow> fetch c' = fetch c \<and> excl_monitor c' = excl_monitor c
    \<and> excl_addr c' = excl_addr c \<and> (a64_ok c \<longrightarrow> a64_ok c')"
  by (cases r) (auto simp: retire_step_def)

lemma fetch_instr_same: "fetch_instr rd c m = (c', r) \<Longrightarrow> excl_monitor c' = excl_monitor c
    \<and> excl_addr c' = excl_addr c \<and> read_sp c' k = read_sp c k \<and> rpc c' = rpc c \<and> (a64_ok c \<longrightarrow> a64_ok c')"
  by (auto simp: fetch_instr_def read_sp_def a64_ok_def dest: fc_ok_fetch split: prod.splits if_splits)

lemma run_loop_after:
  "after simd rd wr n c m = Some (c', m') \<Longrightarrow> (\<And>j. j < n \<Longrightarrow> \<not> ((i + j) mod 4096 = 4095 \<and> intr (i + j))) \<Longrightarrow>
    run_loop simd rd wr intr (n + k) i c m = run_loop simd rd wr intr k (i + n) c' m'"
proof (induction n arbitrary: c' m' k)
  case (Suc n)
  from after_Suc [OF Suc.prems(1)] obtain c1 m1 c2 instr c3 r where
    st: "after simd rd wr n c m = Some (c1, m1)" "fetch_instr rd c1 m1 = (c2, Some instr)"
    "exec simd rd wr instr c2 m1 = (c3, m', r)" "retire_step r c3 = (c', None)" .
  have "run_loop simd rd wr intr (n + Suc k) i c m = run_loop simd rd wr intr (Suc k) (i + n) c1 m1"
    by (rule Suc.IH [OF st(1)]) (use Suc.prems(2) less_SucI in blast)
  also have "\<dots> = run_loop simd rd wr intr k (i + Suc n) c' m'"
    using st Suc.prems(2) [of n] by (auto simp: Let_def)
  finally show ?case by simp
qed simp

text \<open>
  While the monitor is open, memory is as the load-exclusive that opened it left it, and the
  address is that instruction's.
\<close>

lemma monitor_open:
  assumes "simd_quiet simd" "\<not> excl_monitor c0"
  shows "after simd rd wr n c0 m0 = Some (c, m) \<Longrightarrow> excl_monitor c \<Longrightarrow>
    \<exists>j < n. \<exists>cj cf instr. after simd rd wr j c0 m0 = Some (cj, m) \<and> fetch_instr rd cj m = (cf, Some instr)
      \<and> ldx_instr instr \<and> excl_addr c = read_sp cj (reg_field instr 5)
      \<and> (\<forall>k. j \<le> k \<and> k \<le> n \<longrightarrow> map_option snd (after simd rd wr k c0 m0) = Some m)"
proof (induction n arbitrary: c m)
  case (Suc n)
  from after_Suc [OF Suc.prems(1)] obtain c1 m1 c2 instr c3 r where
    st: "after simd rd wr n c0 m0 = Some (c1, m1)" "fetch_instr rd c1 m1 = (c2, Some instr)"
    "exec simd rd wr instr c2 m1 = (c3, m, r)" "retire_step r c3 = (c, None)" .
  have c2: "excl_monitor c2 = excl_monitor c1" "excl_addr c2 = excl_addr c1" "read_sp c2 k = read_sp c1 k" for k
    using fetch_instr_same [OF st(2)] by auto
  have c3: "excl_monitor c3" "excl_addr c = excl_addr c3"
    using retire_step_same [OF st(4)] Suc.prems(2) by auto
  have step: "m = m1 \<and> ((excl_monitor c1 \<and> excl_addr c = excl_addr c1) \<or>
      (ldx_instr instr \<and> excl_addr c = read_sp c1 (reg_field instr 5)))"
  proof (cases "ldx_instr instr")
    case True
    then have "exec simd rd wr instr c2 m1 = exec_ldst rd wr instr c2 m1"
      by (auto simp: exec_def ldx_instr_def Let_def)
    with st(3) True exec_ldx [of instr rd wr c2 m1 c3 m r] show ?thesis
      using c2 c3 by (auto simp: ldx_instr_def)
  next
    case False
    from exec_effect [OF assms(1) False, of wr c2 m1 rd] st(3) c3 c2 show ?thesis
      by (auto simp: effect_def calm_def stores_def)
  qed
  have after_n: "map_option snd (after simd rd wr (Suc n) c0 m0) = Some m" using Suc.prems(1) by (simp del: after.simps)
  show ?case
  proof (cases "ldx_instr instr \<and> excl_addr c = read_sp c1 (reg_field instr 5)")
    case True
    have "\<forall>k. n \<le> k \<and> k \<le> Suc n \<longrightarrow> map_option snd (after simd rd wr k c0 m0) = Some m"
      using after_n st(1) step by (metis le_SucE le_antisym option.map(2) snd_conv)
    with True st step show ?thesis by (intro exI [of _ n]) auto
  next
    case False
    with step have "excl_monitor c1" "excl_addr c = excl_addr c1" "m = m1" by auto
    from Suc.IH [OF st(1) this(1)] obtain j cj cf instr' where j: "j < n"
      "after simd rd wr j c0 m0 = Some (cj, m1)" "fetch_instr rd cj m1 = (cf, Some instr')"
      "ldx_instr instr'" "excl_addr c1 = read_sp cj (reg_field instr' 5)"
      "\<forall>k. j \<le> k \<and> k \<le> n \<longrightarrow> map_option snd (after simd rd wr k c0 m0) = Some m1" by blast
    have "\<forall>k. j \<le> k \<and> k \<le> Suc n \<longrightarrow> map_option snd (after simd rd wr k c0 m0) = Some m"
      using j(6) after_n \<open>m = m1\<close> by (metis le_SucE)
    with j \<open>m = m1\<close> \<open>excl_addr c = excl_addr c1\<close> show ?thesis
      by (intro exI [of _ j]) auto
  qed
qed (simp add: assms)

lemma stxr_closed: "\<not> (excl_monitor c \<and> excl_addr c = addr) \<Longrightarrow> stxr wr addr n rs rt c m = (c', m', r) \<Longrightarrow> m' = m"
  by (auto simp: stxr_def excl_check_def)

subsection \<open>The fetch cache is coherent\<close>

text \<open>
  What the interpreter relies on of guest memory when it fetches from a cached page: a word of a
  readable page is the word of the page's image, and a store changes no page but those its first
  and last bytes are on.
\<close>

locale code_memory =
  fixes rd :: "'m reader" and wr :: "'m writer" and mem_ok :: "'m \<Rightarrow> bool"
  assumes wr_keeps: "mem_ok m \<Longrightarrow> mem_ok (fst (wr m a bs))"
    and rd_word: "mem_ok m \<Longrightarrow> rd m (pc AND NOT 0xfff) 4096 = Some page \<Longrightarrow> unat (pc AND 0xfff) + 4 \<le> 4096 \<Longrightarrow>
      rd m pc 4 = Some (take 4 (drop (unat (pc AND 0xfff)) page))"
    and wr_frame: "mem_ok m \<Longrightarrow> 0 < length bs \<Longrightarrow> length bs \<le> 64 \<Longrightarrow> p AND 0xfff = 0 \<Longrightarrow>
      p \<noteq> a AND NOT 0xfff \<Longrightarrow> p \<noteq> (a + (word_of_nat (length bs) - 1)) AND NOT 0xfff \<Longrightarrow>
      rd (fst (wr m a bs)) p 4096 = rd m p 4096"

definition fc_coh :: "'m reader \<Rightarrow> 'm \<Rightarrow> fetch_cache \<Rightarrow> bool" where
  "fc_coh rd m fc \<longleftrightarrow> (\<forall>w < FETCH_WAYS. fc_tags fc ! w \<noteq> NO_PAGE \<longrightarrow>
     fc_tags fc ! w AND 0xfff = 0 \<and> fc_way (fc_tags fc ! w) = w \<and> rd m (fc_tags fc ! w) 4096 = Some (fc_pages fc ! w))"

text \<open>The loop that reads every instruction from memory itself, and only keeps the cache's books.\<close>

primrec run_direct :: "simd_unit \<Rightarrow> 'm reader \<Rightarrow> 'm writer \<Rightarrow> (nat \<Rightarrow> bool) \<Rightarrow> nat \<Rightarrow> nat \<Rightarrow> a64 \<Rightarrow> 'm
    \<Rightarrow> a64 \<times> 'm \<times> exit_res" where
  "run_direct simd rd wr intr 0 i c m = (c, m, ExInterrupted)"
| "run_direct simd rd wr intr (Suc n) i c m =
     (if i mod 4096 = 4095 \<and> intr i then (c, m, ExInterrupted)
      else let c' = fst (fetch_instr rd c m)
           in case (if rpc c AND 3 = 0 then map_option u32_from_le (rd m (rpc c) 4) else None) of
                None \<Rightarrow> (c', m, fetch_exit c')
              | Some instr \<Rightarrow>
                  let (c, m, r) = exec simd rd wr instr c' m
                  in case retire_step r c of
                       (c, Some ex) \<Rightarrow> (c, m, ex)
                     | (c, None) \<Rightarrow> run_direct simd rd wr intr n (Suc i) c m)"

lemma page_aligned: "(a AND NOT 0xfff) AND 0xfff = (0 :: u64)"
  by (simp add: and.assoc)

lemma NO_PAGE_not_aligned: "p AND 0xfff = 0 \<Longrightarrow> p \<noteq> NO_PAGE"
  by (auto simp: NO_PAGE_def)

lemma pc_offset: "pc AND 3 = 0 \<Longrightarrow> unat (pc AND 0xfff) + 4 \<le> 4096" for pc :: u64
proof -
  assume a: "pc AND 3 = 0"
  have "pc AND 0xfff = take_bit 12 pc" by (simp add: take_bit_eq_mask mask_eq_exp_minus_1)
  then have u: "unat (pc AND 0xfff) = unat pc mod 4096"
    by (simp only: unsigned_take_bit_eq) (simp add: take_bit_eq_mod)
  have "pc AND 3 = take_bit 2 pc" by (simp add: take_bit_eq_mask mask_eq_exp_minus_1)
  then have "unat (pc AND 3) = unat pc mod 4"
    by (simp only: unsigned_take_bit_eq) (simp add: take_bit_eq_mod)
  with a have m4: "unat pc mod 4 = 0" by simp
  have "unat pc mod 4096 mod 4 = unat pc mod 4" by (simp add: mod_mod_cancel)
  with m4 have "4 dvd unat pc mod 4096" by auto
  then obtain q where q: "unat pc mod 4096 = 4 * q" ..
  have "4 * q < 4096" by (simp flip: q)
  then have "q \<le> 1023" by simp
  then have "unat pc mod 4096 \<le> 4092" by (simp add: q)
  then show ?thesis by (simp add: u)
qed

lemma coh_clear: "fc_ok fc \<Longrightarrow> fc_coh rd m (fc_clear fc)"
  by (simp add: fc_coh_def fc_clear_def)

lemma coh_drop: "fc_ok fc \<Longrightarrow> fc_coh rd m fc \<Longrightarrow> fc_coh rd m (fc_drop p fc)"
  by (auto simp: fc_coh_def fc_drop_def fc_ok_def nth_list_update)

lemma drop_same: "fc_ok fc \<Longrightarrow> w < FETCH_WAYS \<Longrightarrow>
    fc_tags (fc_drop p fc) ! w = fc_tags fc ! w \<or> fc_tags (fc_drop p fc) ! w = NO_PAGE"
  by (auto simp: fc_drop_def fc_ok_def nth_list_update)

lemma drop_gone: "fc_ok fc \<Longrightarrow> p AND 0xfff = 0 \<Longrightarrow> fc_coh rd m fc \<Longrightarrow> w < FETCH_WAYS \<Longrightarrow> fc_tags (fc_drop p fc) ! w \<noteq> p"
proof
  assume a: "fc_ok fc" "p AND 0xfff = 0" "fc_coh rd m fc" "w < FETCH_WAYS" "fc_tags (fc_drop p fc) ! w = p"
  have np: "p \<noteq> NO_PAGE" by (rule NO_PAGE_not_aligned [OF a(2)])
  with drop_same [OF a(1,4), of p] a(5) have "fc_tags fc ! w = p" by auto
  moreover from this have "fc_way p = w" using a(3,4) np by (auto simp: fc_coh_def)
  ultimately show False using a np by (simp add: fc_drop_def fc_ok_def)
qed

lemma coh_hit:
  assumes "fc_coh rd m fc" "fc_tags fc ! fc_way p = p" "p AND 0xfff = 0"
  shows "rd m p 4096 = Some (fc_pages fc ! fc_way p)"
  using assms NO_PAGE_not_aligned [OF assms(3)] fc_way_less [of p] unfolding fc_coh_def by metis

lemma coh_fill:
  assumes "fc_coh rd m fc" "fc_ok fc" "rd m p 4096 = Some bs" "p AND 0xfff = 0"
  shows "fc_coh rd m (fc\<lparr>fc_pages := (fc_pages fc)[fc_way p := bs], fc_tags := (fc_tags fc)[fc_way p := p]\<rparr>)"
  using assms by (auto simp: fc_coh_def fc_ok_def nth_list_update)

context code_memory
begin

lemma coh_store:
  assumes "mem_ok m" "fc_ok fc" "fc_coh rd m fc" "0 < length bs" "length bs \<le> 64"
  shows "fc_coh rd (fst (wr m a bs)) (fc_invalidate a (length bs) fc)"
proof -
  let ?first = "a AND NOT 0xfff" and ?last = "(a + (word_of_nat (length bs) - 1)) AND NOT 0xfff"
  let ?fc1 = "fc_drop ?first fc" and ?fc2 = "fc_drop ?last (fc_drop ?first fc)"
  have c1: "fc_coh rd m ?fc1" and o1: "fc_ok ?fc1" using assms by (simp_all add: coh_drop)
  then have c2: "fc_coh rd m ?fc2" by (simp add: coh_drop)
  have same: "fc_tags ?fc2 ! w = fc_tags ?fc1 ! w \<or> fc_tags ?fc2 ! w = NO_PAGE" if "w < FETCH_WAYS" for w
    by (rule drop_same [OF o1 that])
  have "rd (fst (wr m a bs)) (fc_tags ?fc2 ! w) 4096 = rd m (fc_tags ?fc2 ! w) 4096"
    if w: "w < FETCH_WAYS" "fc_tags ?fc2 ! w \<noteq> NO_PAGE" for w
  proof (rule wr_frame [OF assms(1,4,5)])
    show "fc_tags ?fc2 ! w AND 0xfff = 0" using c2 w by (simp add: fc_coh_def)
    show "fc_tags ?fc2 ! w \<noteq> ?first"
      using drop_gone [OF assms(2) page_aligned assms(3) w(1), of a] same [OF w(1)] w(2) by auto
    show "fc_tags ?fc2 ! w \<noteq> ?last" by (rule drop_gone [OF o1 page_aligned c1 w(1)])
  qed
  moreover have "fc_invalidate a (length bs) fc = ?fc2" by (simp add: fc_invalidate_def Let_def)
  ultimately show ?thesis using c2 by (simp add: fc_coh_def)
qed

lemma coh_fetch:
  assumes "mem_ok m" "fc_ok fc" "fc_coh rd m fc" "pc AND 3 = 0"
  shows "snd (fc_fetch rd pc m fc) = map_option u32_from_le (rd m pc 4)"
    and "fc_coh rd m (fst (fc_fetch rd pc m fc))"
proof -
  define pg where "pg = pc AND NOT 0xfff"
  have al: "pg AND 0xfff = 0" unfolding pg_def by (rule page_aligned)
  have hit: "fc_tags fc ! fc_way pg = pg \<Longrightarrow> rd m pg 4096 = Some (fc_pages fc ! fc_way pg)"
    by (rule coh_hit [OF assms(3) _ al])
  have w: "fc_way pg < length (fc_pages fc)" using assms(2) by (simp add: fc_ok_def)
  note rw = rd_word [OF assms(1) _ pc_offset [OF assms(4)], folded pg_def]
  show "snd (fc_fetch rd pc m fc) = map_option u32_from_le (rd m pc 4)"
    unfolding fc_fetch_def Let_def pg_def [symmetric] using hit w rw by (auto split: option.split)
  show "fc_coh rd m (fst (fc_fetch rd pc m fc))"
    unfolding fc_fetch_def Let_def pg_def [symmetric] using assms(3) coh_fill [OF assms(3,2) _ al]
    by (auto split: option.split)
qed

definition run_ok :: "a64 \<Rightarrow> 'm \<Rightarrow> bool" where
  "run_ok c m \<longleftrightarrow> mem_ok m \<and> a64_ok c \<and> fc_coh rd m (fetch c)"

lemma run_ok_fetch:
  assumes "run_ok c m"
  shows "run_ok (fst (fetch_instr rd c m)) m"
    and "snd (fetch_instr rd c m) = (if rpc c AND 3 = 0 then map_option u32_from_le (rd m (rpc c) 4) else None)"
proof -
  obtain fc r where f: "fc_fetch rd (rpc c) m (fetch c) = (fc, r)" by fastforce
  have ok: "mem_ok m" "fc_ok (fetch c)" "fc_coh rd m (fetch c)" using assms by (auto simp: run_ok_def a64_ok_def)
  have "fc_ok fc" using fc_ok_fetch [OF ok(2) f] .
  then show "run_ok (fst (fetch_instr rd c m)) m"
    using assms coh_fetch [OF ok, of "rpc c"] f by (auto simp: fetch_instr_def run_ok_def a64_ok_def)
  show "snd (fetch_instr rd c m) = (if rpc c AND 3 = 0 then map_option u32_from_le (rd m (rpc c) 4) else None)"
    using coh_fetch(1) [OF ok, of "rpc c"] f by (auto simp: fetch_instr_def)
qed

lemma run_ok_exec:
  assumes "run_ok c m" "simd_quiet simd" "\<And>instr c. a64_ok c \<Longrightarrow> a64_ok (fst (simd instr c))"
    and "exec simd rd wr instr c m = (c', m', r)"
  shows "run_ok c' m'"
proof -
  have ok: "mem_ok m" "a64_ok c" "fc_ok (fetch c)" "fc_coh rd m (fetch c)" using assms(1) by (auto simp: run_ok_def a64_ok_def)
  have ok': "a64_ok c'" using exec_ok [of c simd instr rd wr m] ok(2) assms(3,4) by simp
  have "(m' = m \<and> (fetch c' = fetch c \<or> fetch c' = fc_clear (fetch c))) \<or> stores wr c m c' m'"
  proof (cases "ldx_instr instr")
    case True
    then have "exec simd rd wr instr c m = exec_ldst rd wr instr c m"
      by (auto simp: exec_def ldx_instr_def Let_def)
    with exec_ldx [of instr rd wr c m c' m' r] True assms(4) show ?thesis by (auto simp: ldx_instr_def)
  next
    case False
    from exec_effect [OF assms(2) False, of wr c m rd] assms(4) show ?thesis
      by (auto simp: effect_def calm_def)
  qed
  then show ?thesis
    using ok ok' coh_store [OF ok(1,3,4)] wr_keeps [OF ok(1)]
    by (auto simp: run_ok_def coh_clear stores_def)
qed

lemma run_ok_retire: "run_ok c m \<Longrightarrow> retire_step r c = (c', ex) \<Longrightarrow> run_ok c' m"
  using retire_step_same [of r c c' ex] by (auto simp: run_ok_def)

lemma run_loop_direct:
  assumes "simd_quiet simd" "\<And>instr c. a64_ok c \<Longrightarrow> a64_ok (fst (simd instr c))"
  shows "run_ok c m \<Longrightarrow> run_loop simd rd wr intr n i c m = run_direct simd rd wr intr n i c m"
proof (induction n arbitrary: i c m)
  case (Suc n)
  obtain c1 f where f: "fetch_instr rd c m = (c1, f)" by fastforce
  have f': "f = (if rpc c AND 3 = 0 then map_option u32_from_le (rd m (rpc c) 4) else None)"
    and ok1: "run_ok c1 m"
    using run_ok_fetch [OF Suc.prems] f by simp_all
  show ?case
  proof (cases f)
    case None
    then show ?thesis unfolding run_loop.simps run_direct.simps f f' [symmetric] by (simp add: Let_def)
  next
    case (Some instr)
    obtain c2 m2 r where e: "exec simd rd wr instr c1 m = (c2, m2, r)" by (metis prod_cases3)
    obtain c3 ex where t: "retire_step r c2 = (c3, ex)" by fastforce
    have "run_ok c3 m2" using run_ok_retire [OF run_ok_exec [OF ok1 assms e] t] .
    from Suc.IH [OF this] show ?thesis
      unfolding run_loop.simps run_direct.simps f f' [symmetric] using Some e t by (cases ex) (simp_all add: Let_def)
  qed
qed simp

lemma a64_run_direct:
  assumes "simd_quiet simd" "\<And>instr c. a64_ok c \<Longrightarrow> a64_ok (fst (simd instr c))" "mem_ok m" "a64_ok c"
  shows "a64_run simd rd wr intr c m
    = run_direct simd rd wr intr MAX_STEPS 0 (c\<lparr>excl_monitor := False, fetch := fc_clear (fetch c)\<rparr>) m"
  unfolding a64_run_def
  by (rule run_loop_direct [OF assms(1,2)]) (use assms(3,4) in \<open>auto simp: run_ok_def a64_ok_def coh_clear\<close>)

end

subsection \<open>Properties\<close>

lemma run_loop_ok:
  assumes "\<And>instr c. a64_ok c \<Longrightarrow> a64_ok (fst (simd instr c))"
  shows "a64_ok c \<Longrightarrow> a64_ok (fst (run_loop simd rd wr intr n i c m))"
proof (induction n arbitrary: i c m)
  case (Suc n)
  obtain c1 f where f: "fetch_instr rd c m = (c1, f)" by fastforce
  have ok1: "a64_ok c1" using fetch_instr_same [OF f] Suc.prems by blast
  show ?case
  proof (cases f)
    case None
    then show ?thesis using f ok1 Suc.prems by simp
  next
    case (Some instr)
    obtain c2 m2 r where e: "exec simd rd wr instr c1 m = (c2, m2, r)" by (metis prod_cases3)
    obtain c3 ex where t: "retire_step r c2 = (c3, ex)" by fastforce
    have "a64_ok c3"
      using retire_step_same [OF t] exec_ok [of c1 simd instr rd wr m] ok1 assms e by simp
    then show ?thesis using Suc f Some e t by (cases ex) (simp_all add: Let_def)
  qed
qed simp




text \<open>A memory that holds \<^verbatim>\<open>LDXR W1, [X2]\<close> everywhere and counts its stores.\<close>

definition demo_rd :: "nat reader" where
  "demo_rd m a n = (if n = 4 then Some (u32_to_le 0x885F7C41) else None)"

definition demo_wr :: "nat writer" where
  "demo_wr m a bs = (Suc m, None)"

definition demo_simd :: simd_unit where
  "demo_simd instr c = (c, Illegal)"

lemma demo_fetch: "fetch_instr demo_rd (a64_new 0 0) 0 = (a64_new 0 0, Some 0x885F7C41)"
proof -
  have "fc_tags (fetch (a64_new 0 0)) ! fc_way 0 \<noteq> 0"
    by (simp add: a64_new_def fc_new_def NO_PAGE_def)
  then show ?thesis
    by (simp add: fetch_instr_def fc_fetch_def demo_rd_def Let_def a64_new_def)
qed

lemma demo_exec: "exec demo_simd demo_rd demo_wr 0x885F7C41 (a64_new 0 0) 0
   = (open_monitor 0 (write_x 1 0x885F7C41 (a64_new 0 0)), 0, Next)"
proof -
  have r: "read_sp (a64_new 0 0) 2 = 0" by (simp add: read_sp_def a64_new_def)
  have v: "u64_from_le (u32_to_le 0x885F7C41) = 0x885F7C41"
    by (simp add: u64_from_le_def u32_to_le_def from_le_to_le)
  show ?thesis
    by (simp add: exec_def exec_ldst_def exec_exclusive_def fld_def reg_field_def Let_def r
        crosses_granule_def excl_bytes_def ldxr_def mem_read_sized_def demo_rd_def v)
qed

lemma demo_after: "after demo_simd demo_rd demo_wr 1 (a64_new 0 0) 0
   = Some ((open_monitor 0 (write_x 1 0x885F7C41 (a64_new 0 0)))\<lparr>rpc := 4\<rparr>, 0)"
  by (simp add: demo_fetch demo_exec retire_step_def) (simp add: open_monitor_def write_x_def a64_new_def)


end
