(* ===== verification/Spec2Isabelle.thy ===== *)
theory Spec2Isabelle
  imports Page_Walk Page_Locks Limits_Quota Seccomp Page_Vec Pipes A64_Run
begin

text \<open>
  Verification of nixvm. The theories model the memory core of the machine monitor.

  \<^item> Nixvm_Base: words, byte encodings, error numbers and the machine locales.
  \<^item> Phys_Frames: the physical frame pool (\<^verbatim>\<open>src/vcpu/phys.rs\<close>).
  \<^item> Page_Table: per-process page tables (\<^verbatim>\<open>src/vcpu/pagetable.rs\<close>).
\<close>

end
